(* ===== verification/Prelude.thy ===== *)
theory Prelude
  imports Main "HOL-Library.Multiset"
begin

text \<open>
  The vocabulary the component theories share: the standard containers of C++ the analysis
  back end of bf4 is written with, and generic facts on lists, maps and relations.

  A \<open>std::map\<close> iterates over its entries in the order of the keys, and many loops of the
  source depend on that order. It is modelled as an association list that is strictly
  sorted by key (\<open>map_ok\<close>), so that a range-based loop over the map is a recursion or a fold
  over the list, \<open>find\<close> is \<open>map_of\<close>, and the modifying operations are the functions below.
  A \<open>std::vector\<close> is a list. A \<open>std::set\<close> or an unordered container that is only asked for
  membership is a set (or a map \<open>'k \<rightharpoonup> 'v\<close>).
\<close>

section \<open>Collections of facts\<close>

named_theorems map_lookup \<open>what map_of returns after an operation on a std::map\<close>
named_theorems map_wf \<open>operations on a std::map keep it sorted\<close>
named_theorems map_keys \<open>the keys of a std::map after an operation\<close>

section \<open>Errors\<close>

text \<open>The exceptions and failed checks of the C++ code, as values.\<close>

datatype cxx_error = OutOfRange | LogicError | BugCheck | UndefinedBehaviour

section \<open>std::map as a sorted association list\<close>

type_synonym ('k, 'v) std_map = "('k \<times> 'v) list"

abbreviation keys :: "('k, 'v) std_map \<Rightarrow> 'k set" where
  "keys m \<equiv> fst ` set m"

definition map_ok :: "('k::linorder, 'v) std_map \<Rightarrow> bool" where
  "map_ok m \<longleftrightarrow> sorted_wrt (<) (map fst m)"

text \<open>\<open>m[k] = v\<close>, or \<open>insert_or_assign\<close>.\<close>

fun map_put :: "'k::linorder \<Rightarrow> 'v \<Rightarrow> ('k, 'v) std_map \<Rightarrow> ('k, 'v) std_map" where
  "map_put k v [] = [(k, v)]"
| "map_put k v ((k', v') # m) =
     (if k < k' then (k, v) # (k', v') # m
      else if k = k' then (k, v) # m
      else (k', v') # map_put k v m)"

text \<open>\<open>m.emplace(k, v)\<close> and \<open>m.insert({k, v})\<close>: an existing entry is left alone.\<close>

definition map_emplace :: "'k::linorder \<Rightarrow> 'v \<Rightarrow> ('k, 'v) std_map \<Rightarrow> ('k, 'v) std_map" where
  "map_emplace k v m = (case map_of m k of None \<Rightarrow> map_put k v m | Some _ \<Rightarrow> m)"

text \<open>
  An update through the reference \<open>m[k]\<close>, which first inserts the default value \<open>d\<close> of the
  mapped type when the key is missing.
\<close>

definition map_modify ::
  "'v \<Rightarrow> 'k::linorder \<Rightarrow> ('v \<Rightarrow> 'v) \<Rightarrow> ('k, 'v) std_map \<Rightarrow> ('k, 'v) std_map" where
  "map_modify d k f m = map_put k (f (case map_of m k of None \<Rightarrow> d | Some v \<Rightarrow> v)) m"

text \<open>\<open>m.erase(k)\<close>.\<close>

definition map_erase :: "'k \<Rightarrow> ('k, 'v) std_map \<Rightarrow> ('k, 'v) std_map" where
  "map_erase k m = filter (\<lambda>p. fst p \<noteq> k) m"

text \<open>A loop that rewrites every mapped value in place.\<close>

definition map_values :: "('k \<Rightarrow> 'v \<Rightarrow> 'w) \<Rightarrow> ('k, 'v) std_map \<Rightarrow> ('k, 'w) std_map" where
  "map_values f m = map (\<lambda>(k, v). (k, f k v)) m"

subsection \<open>Keys and lookups\<close>

lemma map_of_put [simp, map_lookup]:
  "map_of (map_put k v m) x = (if x = k then Some v else map_of m x)"
  by (induction m) auto

lemma map_of_emplace [map_lookup]:
  "map_of (map_emplace k v m) x =
     (if x = k then Some (case map_of m k of None \<Rightarrow> v | Some w \<Rightarrow> w) else map_of m x)"
  by (auto simp: map_emplace_def split: option.splits)

lemma map_of_modify [map_lookup]:
  "map_of (map_modify d k f m) x =
     (if x = k then Some (f (case map_of m k of None \<Rightarrow> d | Some v \<Rightarrow> v)) else map_of m x)"
  by (simp add: map_modify_def)

lemma map_of_erase [map_lookup]:
  "map_of (map_erase k m) x = (if x = k then None else map_of m x)"
  by (induction m) (auto simp: map_erase_def)

lemma map_of_values [map_lookup]:
  "map_of (map_values f m) x = map_option (f x) (map_of m x)"
  by (induction m) (auto simp: map_values_def)

lemma keys_put [simp, map_keys]: "keys (map_put k v m) = insert k (keys m)"
  by (induction k v m rule: map_put.induct) (simp_all add: insert_commute)

lemma keys_modify [map_keys]: "keys (map_modify d k f m) = insert k (keys m)"
  by (simp add: map_modify_def)

lemma keys_emplace [map_keys]: "keys (map_emplace k v m) = insert k (keys m)"
  by (auto simp: map_emplace_def split: option.splits dest!: map_of_SomeD intro: rev_image_eqI)

lemma keys_erase [map_keys]: "keys (map_erase k m) = keys m - {k}"
  by (auto simp: map_erase_def)

lemma keys_values [map_keys]: "keys (map_values f m) = keys m"
  by (force simp: map_values_def image_image)

lemma entry_in_keys [intro]: "(k, v) \<in> set m \<Longrightarrow> k \<in> keys m"
  by force

lemma map_of_None_keys: "map_of m k = None \<longleftrightarrow> k \<notin> keys m"
  by (simp add: map_of_eq_None_iff)

lemma map_of_Some_keys: "map_of m k = Some v \<Longrightarrow> k \<in> keys m"
  by (force dest: map_of_SomeD)

lemma keys_map_of: "k \<in> keys m \<Longrightarrow> \<exists>v. map_of m k = Some v"
  by (metis map_of_None_keys not_None_eq)

subsection \<open>The order of the keys\<close>

lemma map_ok_Nil [simp, map_wf]: "map_ok []"
  by (simp add: map_ok_def)

lemma map_ok_Cons:
  "map_ok ((k, v) # m) \<longleftrightarrow> (\<forall>k' \<in> keys m. k < k') \<and> map_ok m"
  by (auto simp: map_ok_def)

lemma map_ok_distinct: "map_ok m \<Longrightarrow> distinct (map fst m)"
  unfolding map_ok_def by (induction m) auto

lemma map_ok_put [simp, map_wf]: "map_ok m \<Longrightarrow> map_ok (map_put k v m)"
  by (induction k v m rule: map_put.induct) (force simp: map_ok_Cons not_less_iff_gr_or_eq)+

lemma map_ok_emplace [map_wf]: "map_ok m \<Longrightarrow> map_ok (map_emplace k v m)"
  by (simp add: map_emplace_def split: option.split)

lemma map_ok_modify [map_wf]: "map_ok m \<Longrightarrow> map_ok (map_modify d k f m)"
  by (simp add: map_modify_def)

lemma map_ok_filter [map_wf]: "map_ok m \<Longrightarrow> map_ok (filter P m)"
  by (induction m) (auto simp: map_ok_Cons)

lemma map_ok_erase [map_wf]: "map_ok m \<Longrightarrow> map_ok (map_erase k m)"
  by (simp add: map_erase_def map_ok_filter)

lemma map_ok_values [map_wf]: "map_ok (map_values f m) = map_ok m"
  by (simp add: map_ok_def map_values_def comp_def case_prod_beta)

lemma map_ok_entry: "map_ok m \<Longrightarrow> (k, v) \<in> set m \<longleftrightarrow> map_of m k = Some v"
  by (simp add: map_ok_distinct)

text \<open>Two sorted maps with the same lookups are the same map.\<close>

lemma map_ok_ext:
  assumes "map_ok m" and "map_ok m'" and "map_of m = map_of m'"
  shows "m = m'"
proof -
  have "set m = set m'"
    using assms by (auto simp: map_ok_entry)
  moreover have "distinct m" and "distinct m'"
    using assms map_ok_distinct distinct_map by blast+
  moreover have "sorted (map fst m)" and "sorted (map fst m')"
    using assms by (auto simp: map_ok_def strict_sorted_iff)
  moreover have "inj_on fst (set m \<union> set m')"
    using assms by (auto simp: inj_on_def map_ok_entry)
  ultimately show ?thesis
    by (intro map_sorted_distinct_set_unique [of fst]) (auto simp: map_ok_distinct assms)
qed

section \<open>The container contract\<close>

text \<open>
  What the loops of the analysis rely on when they fill a map: an empty map, an update, a
  deletion and a lookup. The laws hold for the sorted list (\<open>std::map\<close>) below; the lemmas
  proved here once are used for every map that is built by a loop.
\<close>

locale keyed_container =
  fixes empty :: 'm
    and update :: "'k \<Rightarrow> 'v \<Rightarrow> 'm \<Rightarrow> 'm"
    and delete :: "'k \<Rightarrow> 'm \<Rightarrow> 'm"
    and lookup :: "'m \<Rightarrow> 'k \<Rightarrow> 'v option"
    and invar :: "'m \<Rightarrow> bool"
  assumes lookup_empty: "lookup empty k = None"
    and lookup_update: "invar m \<Longrightarrow> lookup (update k v m) x = (if x = k then Some v else lookup m x)"
    and lookup_delete: "invar m \<Longrightarrow> lookup (delete k m) x = (if x = k then None else lookup m x)"
    and invar_empty: "invar empty"
    and invar_update: "invar m \<Longrightarrow> invar (update k v m)"
    and invar_delete: "invar m \<Longrightarrow> invar (delete k m)"
begin

text \<open>A loop that stores a value for each element of a vector: the last store wins.\<close>

lemma invar_fold_update: "invar m \<Longrightarrow> invar (fold (\<lambda>x. update (f x) (h x)) xs m)"
  by (induction xs arbitrary: m) (auto simp: invar_update)

lemma lookup_fold_update:
  "invar m \<Longrightarrow> lookup (fold (\<lambda>x. update (f x) (h x)) xs m) k =
     (case filter (\<lambda>x. f x = k) (rev xs) of [] \<Rightarrow> lookup m k | x # _ \<Rightarrow> Some (h x))"
  by (induction xs rule: rev_induct) (auto simp: lookup_update invar_fold_update)

lemma lookup_fold_update_key:
  "invar m \<Longrightarrow> lookup (fold (\<lambda>x. update (f x) (h (f x))) xs m) k =
     (if k \<in> f ` set xs then Some (h k) else lookup m k)"
  by (induction xs rule: rev_induct) (auto simp: lookup_update invar_fold_update [where h = "\<lambda>x. h (f x)"])

lemma lookup_fold_delete:
  "invar m \<Longrightarrow> lookup (fold delete xs m) k = (if k \<in> set xs then None else lookup m k)"
  by (induction xs arbitrary: m) (auto simp: lookup_delete invar_delete)

end

interpretation std_map: keyed_container "[]" map_put map_erase map_of map_ok
  by unfold_locales (auto simp: map_lookup map_wf)

section \<open>std::set as a sorted list\<close>

text \<open>\<open>s.emplace(x)\<close> on a set whose least element the source takes out first.\<close>

fun set_put :: "'a::linorder \<Rightarrow> 'a list \<Rightarrow> 'a list" where
  "set_put x [] = [x]"
| "set_put x (y # ys) = (if x < y then x # y # ys else if x = y then y # ys else y # set_put x ys)"

lemma set_set_put [simp]: "set (set_put x xs) = insert x (set xs)"
  by (induction x xs rule: set_put.induct) auto

lemma sorted_set_put: "sorted_wrt (<) xs \<Longrightarrow> sorted_wrt (<) (set_put x xs)"
  by (induction x xs rule: set_put.induct) auto

lemma set_fold_put [simp]: "set (fold set_put xs s) = set xs \<union> set s"
  by (induction xs arbitrary: s) auto

lemma sorted_fold_put: "sorted_wrt (<) s \<Longrightarrow> sorted_wrt (<) (fold set_put xs s)"
  by (induction xs arbitrary: s) (auto intro: sorted_set_put)

section \<open>Lists\<close>

text \<open>The position of an element in a list without duplicates.\<close>

fun pos :: "'a list \<Rightarrow> 'a \<Rightarrow> nat" where
  "pos [] x = 0"
| "pos (y # ys) x = (if x = y then 0 else Suc (pos ys x))"

lemma pos_append: "pos (xs @ ys) x = (if x \<in> set xs then pos xs x else length xs + pos ys x)"
  by (induction xs) auto

lemma pos_less_length: "x \<in> set xs \<Longrightarrow> pos xs x < length xs"
  by (induction xs) auto

lemma nth_pos: "x \<in> set xs \<Longrightarrow> xs ! pos xs x = x"
  by (induction xs) auto

lemma pos_nth: "distinct xs \<Longrightarrow> i < length xs \<Longrightarrow> pos xs (xs ! i) = i"
  by (induction xs arbitrary: i) (auto simp: nth_Cons split: nat.splits)

lemma pos_inj: "x \<in> set xs \<Longrightarrow> y \<in> set xs \<Longrightarrow> pos xs x = pos xs y \<Longrightarrow> x = y"
  by (metis nth_pos)

section \<open>Relations\<close>

text \<open>A set closed under a relation is closed under its reachability.\<close>

lemma rtrancl_closed:
  assumes "(x, y) \<in> r\<^sup>*" and "x \<in> A" and "\<And>u v. u \<in> A \<Longrightarrow> (u, v) \<in> r \<Longrightarrow> v \<in> A"
  shows "y \<in> A"
  using assms by (induction rule: rtrancl_induct) auto

lemma acyclic_no_return: "acyclic r \<Longrightarrow> (x, y) \<in> r \<Longrightarrow> (y, x) \<notin> r\<^sup>*"
  by (meson acyclic_def rtrancl_into_trancl2)

text \<open>A numbering that every edge decreases rules out cycles.\<close>

lemma acyclic_decreasing:
  assumes "\<And>x y. (x, y) \<in> r \<Longrightarrow> (f y :: nat) < f x"
  shows "acyclic r"
proof -
  have "(x, y) \<in> r\<^sup>+ \<Longrightarrow> f y < f x" for x y
    by (induction rule: trancl_induct) (auto dest: assms intro: less_trans)
  then show ?thesis
    by (auto simp: acyclic_def)
qed

end
