(* ===== verification/Cfg_Types.thy ===== *)
theory Cfg_Types
  imports Prelude
begin

text \<open>
  The data of the control-flow graphs of bf4 (\<open>backends/analysis/cfg_algos.h\<close> and
  \<open>cfg_algos.cpp\<close>): node and edge types, the node key \<open>node_t\<close> with its order, edges, and the
  predicates that look at the IR node behind a graph node.

  The graph never looks into the IR except through these predicates. A pointer
  \<open>const IR::Node *\<close> is an address (\<open>ptr\<close>, 0 is the null pointer); comparing nodes compares
  addresses, as the source does. The IR objects themselves are a heap \<open>ptr \<Rightarrow> ir\<close> whose
  constructors are the IR classes the predicates test for; every pointer that is
  dereferenced is assumed to be live.
\<close>

section \<open>Node types and nodes\<close>

datatype NodeType = NORMAL | CALL | RETURN | START | END | UNKNOWN

text \<open>The numeric values of the enumerators, which order \<open>NodeType\<close> in \<open>operator<\<close>.\<close>

fun NodeType_rank :: "NodeType \<Rightarrow> nat" where
  "NodeType_rank NORMAL = 0"
| "NodeType_rank CALL = 1"
| "NodeType_rank RETURN = 2"
| "NodeType_rank START = 3"
| "NodeType_rank END = 4"
| "NodeType_rank UNKNOWN = 5"

lemma NodeType_rank_inject: "NodeType_rank a = NodeType_rank b \<longleftrightarrow> a = b"
  by (cases a; cases b) auto

instantiation NodeType :: linorder
begin

definition less_eq_NodeType :: "NodeType \<Rightarrow> NodeType \<Rightarrow> bool" where
  "less_eq_NodeType a b \<longleftrightarrow> NodeType_rank a \<le> NodeType_rank b"

definition less_NodeType :: "NodeType \<Rightarrow> NodeType \<Rightarrow> bool" where
  "less_NodeType a b \<longleftrightarrow> NodeType_rank a < NodeType_rank b"

instance
  by standard (auto simp: less_eq_NodeType_def less_NodeType_def NodeType_rank_inject [symmetric])

end

type_synonym ptr = nat

record node_t =
  node :: ptr
  ntype :: NodeType
  label :: nat

text \<open>
  \<open>node_t::operator<\<close>: by address, then by type, then by label. The extension slot of the
  record comes last; for \<open>node_t\<close> itself it is the unit and never decides.
\<close>

instantiation node_t_ext :: (linorder) linorder
begin

definition less_node_t_ext :: "'a node_t_scheme \<Rightarrow> 'a node_t_scheme \<Rightarrow> bool" where
  "less_node_t_ext a b \<longleftrightarrow>
     (if node a \<noteq> node b then node a < node b
      else if ntype a \<noteq> ntype b then ntype a < ntype b
      else if label a \<noteq> label b then label a < label b
      else node_t.more a < node_t.more b)"

definition less_eq_node_t_ext :: "'a node_t_scheme \<Rightarrow> 'a node_t_scheme \<Rightarrow> bool" where
  "less_eq_node_t_ext a b \<longleftrightarrow> (a :: 'a node_t_scheme) = b \<or> a < b"

instance
  by standard
    (auto simp: less_eq_node_t_ext_def less_node_t_ext_def intro: node_t.equality
          split: if_splits)

end

definition node_t_less :: "node_t \<Rightarrow> node_t \<Rightarrow> bool" where
  "node_t_less a b =
     (if node a \<noteq> node b then node a < node b
      else if ntype a \<noteq> ntype b then ntype a < ntype b
      else label a < label b)"

definition node_t_eq :: "node_t \<Rightarrow> node_t \<Rightarrow> bool" where
  "node_t_eq a b \<longleftrightarrow> node a = node b \<and> ntype a = ntype b \<and> label a = label b"

lemma node_t_less_iff: "node_t_less a b \<longleftrightarrow> a < b"
  by (simp add: node_t_less_def less_node_t_ext_def)

lemma node_t_eq_iff: "node_t_eq a b \<longleftrightarrow> a = b"
  by (auto simp: node_t_eq_def intro: node_t.equality)

text \<open>The constructors: a normal node with label 0, a node of a given type, a retyped copy.\<close>

definition mk_node :: "ptr \<Rightarrow> node_t" where
  "mk_node p = \<lparr>node = p, ntype = NORMAL, label = 0\<rparr>"

definition mk_node_type :: "ptr \<Rightarrow> NodeType \<Rightarrow> node_t" where
  "mk_node_type p t = \<lparr>node = p, ntype = t, label = 0\<rparr>"

definition retype :: "node_t \<Rightarrow> NodeType \<Rightarrow> node_t" where
  "retype n t = n\<lparr>ntype := t\<rparr>"

definition before :: node_t where
  "before = mk_node_type 0 UNKNOWN"

definition clone_node :: "node_t \<Rightarrow> nat \<Rightarrow> node_t" where
  "clone_node n lbl = n\<lparr>label := lbl\<rparr>"

section \<open>Edge types and edges\<close>

datatype EdgeType = NORMAL | CALL | RETURN | CALL_TO_RETURN | GOTO | UNKNOWN

definition edgeType :: "int \<Rightarrow> EdgeType" where
  "edgeType et =
     (if et \<ge> 0 then EdgeType.NORMAL
      else if et = -1 then EdgeType.CALL
      else if et = -2 then EdgeType.RETURN
      else if et = -3 then EdgeType.CALL_TO_RETURN
      else if et = -4 then EdgeType.GOTO
      else EdgeType.UNKNOWN)"

fun toNumber :: "EdgeType \<Rightarrow> int" where
  "toNumber EdgeType.NORMAL = 0"
| "toNumber EdgeType.CALL = -1"
| "toNumber EdgeType.RETURN = -2"
| "toNumber EdgeType.CALL_TO_RETURN = -3"
| "toNumber EdgeType.GOTO = -4"
| "toNumber EdgeType.UNKNOWN = -255"

type_synonym 'n edge = "'n \<times> int"

definition edgeType_of :: "'n edge \<Rightarrow> EdgeType" where
  "edgeType_of e = edgeType (snd e)"

record 'n AbsEdge =
  source :: 'n
  dst :: 'n
  elabel :: int

definition mk_AbsEdge :: "'n \<Rightarrow> 'n edge \<Rightarrow> 'n AbsEdge" where
  "mk_AbsEdge s e = \<lparr>source = s, dst = fst e, elabel = snd e\<rparr>"

definition AbsEdge_type :: "'n AbsEdge \<Rightarrow> EdgeType" where
  "AbsEdge_type e = edgeType (elabel e)"

definition AbsEdge_less :: "'n::linorder AbsEdge \<Rightarrow> 'n AbsEdge \<Rightarrow> bool" where
  "AbsEdge_less a b =
     (if source a \<noteq> source b then source a < source b
      else if dst a \<noteq> dst b then dst a < dst b
      else elabel a < elabel b)"

definition AbsEdge_eq :: "'n AbsEdge \<Rightarrow> 'n AbsEdge \<Rightarrow> bool" where
  "AbsEdge_eq a b \<longleftrightarrow> source a = source b \<and> dst a = dst b \<and> elabel a = elabel b"

section \<open>The IR behind a node\<close>

text \<open>
  The IR classes the graph code distinguishes. \<open>OtherExpression\<close> stands for every other
  expression class and \<open>OtherNode\<close> for every class that is neither an expression nor one of
  the statements below. Sub-objects are pointers.
\<close>

datatype ir =
    AssignmentStatement (asg_left: ptr) (asg_right: ptr)
  | MethodCallStatement (mcs_call: ptr)
  | ReturnStatement (ret_expression: ptr)
  | IfStatement (if_condition: ptr) (if_true: ptr) (if_false: ptr)
  | EmptyStatement
  | Declaration
  | IRVector (vec_elems: "ptr list")
  | SelectExpression (sel_select: "ptr list") (sel_cases: "ptr list")
  | SelectCase (case_keyset: ptr) (case_state: ptr)
  | ListExpression (list_components: "ptr list")
  | DefaultExpression
  | MethodCallExpression
  | OtherExpression
  | OtherNode

type_synonym heap = "ptr \<Rightarrow> ir"

fun is_Expression :: "ir \<Rightarrow> bool" where
  "is_Expression (SelectExpression _ _) = True"
| "is_Expression (ListExpression _) = True"
| "is_Expression DefaultExpression = True"
| "is_Expression MethodCallExpression = True"
| "is_Expression OtherExpression = True"
| "is_Expression _ = False"

section \<open>Classification of nodes\<close>

record assign_t =
  as_lv :: ptr
  as_rv :: ptr

record assign_ret_t =
  ar_lv :: ptr
  ar_rv :: ptr
  ar_nodeType :: NodeType

record condition_t =
  cond :: ptr
  tt :: bool



record method_call_t =
  methodCallStatement :: ptr
  mc_type :: NodeType

definition NORMAL_NODE :: "node_t \<Rightarrow> bool" where
  "NORMAL_NODE n \<longleftrightarrow> ntype n = NodeType.NORMAL \<or> ntype n = NodeType.START"

definition actual_node :: "heap \<Rightarrow> node_t \<Rightarrow> ptr" where
  "actual_node h n = (case h (node n) of IfStatement c _ _ \<Rightarrow> c | _ \<Rightarrow> node n)"

definition is_assign :: "heap \<Rightarrow> node_t \<Rightarrow> assign_t option" where
  "is_assign h n =
     (if \<not> NORMAL_NODE n then None
      else case h (node n) of
        AssignmentStatement l r \<Rightarrow> Some \<lparr>as_lv = l, as_rv = r\<rparr>
      | _ \<Rightarrow> None)"

definition is_assign_ret :: "heap \<Rightarrow> node_t \<Rightarrow> assign_ret_t option" where
  "is_assign_ret h n =
     (if ntype n \<noteq> NodeType.CALL \<and> ntype n \<noteq> NodeType.RETURN then None
      else case h (node n) of
        AssignmentStatement l r \<Rightarrow>
          (if h r = MethodCallExpression
           then Some \<lparr>ar_lv = l, ar_rv = r, ar_nodeType = ntype n\<rparr> else None)
      | _ \<Rightarrow> None)"

definition is_extern_assign_ret :: "heap \<Rightarrow> node_t \<Rightarrow> assign_ret_t option" where
  "is_extern_assign_ret h n =
     (if \<not> NORMAL_NODE n then None
      else case h (node n) of
        AssignmentStatement l r \<Rightarrow>
          (if h r = MethodCallExpression
           then Some \<lparr>ar_lv = l, ar_rv = r, ar_nodeType = ntype n\<rparr> else None)
      | _ \<Rightarrow> None)"

definition is_return :: "heap \<Rightarrow> node_t \<Rightarrow> ptr option" where
  "is_return h n =
     (if \<not> NORMAL_NODE n then None
      else case h (node n) of ReturnStatement e \<Rightarrow> Some e | _ \<Rightarrow> None)"

definition is_method_call :: "heap \<Rightarrow> node_t \<Rightarrow> method_call_t option" where
  "is_method_call h n =
     (if ntype n \<noteq> NodeType.CALL then None
      else case h (node n) of
        MethodCallStatement _ \<Rightarrow> Some \<lparr>methodCallStatement = node n, mc_type = ntype n\<rparr>
      | _ \<Rightarrow> None)"

definition is_extern_method_call :: "heap \<Rightarrow> node_t \<Rightarrow> method_call_t option" where
  "is_extern_method_call h n =
     (if NORMAL_NODE n
      then case h (node n) of
        MethodCallStatement _ \<Rightarrow> Some \<lparr>methodCallStatement = node n, mc_type = ntype n\<rparr>
      | _ \<Rightarrow> None
      else None)"

definition is_var_decl :: "heap \<Rightarrow> node_t \<Rightarrow> ptr option" where
  "is_var_decl h n =
     (if NORMAL_NODE n \<and> h (node n) = Declaration then Some (node n) else None)"

definition is_basic_block :: "heap \<Rightarrow> node_t \<Rightarrow> ptr list option" where
  "is_basic_block h n = (case h (node n) of IRVector v \<Rightarrow> Some v | _ \<Rightarrow> None)"

text \<open>
  \<open>is_if\<close> on a full edge; the type map is asked only whether an expression is boolean
  (\<open>isBoolean\<close>).
\<close>

definition is_if :: "heap \<Rightarrow> (ptr \<Rightarrow> bool) \<Rightarrow> node_t AbsEdge \<Rightarrow> condition_t option" where
  "is_if h isBoolean fe =
     (if \<not> NORMAL_NODE (source fe) then None
      else case h (node (source fe)) of
        IfStatement c _ _ \<Rightarrow> Some \<lparr>cond = c, tt = (elabel fe = 1)\<rparr>
      | x \<Rightarrow>
          (if is_Expression x \<and> \<not> is_SelectExpression x \<and> isBoolean (node (source fe))
           then Some \<lparr>cond = node (source fe), tt = (elabel fe = 1)\<rparr> else None))"

definition is_method_return :: "heap \<Rightarrow> node_t AbsEdge \<Rightarrow> method_call_t option" where
  "is_method_return h fe =
     (if AbsEdge_type fe = EdgeType.RETURN \<and> ntype (source fe) = NodeType.END \<and>
         ntype (dst fe) = NodeType.RETURN
      then Some \<lparr>methodCallStatement =
                   (if is_MethodCallStatement (h (node (dst fe))) then node (dst fe) else 0),
                 mc_type = NodeType.RETURN\<rparr>
      else None)"

subsection \<open>Instructions of a node\<close>

text \<open>
  A node is a basic block (an \<open>IR::Vector\<close>) or a single instruction. \<open>instruction_at\<close> throws
  out of range on a vector and returns the null pointer (\<open>Inr None\<close>) on a single instruction.
\<close>

definition instructions :: "heap \<Rightarrow> node_t \<Rightarrow> ptr list" where
  "instructions h n = (case h (node n) of IRVector v \<Rightarrow> v | _ \<Rightarrow> [node n])"

definition nr_instructions :: "heap \<Rightarrow> node_t \<Rightarrow> nat" where
  "nr_instructions h n = length (instructions h n)"

definition instruction_at :: "heap \<Rightarrow> node_t \<Rightarrow> nat \<Rightarrow> cxx_error + ptr option" where
  "instruction_at h n i =
     (case h (node n) of
        IRVector v \<Rightarrow> (if i < length v then Inr (Some (v ! i)) else Inl OutOfRange)
      | _ \<Rightarrow> (if i = 0 then Inr (Some (node n)) else Inr None))"

definition first_instruction :: "heap \<Rightarrow> node_t \<Rightarrow> cxx_error + ptr option" where
  "first_instruction h n = instruction_at h n 0"

definition last_instruction :: "heap \<Rightarrow> node_t \<Rightarrow> ptr option" where
  "last_instruction h n =
     (case h (node n) of
        IRVector v \<Rightarrow> (if v = [] then None else Some (last v))
      | _ \<Rightarrow> Some (node n))"

definition isEmpty :: "heap \<Rightarrow> node_t \<Rightarrow> bool" where
  "isEmpty h n \<longleftrightarrow> nr_instructions h n = 0"

subsection \<open>Select expressions\<close>




section \<open>Properties\<close>

text \<open>
  \<open>edgeType\<close> is a left inverse of \<open>toNumber\<close>: the integer the CFG builder stores for an
  edge type is read back as that type; and an integer is read as NORMAL exactly when it is a
  branch number (not negative).
\<close>

lemma edgeType_toNumber:
  "edgeType (toNumber t) = t \<and> (edgeType i = EdgeType.NORMAL \<longleftrightarrow> 0 \<le> i)"
  by (cases t) (auto simp: edgeType_def)

text \<open>The orders the containers are built on agree with the \<open>operator==\<close> of the same class.\<close>

lemma node_t_less_strict: "\<not> node_t_less a a"
  and node_t_less_trans: "node_t_less a b \<Longrightarrow> node_t_less b c \<Longrightarrow> node_t_less a c"
  and node_t_eq_incomparable: "node_t_eq a b \<longleftrightarrow> \<not> node_t_less a b \<and> \<not> node_t_less b a"
  by (auto simp: node_t_less_iff node_t_eq_iff)

lemma AbsEdge_less_strict: "\<not> AbsEdge_less x x"
  and AbsEdge_less_trans: "AbsEdge_less x y \<Longrightarrow> AbsEdge_less y z \<Longrightarrow> AbsEdge_less x z"
  and AbsEdge_eq_incomparable: "AbsEdge_eq x y \<longleftrightarrow> \<not> AbsEdge_less x y \<and> \<not> AbsEdge_less y x"
  by (auto simp: AbsEdge_less_def AbsEdge_eq_def split: if_splits)

text \<open>
  Access by index agrees with iteration. \<open>instruction_at\<close> succeeds with an instruction
  exactly below \<open>nr_instructions\<close>, and then returns the one the iterator yields at that place;
  it throws only on a basic block; \<open>last_instruction\<close> is the null pointer exactly on an empty
  block and otherwise the last one the iterator yields.
\<close>

lemma instruction_access:
  "(instruction_at h n i = Inr (Some p) \<longleftrightarrow> i < nr_instructions h n \<and> p = instructions h n ! i) \<and>
   (instruction_at h n i = Inl OutOfRange \<longleftrightarrow>
      is_basic_block h n \<noteq> None \<and> nr_instructions h n \<le> i) \<and>
   (last_instruction h n =
      (if isEmpty h n then None else Some (instructions h n ! (nr_instructions h n - 1))))"
  by (cases "h (node n)")
    (auto simp: instruction_at_def nr_instructions_def instructions_def is_basic_block_def
       last_instruction_def isEmpty_def last_conv_nth)

text \<open>
  The predicates split the assignment nodes. A node is an assignment for at most one of
  \<open>is_assign\<close> (statement nodes) and \<open>is_assign_ret\<close> (call and return nodes); an extern call
  with a result is also a plain assignment with the same sides; and a method call node is never
  at once an internal and an extern call.
\<close>

lemma assignment_classification:
  "(is_assign h n = None \<or> is_assign_ret h n = None) \<and>
   (is_extern_assign_ret h n = Some r \<longrightarrow>
      is_assign h n = Some \<lparr>as_lv = ar_lv r, as_rv = ar_rv r\<rparr> \<and> h (ar_rv r) = MethodCallExpression) \<and>
   (is_method_call h n = None \<or> is_extern_method_call h n = None)"
  by (cases "h (node n)")
    (auto simp: is_assign_def is_assign_ret_def is_extern_assign_ret_def NORMAL_NODE_def
       is_method_call_def is_extern_method_call_def)

definition sample_heap :: heap where
  "sample_heap p =
     (if p = 1 then AssignmentStatement 2 3 else if p = 3 then MethodCallExpression
      else if p = 10 then SelectExpression [2] [11, 12]
      else if p = 11 then SelectCase 2 0 else if p = 12 then SelectCase 2 0
      else OtherExpression)"

lemma assignment_classification_witness:
  "is_extern_assign_ret sample_heap (mk_node 1) =
     Some \<lparr>ar_lv = 2, ar_rv = 3, ar_nodeType = NodeType.NORMAL\<rparr> \<and>
   is_assign sample_heap (mk_node 1) = Some \<lparr>as_lv = 2, as_rv = 3\<rparr>"
proof -
  have h: "is_extern_assign_ret sample_heap (mk_node 1) =
     Some \<lparr>ar_lv = 2, ar_rv = 3, ar_nodeType = NodeType.NORMAL\<rparr>"
    by (simp add: is_extern_assign_ret_def NORMAL_NODE_def mk_node_def sample_heap_def)
  then show ?thesis
    using assignment_classification
      [of sample_heap "mk_node 1" "\<lparr>ar_lv = 2, ar_rv = 3, ar_nodeType = NodeType.NORMAL\<rparr>"]
    by simp
qed



end
