(* ===== verification/Cfg_Graph.thy ===== *)
theory Cfg_Graph
  imports Cfg_Types
begin

text \<open>
  The adjacency map of the analysis, \<open>EdgeHolder\<close> (\<open>std::map\<close> from a node to the vector of its
  edges), and the operations of \<open>backends/analysis/cfg_algos.h\<close> and \<open>cfg_algos.cpp\<close> that query,
  reverse, restrict, merge and rename it. Most of them do not look into the nodes, and are
  stated over any linearly ordered node type; the source instantiates them at \<open>node_t\<close>.
\<close>

section \<open>EdgeHolder\<close>

type_synonym 'n edge_holder = "('n, 'n edge list) std_map"

definition neighbors_or_null :: "'n edge_holder \<Rightarrow> 'n \<Rightarrow> 'n edge list option" where
  "neighbors_or_null hld nd = map_of hld nd"

definition neighbors_or_empty :: "'n edge_holder \<Rightarrow> 'n \<Rightarrow> 'n edge list" where
  "neighbors_or_empty hld nd = (case map_of hld nd of Some es \<Rightarrow> es | None \<Rightarrow> [])"

definition nr_neighbors :: "'n edge_holder \<Rightarrow> 'n \<Rightarrow> nat" where
  "nr_neighbors hld nd =
     (case neighbors_or_null hld nd of Some neighs \<Rightarrow> length neighs | None \<Rightarrow> 0)"

definition neighbors_empty :: "'n edge_holder \<Rightarrow> 'n \<Rightarrow> bool" where
  "neighbors_empty hld nd \<longleftrightarrow> nr_neighbors hld nd = 0"

text \<open>The successors of a node without their labels, and the edge relation of a graph.\<close>

abbreviation succs :: "'n edge_holder \<Rightarrow> 'n \<Rightarrow> 'n list" where
  "succs g n \<equiv> map fst (neighbors_or_empty g n)"

definition edge_rel :: "'n edge_holder \<Rightarrow> ('n \<times> 'n) set" where
  "edge_rel g = {(u, v). v \<in> set (succs g u)}"

definition reachable_from :: "'n edge_holder \<Rightarrow> 'n \<Rightarrow> 'n set" where
  "reachable_from g s = {n. (s, n) \<in> (edge_rel g)\<^sup>*}"

text \<open>All edges of a graph, in the order in which the nested loops over the map see them.\<close>

definition edge_list :: "'n edge_holder \<Rightarrow> ('n \<times> 'n \<times> int) list" where
  "edge_list g = concat (map (\<lambda>(n, es). map (\<lambda>(t, l). (n, t, l)) es) g)"

lemma nr_neighbors_eq: "nr_neighbors g n = length (neighbors_or_empty g n)"
  by (simp add: nr_neighbors_def neighbors_or_null_def neighbors_or_empty_def split: option.split)

lemma neighbors_empty_eq: "neighbors_empty g n \<longleftrightarrow> neighbors_or_empty g n = []"
  by (simp add: neighbors_empty_def nr_neighbors_eq)

lemma neighbors_notin_keys: "n \<notin> keys g \<Longrightarrow> neighbors_or_empty g n = []"
  by (simp add: neighbors_or_empty_def map_of_None_keys [THEN iffD2])

lemma neighbors_Nil [simp]: "neighbors_or_empty [] n = []"
  by (simp add: neighbors_or_empty_def)

lemma edge_relI [intro]: "(v, l) \<in> set (neighbors_or_empty g u) \<Longrightarrow> (u, v) \<in> edge_rel g"
  by (force simp: edge_rel_def)

lemma edge_rel_succs: "(u, v) \<in> edge_rel g \<longleftrightarrow> v \<in> set (succs g u)"
  by (simp add: edge_rel_def)

lemma edge_rel_keys: "(u, v) \<in> edge_rel g \<Longrightarrow> u \<in> keys g"
  by (metis edge_rel_succs empty_iff list.simps(8) list.set(1) neighbors_notin_keys)

lemma reachable_from_refl [simp]: "s \<in> reachable_from g s"
  by (simp add: reachable_from_def)

lemma reachable_from_step:
  "u \<in> reachable_from g s \<Longrightarrow> (u, v) \<in> edge_rel g \<Longrightarrow> v \<in> reachable_from g s"
  by (auto simp: reachable_from_def intro: rtrancl_into_rtrancl)

lemma edge_list_neighbors:
  "map_ok g \<Longrightarrow> (u, v, l) \<in> set (edge_list g) \<longleftrightarrow> (v, l) \<in> set (neighbors_or_empty g u)"
  by (force simp: edge_list_def neighbors_or_empty_def map_ok_entry split: option.split)

lemma edge_list_Cons:
  "edge_list ((n, es) # g) = map (\<lambda>(t, l). (n, t, l)) es @ edge_list g"
  by (simp add: edge_list_def)

lemma edge_list_Nil [simp]: "edge_list [] = []"
  by (simp add: edge_list_def)

lemma set_edge_list: "set (edge_list g) = {(n, t, l). \<exists>es. (n, es) \<in> set g \<and> (t, l) \<in> set es}"
  by (auto simp: edge_list_def)

section \<open>Reversal\<close>

text \<open>\<open>emplace\<close> of an empty vector, then \<open>emplace_back\<close> of the reversed edge.\<close>

definition push_edge :: "'n::linorder \<Rightarrow> 'n edge \<Rightarrow> 'n edge_holder \<Rightarrow> 'n edge_holder" where
  "push_edge n e g = map_modify [] n (\<lambda>es. es @ [e]) g"

definition reverse :: "'n::linorder edge_holder \<Rightarrow> 'n edge_holder" where
  "reverse graph =
     fold (\<lambda>(n, es). fold (\<lambda>(t, l). push_edge t (n, l)) es) graph []"

lemma map_ok_push_edge [map_wf]: "map_ok g \<Longrightarrow> map_ok (push_edge n e g)"
  by (simp add: push_edge_def map_wf)

lemma neighbors_push_edge:
  "neighbors_or_empty (push_edge n e g) x =
     neighbors_or_empty g x @ (if x = n then [e] else [])"
  by (auto simp: push_edge_def neighbors_or_empty_def map_lookup split: option.splits)

lemma keys_push_edge [map_keys]: "keys (push_edge n e g) = insert n (keys g)"
  by (simp add: push_edge_def map_keys)

text \<open>The two nested loops of \<open>reverse\<close> are one loop over the edges.\<close>

lemma reverse_edge_list:
  "reverse g = fold (\<lambda>(n, t, l). push_edge t (n, l)) (edge_list g) []"
proof -
  have "fold (\<lambda>(n, es). fold (\<lambda>(t, l). push_edge t (n, l)) es) g acc =
        fold (\<lambda>(n, t, l). push_edge t (n, l)) (edge_list g) acc" for acc
    by (induction g arbitrary: acc)
      (auto simp: edge_list_Cons fold_map comp_def case_prod_beta')
  then show ?thesis
    by (simp add: reverse_def)
qed

lemma map_ok_fold_push_edge:
  "map_ok acc \<Longrightarrow> map_ok (fold (\<lambda>(n, t, l). push_edge t (n, l)) es acc)"
  by (induction es arbitrary: acc) (auto simp: map_wf)

lemma map_ok_reverse [map_wf]: "map_ok (reverse g)"
  by (simp add: reverse_edge_list map_ok_fold_push_edge)

lemma neighbors_fold_push_edge:
  "neighbors_or_empty (fold (\<lambda>(n, t, l). push_edge t (n, l)) es acc) x =
     neighbors_or_empty acc x @ map (\<lambda>(n, t, l). (n, l)) (filter (\<lambda>(n, t, l). t = x) es)"
  by (induction es arbitrary: acc) (auto simp: neighbors_push_edge)

lemma neighbors_reverse:
  "neighbors_or_empty (reverse g) x =
     map (\<lambda>(n, t, l). (n, l)) (filter (\<lambda>(n, t, l). t = x) (edge_list g))"
  by (simp add: reverse_edge_list neighbors_fold_push_edge)

lemma count_reversed_edges:
  assumes "map_ok g"
  shows "count (mset (map (\<lambda>(n, t, l). (n, l)) (filter (\<lambda>(n, t, l). t = v) (edge_list g)))) (u, l) =
    count (mset (neighbors_or_empty g u)) (v, l)"
  using assms
proof (induction g)
  case (Cons p g)
  obtain n es where p: "p = (n, es)" by (cases p)
  with Cons.prems have g: "map_ok g" and n: "n \<notin> keys g"
    by (auto simp: map_ok_Cons)
  have "count (mset (map (\<lambda>(n, t, l). (n, l)) (filter (\<lambda>(n, t, l). t = v)
        (map (\<lambda>(t, l). (n, t, l)) es)))) (u, l) = (if n = u then count (mset es) (v, l) else 0)"
    by (induction es) auto
  then show ?case
    using Cons.IH [OF g] neighbors_notin_keys [OF n]
    by (auto simp: p edge_list_Cons) (auto simp: neighbors_or_empty_def)
qed simp

section \<open>Restriction\<close>

definition subgraph :: "'n::linorder edge_holder \<Rightarrow> ('n \<Rightarrow> bool) \<Rightarrow> 'n edge_holder" where
  "subgraph graph P =
     fold (\<lambda>(n, es) next. if P n then map_put n (filter (\<lambda>e. P (fst e)) es) next else next)
       graph []"

lemma subgraph_filter:
  assumes "map_ok g"
  shows "subgraph g P = map_values (\<lambda>_. filter (\<lambda>e. P (fst e))) (filter (\<lambda>(n, es). P n) g)"
proof -
  have put_last: "map_put n v m = m @ [(n, v)]" if "\<forall>k \<in> keys m. k < n"
    for n :: 'a and v :: "'a edge list" and m
    using that by (induction m) auto
  have "fold (\<lambda>(n, es) next. if P n then map_put n (filter (\<lambda>e. P (fst e)) es) next else next) g acc
      = acc @ map_values (\<lambda>_. filter (\<lambda>e. P (fst e))) (filter (\<lambda>(n, es). P n) g)"
    if "map_ok g" and "\<forall>k \<in> keys acc. \<forall>k' \<in> keys g. k < k'" for acc
    using that
  proof (induction g arbitrary: acc)
    case (Cons p g)
    obtain n es where p: "p = (n, es)" by (cases p)
    from Cons.prems have g: "map_ok g" "\<forall>k' \<in> keys g. n < k'"
      and acc: "\<forall>k \<in> keys acc. k < n" "\<forall>k \<in> keys acc. \<forall>k' \<in> keys g. k < k'"
      by (auto simp: p map_ok_Cons)
    show ?case
      using g acc by (auto simp: p put_last map_values_def Cons.IH)
  qed (simp add: map_values_def)
  from this [of "[]"] assms show ?thesis
    by (simp add: subgraph_def)
qed

lemma map_ok_subgraph [map_wf]: "map_ok g \<Longrightarrow> map_ok (subgraph g P)"
  by (simp add: subgraph_filter map_wf)

lemma keys_subgraph [map_keys]: "map_ok g \<Longrightarrow> keys (subgraph g P) = {n \<in> keys g. P n}"
  by (force simp: subgraph_filter map_keys)

lemma map_of_filter_key:
  "map_of (filter (\<lambda>(k, v). P k) m) x = (if P x then map_of m x else None)"
  by (induction m) auto

lemma neighbors_subgraph:
  assumes "map_ok g"
  shows "neighbors_or_empty (subgraph g P) n =
     (if P n then filter (\<lambda>e. P (fst e)) (neighbors_or_empty g n) else [])"
  by (simp add: subgraph_filter [OF assms] neighbors_or_empty_def map_lookup map_of_filter_key
      split: option.split)

section \<open>Start nodes and terminals\<close>

text \<open>
  \<open>find_start_nodes\<close> sweeps the map once with two sets: the candidate start nodes and the
  nodes already seen as a target.
\<close>

definition find_start_nodes_step ::
  "'n \<times> 'n edge list \<Rightarrow> 'n set \<times> 'n set \<Rightarrow> 'n set \<times> 'n set" where
  "find_start_nodes_step p st =
     (let (encountered, with_neighs) = st;
          encountered = (if fst p \<in> with_neighs then encountered else insert (fst p) encountered)
      in fold (\<lambda>target (enc, wn). (enc - {fst target}, insert (fst target) wn)) (snd p)
           (encountered, with_neighs))"

definition find_start_nodes :: "'n edge_holder \<Rightarrow> 'n set" where
  "find_start_nodes graph = fst (fold find_start_nodes_step graph ({}, {}))"

text \<open>\<open>*encountered.begin()\<close>: the least start node; undefined when there is none.\<close>

definition find_start_node :: "'n::linorder edge_holder \<Rightarrow> cxx_error + 'n" where
  "find_start_node graph =
     (let encountered = find_start_nodes graph in
      if encountered = {} then Inl UndefinedBehaviour else Inr (Min encountered))"

definition terminals_step ::
  "'n edge_holder \<Rightarrow> 'n \<times> 'n edge list \<Rightarrow> 'n set \<Rightarrow> 'n set" where
  "terminals_step holder p end =
     fold (\<lambda>x end. if map_of holder (fst x) = None then insert (fst x) end else end) (snd p)
       (if snd p = [] then insert (fst p) end else end)"

definition terminals :: "'n edge_holder \<Rightarrow> 'n set" where
  "terminals holder = fold (terminals_step holder) holder {}"

definition targets :: "'n edge_holder \<Rightarrow> 'n set" where
  "targets g = {v. \<exists>u l. (u, v, l) \<in> set (edge_list g)}"

lemma targets_Cons: "targets ((n, es) # g) = fst ` set es \<union> targets g"
  by (force simp: targets_def edge_list_Cons)

lemma targets_Nil [simp]: "targets [] = {}"
  by (simp add: targets_def)

lemma find_start_nodes_inner:
  "fold (\<lambda>target (enc, wn). (enc - {fst target}, insert (fst target) wn)) es (enc, wn) =
     (enc - fst ` set es, wn \<union> fst ` set es)"
  by (induction es arbitrary: enc wn) auto

lemma find_start_nodes_fold:
  "fold find_start_nodes_step g (enc, wn) =
     ((enc \<union> (keys g - wn)) - targets g, wn \<union> targets g)"
proof (induction g arbitrary: enc wn)
  case (Cons p g)
  obtain n es where p: "p = (n, es)" by (cases p)
  have "find_start_nodes_step p (enc, wn) =
      ((enc \<union> ({n} - wn)) - fst ` set es, wn \<union> fst ` set es)"
    by (auto simp: p find_start_nodes_step_def find_start_nodes_inner)
  then show ?case
    by (auto simp: p Cons.IH targets_Cons)
qed simp

lemma find_start_nodes_eq: "find_start_nodes g = keys g - targets g"
  by (simp add: find_start_nodes_def find_start_nodes_fold)

lemma finite_find_start_nodes: "finite (find_start_nodes g)"
  by (simp add: find_start_nodes_eq)

lemma terminals_step_eq:
  "terminals_step holder (n, es) end =
     end \<union> (if es = [] then {n} else {}) \<union> (fst ` set es - keys holder)"
proof -
  have "fold (\<lambda>x end. if map_of holder (fst x) = None then insert (fst x) end else end) xs a
      = a \<union> (fst ` set xs - keys holder)" for xs :: "'a edge list" and a
    by (induction xs arbitrary: a) (auto simp: map_of_eq_None_iff)
  then show ?thesis
    by (simp add: terminals_step_def)
qed

lemma terminals_fold:
  "fold (terminals_step holder) g acc =
     acc \<union> {n. (n, []) \<in> set g} \<union> (targets g - keys holder)"
  by (induction g arbitrary: acc) (auto simp: terminals_step_eq targets_Cons split: if_splits)

lemma terminals_eq: "terminals g = {n. (n, []) \<in> set g} \<union> (targets g - keys g)"
  by (simp add: terminals_def terminals_fold)

lemma targets_edge_rel: "map_ok g \<Longrightarrow> targets g = Range (edge_rel g)"
  by (force simp: targets_def edge_rel_def edge_list_neighbors)

text \<open>The nodes of a graph: its keys and the targets of its edges.\<close>

definition nodes_of :: "'n edge_holder \<Rightarrow> 'n set" where
  "nodes_of g = keys g \<union> targets g"

lemma terminals_neighbors:
  assumes "map_ok g"
  shows "terminals g = {n \<in> nodes_of g. neighbors_or_empty g n = []}"
proof -
  have "(n, []) \<in> set g \<longleftrightarrow> n \<in> keys g \<and> neighbors_or_empty g n = []" for n
    using assms
    by (force simp: map_ok_entry neighbors_or_empty_def split: option.split
        dest: map_of_Some_keys keys_map_of)
  moreover have "n \<notin> keys g \<Longrightarrow> neighbors_or_empty g n = []" for n
    by (rule neighbors_notin_keys)
  ultimately show ?thesis
    by (auto simp: terminals_eq nodes_of_def)
qed

section \<open>Merging\<close>

text \<open>\<open>CFG::add\<close>: the edges of another graph are appended node by node.\<close>

definition CFG_add :: "'n::linorder edge_holder \<Rightarrow> 'n edge_holder \<Rightarrow> 'n edge_holder" where
  "CFG_add other holder = fold (\<lambda>(n, es). map_modify [] n (\<lambda>crt. crt @ es)) other holder"

lemma neighbors_map_modify:
  "neighbors_or_empty (map_modify [] n f g) x =
     (if x = n then f (neighbors_or_empty g n) else neighbors_or_empty g x)"
  by (auto simp: neighbors_or_empty_def map_lookup split: option.split)

lemma neighbors_CFG_add:
  "map_ok other \<Longrightarrow>
   neighbors_or_empty (CFG_add other g) x = neighbors_or_empty g x @ neighbors_or_empty other x"
proof (induction other arbitrary: g)
  case (Cons p other)
  obtain n es where p: "p = (n, es)" by (cases p)
  with Cons.prems have "map_ok other" and n: "n \<notin> keys other"
    by (auto simp: map_ok_Cons)
  then have "neighbors_or_empty (CFG_add (p # other) g) x =
      neighbors_or_empty (map_modify [] n (\<lambda>crt. crt @ es) g) x @ neighbors_or_empty other x"
    using Cons.IH by (simp add: CFG_add_def p)
  also have "\<dots> = neighbors_or_empty g x @ neighbors_or_empty (p # other) x"
    using neighbors_notin_keys [OF n] by (auto simp: p neighbors_map_modify)
      (auto simp: neighbors_or_empty_def)
  finally show ?case .
qed (simp add: CFG_add_def)

lemma map_ok_CFG_add [map_wf]: "map_ok g \<Longrightarrow> map_ok (CFG_add other g)"
  unfolding CFG_add_def by (induction other arbitrary: g) (auto simp: map_wf)

lemma keys_CFG_add [map_keys]: "keys (CFG_add other g) = keys g \<union> keys other"
  unfolding CFG_add_def
  by (induction other arbitrary: g) (simp_all add: map_keys case_prod_beta)

section \<open>Properties\<close>

definition diamond :: "nat edge_holder" where
  "diamond = [(1, [(2, 1), (3, 0)]), (2, [(4, 0)]), (3, [(4, 0)]), (4, [])]"

lemma map_ok_diamond: "map_ok diamond"
  by (simp add: map_ok_def diamond_def)

lemma edge_rel_diamond: "edge_rel diamond = {(1, 2), (1, 3), (2, 4), (3, 4)}"
  by (force simp: edge_rel_def diamond_def neighbors_or_empty_def split: if_splits)

lemma acyclic_diamond: "acyclic (edge_rel diamond)"
  by (rule acyclic_decreasing [of _ "\<lambda>n. 4 - n"]) (auto simp: edge_rel_diamond)

text \<open>
  C27: \<open>reverse\<close> turns every edge around and keeps its label, with multiplicity, without
  inventing or losing edges, and its result is a well-formed map.
\<close>

theorem reverse_edges:
  assumes "map_ok g"
  shows "map_ok (reverse g) \<and>
    count (mset (neighbors_or_empty (reverse g) v)) (u, l) =
    count (mset (neighbors_or_empty g u)) (v, l)"
  using count_reversed_edges [OF assms] by (simp add: map_ok_reverse neighbors_reverse)

theorem reverse_edges_witness:
  "map_ok diamond \<and> count (mset (neighbors_or_empty (reverse diamond) 2)) (1, 1) = 1"
  using reverse_edges [OF map_ok_diamond, of 2 1 1] map_ok_diamond
  by (simp add: diamond_def neighbors_or_empty_def)

text \<open>
  C28: \<open>find_start_nodes\<close> returns exactly the keys of the graph that are the target of no edge,
  whatever the order of the keys; \<open>find_start_node\<close> returns the least of them, and dereferences
  the end iterator exactly when every key has an incoming edge (so on every graph whose nodes
  all lie on cycles, and on the empty graph).
\<close>

theorem find_start_nodes_exact:
  "find_start_nodes g = {n \<in> keys g. \<forall>u l. (u, n, l) \<notin> set (edge_list g)} \<and>
   (find_start_node g = Inl UndefinedBehaviour \<longleftrightarrow>
      (\<forall>n. n \<in> keys g \<longrightarrow> (\<exists>u l. (u, n, l) \<in> set (edge_list g)))) \<and>
   (find_start_node g = Inr s \<longleftrightarrow>
      s \<in> find_start_nodes g \<and> (\<forall>s' \<in> find_start_nodes g. s \<le> s'))"
proof -
  have eq: "find_start_nodes g = {n \<in> keys g. \<forall>u l. (u, n, l) \<notin> set (edge_list g)}"
    by (auto simp: find_start_nodes_eq targets_def)
  moreover have "find_start_node g = Inr s \<longleftrightarrow>
      s \<in> find_start_nodes g \<and> (\<forall>s' \<in> find_start_nodes g. s \<le> s')"
    by (auto simp: find_start_node_def Let_def finite_find_start_nodes intro: Min_eqI Min_in)
  ultimately show ?thesis
    by (auto simp: find_start_node_def Let_def)
qed

theorem find_start_nodes_exact_witness:
  "find_start_nodes diamond = {1} \<and> find_start_node diamond = Inr 1"
proof -
  have "find_start_nodes diamond = {1}"
    unfolding find_start_nodes_exact [THEN conjunct1]
    by (auto simp: diamond_def edge_list_def)
  moreover from this have "find_start_node diamond = Inr 1"
    using find_start_nodes_exact [of diamond 1] by simp
  ultimately show ?thesis by simp
qed

text \<open>
  On a well-formed graph \<open>terminals\<close> returns exactly the nodes, keys or targets, that have
  no outgoing edge.
\<close>

lemma terminals_exact:
  "map_ok g \<Longrightarrow> terminals g = {n \<in> keys g \<union> targets g. neighbors_empty g n}"
  by (simp add: terminals_neighbors nodes_of_def neighbors_empty_eq)

lemma terminals_exact_witness: "map_ok diamond \<and> terminals diamond = {4}"
proof -
  have "terminals diamond = {n \<in> keys diamond \<union> targets diamond. neighbors_empty diamond n}"
    by (rule terminals_exact [OF map_ok_diamond])
  also have "\<dots> = {4}"
    by (auto simp: diamond_def targets_def edge_list_def neighbors_empty_eq neighbors_or_empty_def)
  finally show ?thesis
    using map_ok_diamond by simp
qed

end
