(* ===== verification/Cfg_Traverse.thy ===== *)
theory Cfg_Traverse
  imports Cfg_Graph
begin

text \<open>
  The depth-first traversals of \<open>backends/analysis/cfg_algos.h\<close> with an explicit stack, and what
  is built on them: \<open>removeDeadNodes\<close>, \<open>findEndNodes\<close> and the bounded breadth-first
  \<open>take_starting_from\<close>. The callbacks of the traversals capture variables by reference; here they
  transform a state of type \<open>'s\<close>.

  The \<open>std::vector\<close> used as a stack is a list with its back at the head, so pushing the
  neighbours one by one puts them on the stack in reverse.
\<close>

section \<open>The traversals\<close>


text \<open>
  Each round of a traversal marks a new key of the graph, or takes a node off the stack
  without pushing any.
\<close>

definition df_rel :: "(('n \<times> 'v) list \<times> 'n list \<times> 'n set) rel" where
  "df_rel = inv_image (finite_psubset <*lex*> measure length)
     (\<lambda>(graph, stack, visited). (keys graph - visited, stack))"

lemma wf_df_rel: "wf df_rel"
  by (simp add: df_rel_def wf_finite_psubset wf_lex_prod)

lemma df_rel_pop: "((g, stack, visited), (g, n # stack, visited)) \<in> df_rel"
  by (simp add: df_rel_def)

lemma df_rel_visit:
  assumes "n \<notin> visited" and "n \<notin> keys g \<Longrightarrow> stack' = stack"
  shows "((g, stack', insert n visited), (g, n # stack, visited)) \<in> df_rel"
proof (cases "n \<in> keys g")
  case True
  with assms(1) have "keys g - insert n visited \<subset> keys g - visited" by auto
  then show ?thesis by (simp add: df_rel_def finite_psubset_def)
next
  case False
  with assms(2) have "keys g - insert n visited = keys g - visited" and "stack' = stack" by auto
  then show ?thesis by (simp add: df_rel_def)
qed



function traverse_loop ::
  "'n edge_holder \<Rightarrow> ('n \<Rightarrow> 's \<Rightarrow> 's) \<Rightarrow> ('n \<Rightarrow> 'n edge \<Rightarrow> 's \<Rightarrow> 's) \<Rightarrow>
   'n list \<Rightarrow> 'n set \<Rightarrow> 's \<Rightarrow> 's" where
  "traverse_loop graph pn p [] visited s = s"
| "traverse_loop graph pn p (n # stack) visited s =
     (if n \<in> visited then traverse_loop graph pn p stack visited s
      else
        traverse_loop graph pn p (rev (succs graph n) @ stack) (insert n visited)
          (fold (p n) (neighbors_or_empty graph n) (pn n s)))"
  by pat_completeness auto
termination
  by (relation "inv_image df_rel (\<lambda>(graph, pn, p, stack, visited, s). (graph, stack, visited))")
    (auto simp: wf_df_rel df_rel_pop neighbors_notin_keys intro!: df_rel_visit)

definition traverse_df ::
  "'n edge_holder \<Rightarrow> 'n \<Rightarrow> ('n \<Rightarrow> 's \<Rightarrow> 's) \<Rightarrow> ('n \<Rightarrow> 'n edge \<Rightarrow> 's \<Rightarrow> 's) \<Rightarrow> 's \<Rightarrow> 's" where
  "traverse_df graph start_node pn p s = traverse_loop graph pn p [start_node] {} s"

definition traverse_df_pernode :: "'n edge_holder \<Rightarrow> 'n \<Rightarrow> ('n \<Rightarrow> 's \<Rightarrow> 's) \<Rightarrow> 's \<Rightarrow> 's" where
  "traverse_df_pernode graph start_node p s = traverse_df graph start_node p (\<lambda>_ _ s. s) s"

definition traverse_df_edges ::
  "'n edge_holder \<Rightarrow> 'n \<Rightarrow> ('n \<Rightarrow> 'n edge \<Rightarrow> 's \<Rightarrow> 's) \<Rightarrow> 's \<Rightarrow> 's" where
  "traverse_df_edges graph start_node p s = traverse_df graph start_node (\<lambda>_ s. s) p s"

section \<open>The visit order\<close>

text \<open>
  The specification of a traversal: the nodes in the order in which they are processed, when
  the edges \<open>sel\<close> selects are followed.
\<close>

function visit_order ::
  "'n edge_holder \<Rightarrow> ('n \<Rightarrow> 'n edge \<Rightarrow> bool) \<Rightarrow> 'n list \<Rightarrow> 'n set \<Rightarrow> 'n list" where
  "visit_order g sel [] visited = []"
| "visit_order g sel (n # stack) visited =
     (if n \<in> visited then visit_order g sel stack visited
      else n # visit_order g sel
             (rev (map fst (filter (sel n) (neighbors_or_empty g n))) @ stack) (insert n visited))"
  by pat_completeness auto
termination
  by (relation "inv_image df_rel (\<lambda>(g, sel, stack, visited). (g, stack, visited))")
    (auto simp: wf_df_rel df_rel_pop neighbors_notin_keys intro!: df_rel_visit)

text \<open>The visit order from a single start node.\<close>

definition visits_from :: "'n edge_holder \<Rightarrow> ('n \<Rightarrow> 'n edge \<Rightarrow> bool) \<Rightarrow> 'n \<Rightarrow> 'n list" where
  "visits_from g sel s = visit_order g sel [s] {}"

lemma visit_order_distinct:
  "distinct (visit_order g sel stack visited) \<and> set (visit_order g sel stack visited) \<inter> visited = {}"
  by (induction g sel stack visited rule: visit_order.induct) auto

text \<open>The relation of the followed edges.\<close>

definition sel_rel :: "'n edge_holder \<Rightarrow> ('n \<Rightarrow> 'n edge \<Rightarrow> bool) \<Rightarrow> ('n \<times> 'n) set" where
  "sel_rel g sel = {(u, v). \<exists>e \<in> set (neighbors_or_empty g u). sel u e \<and> v = fst e}"

lemma sel_rel_True: "sel_rel g (\<lambda>_ _. True) = edge_rel g"
  by (force simp: sel_rel_def edge_rel_def)

lemma sel_rel_pushed:
  "v \<in> set (rev (map fst (filter (sel n) (neighbors_or_empty g n)))) \<longleftrightarrow> (n, v) \<in> sel_rel g sel"
  by (auto simp: sel_rel_def)

lemma visit_order_stack:
  "set stack \<subseteq> visited \<union> set (visit_order g sel stack visited)"
  by (induction g sel stack visited rule: visit_order.induct) auto

lemma visit_order_closed:
  assumes "\<And>u v. u \<in> visited \<Longrightarrow> (u, v) \<in> sel_rel g sel \<Longrightarrow> v \<in> visited \<union> set stack"
    and "u \<in> visited \<union> set (visit_order g sel stack visited)" and "(u, v) \<in> sel_rel g sel"
  shows "v \<in> visited \<union> set (visit_order g sel stack visited)"
  using assms
proof (induction g sel stack visited arbitrary: u v rule: visit_order.induct)
  case (2 g sel n stack visited)
  show ?case
  proof (cases "n \<in> visited")
    case True
    with 2 show ?thesis by (simp, blast)
  next
    case False
    let ?stack = "rev (map fst (filter (sel n) (neighbors_or_empty g n))) @ stack"
    have "v \<in> insert n visited \<union> set ?stack" if "u \<in> insert n visited" "(u, v) \<in> sel_rel g sel" for u v
      using that 2(3) sel_rel_pushed [of v sel n g] by auto
    then have "v \<in> insert n visited \<union> set (visit_order g sel ?stack (insert n visited))"
      using 2(2) [OF False] 2(4,5) False by simp
    with False show ?thesis by simp
  qed
qed auto

lemma visit_order_sound:
  "x \<in> set (visit_order g sel stack visited) \<Longrightarrow> \<exists>s \<in> set stack. (s, x) \<in> (sel_rel g sel)\<^sup>*"
proof (induction g sel stack visited arbitrary: x rule: visit_order.induct)
  case (2 g sel n stack visited)
  show ?case
  proof (cases "n \<in> visited \<or> x = n")
    case True
    with 2 show ?thesis by (auto split: if_splits)
  next
    case False
    let ?stack = "rev (map fst (filter (sel n) (neighbors_or_empty g n))) @ stack"
    from False 2(3) have "x \<in> set (visit_order g sel ?stack (insert n visited))"
      by simp
    with 2(2) False obtain s where s: "(s, x) \<in> (sel_rel g sel)\<^sup>*" "s \<in> set ?stack"
      by blast
    then show ?thesis
      using sel_rel_pushed [of s sel n g] by (auto intro: converse_rtrancl_into_rtrancl)
  qed
qed simp

lemma distinct_visits_from: "distinct (visits_from g sel s)"
  unfolding visits_from_def by (rule visit_order_distinct [THEN conjunct1])

lemma set_visits_from: "set (visits_from g sel s) = {n. (s, n) \<in> (sel_rel g sel)\<^sup>*}"
  unfolding visits_from_def
proof -
  have "s \<in> set (visit_order g sel [s] {})"
    using visit_order_stack [of "[s]" "{}"] by auto
  moreover have "v \<in> set (visit_order g sel [s] {})"
    if "u \<in> set (visit_order g sel [s] {})" and "(u, v) \<in> sel_rel g sel" for u v
    using visit_order_closed [of "{}" g sel "[s]" u v] that by simp
  ultimately have "n \<in> set (visit_order g sel [s] {})" if "(s, n) \<in> (sel_rel g sel)\<^sup>*" for n
    using that by (blast intro: rtrancl_closed [of s n])
  then show "set (visit_order g sel [s] {}) = {n. (s, n) \<in> (sel_rel g sel)\<^sup>*}"
    using visit_order_sound [of _ g sel "[s]" "{}"] by auto
qed

text \<open>Every traversal is a fold over its visit order.\<close>

lemma traverse_loop_fold:
  "traverse_loop g pn p stack visited s =
     fold (\<lambda>n s. fold (p n) (neighbors_or_empty g n) (pn n s))
       (visit_order g (\<lambda>_ _. True) stack visited) s"
  by (induction g pn p stack visited s rule: traverse_loop.induct) auto



lemma traverse_df_fold:
  "traverse_df g st pn p s =
     fold (\<lambda>n s. fold (p n) (neighbors_or_empty g n) (pn n s))
       (visits_from g (\<lambda>_ _. True) st) s"
  by (simp only: traverse_df_def traverse_loop_fold visits_from_def)


lemma set_visits_from_all: "set (visits_from g (\<lambda>_ _. True) s) = reachable_from g s"
  by (simp add: set_visits_from sel_rel_True reachable_from_def)

lemma fold_ignore: "fold (\<lambda>_ s. s) xs s = s"
  by (induction xs) auto

lemma traverse_df_pernode_fold:
  "traverse_df_pernode g st p s = fold p (visits_from g (\<lambda>_ _. True) st) s"
  by (simp add: traverse_df_pernode_def traverse_df_fold fold_ignore)

lemma fold_collect: "fold (\<lambda>n A. if P n then insert n A else A) xs A = A \<union> {n \<in> set xs. P n}"
  by (induction xs arbitrary: A) auto

section \<open>removeDeadNodes and findEndNodes\<close>

definition removeDeadNodes ::
  "'n::linorder edge_holder \<Rightarrow> 'n \<Rightarrow> ('n \<Rightarrow> bool) \<Rightarrow> 'n edge_holder" where
  "removeDeadNodes holder start d =
     (let found = traverse_df_pernode holder start
                    (\<lambda>n found. if \<not> d n then insert n found else found) {}
      in subgraph holder (\<lambda>n. n \<in> found))"

definition findEndNodes :: "'n edge_holder \<Rightarrow> 'n \<Rightarrow> 'n set" where
  "findEndNodes holder start =
     traverse_df_pernode holder start
       (\<lambda>n end. case map_of holder n of
           Some es \<Rightarrow> if es = [] then insert n end else end
         | None \<Rightarrow> insert n end) {}"

lemma findEndNodes_eq: "findEndNodes g s = {n \<in> reachable_from g s. neighbors_or_empty g n = []}"
proof -
  have "(\<lambda>n end. case map_of g n of Some es \<Rightarrow> if es = [] then insert n end else end
           | None \<Rightarrow> insert n end) =
        (\<lambda>n end. if neighbors_or_empty g n = [] then insert n end else end)"
    by (intro ext) (simp add: neighbors_or_empty_def split: option.split)
  then show ?thesis
    by (auto simp: findEndNodes_def traverse_df_pernode_fold fold_collect set_visits_from_all)
qed

lemma removeDeadNodes_subgraph:
  "removeDeadNodes g s d = subgraph g (\<lambda>n. n \<in> reachable_from g s \<and> \<not> d n)"
  by (simp add: removeDeadNodes_def traverse_df_pernode_fold fold_collect set_visits_from_all)

lemma neighbors_removeDeadNodes:
  assumes "map_ok g" and "n \<in> reachable_from g s"
  shows "neighbors_or_empty (removeDeadNodes g s d) n =
    (if d n then [] else filter (\<lambda>e. \<not> d (fst e)) (neighbors_or_empty g n))"
proof -
  have "fst e \<in> reachable_from g s" if "e \<in> set (neighbors_or_empty g n)" for e
    using assms(2) that by (cases e) (auto intro: reachable_from_step)
  then show ?thesis
    using assms by (auto simp: removeDeadNodes_subgraph neighbors_subgraph cong: filter_cong)
qed

section \<open>take_starting_from\<close>










lemma edge_rel_targets: "(u, v) \<in> edge_rel g \<Longrightarrow> v \<in> targets g"
  by (auto simp: edge_rel_def targets_def set_edge_list neighbors_or_empty_def
      split: option.splits dest!: sym [of "Some _"] map_of_SomeD) blast

lemma reachable_from_targets: "n \<in> reachable_from g s \<Longrightarrow> n = s \<or> n \<in> targets g"
  unfolding reachable_from_def mem_Collect_eq by (erule rtranclE) (auto dest: edge_rel_targets)











section \<open>Properties\<close>

text \<open>
  C19: \<open>traverse_df\<close> processes every node reachable from the start exactly once, in some order,
  and for each of them calls the edge callback on every outgoing edge, in order, right after the
  node callback; it calls nothing else. With callbacks that do anything to the captured state,
  the result is the fold over that order, so the traversal terminates and depends on nothing else.
\<close>

theorem traverse_df_visits:
  "\<exists>order. distinct order \<and> set order = reachable_from g start_node \<and>
     (\<forall>(pn :: 'n \<Rightarrow> 's \<Rightarrow> 's) p s.
        traverse_df g start_node pn p s =
          fold (\<lambda>n s. fold (p n) (neighbors_or_empty g n) (pn n s)) order s)"
  using traverse_df_fold set_visits_from_all distinct_visits_from by metis


text \<open>
  C16: \<open>removeDeadNodes\<close> keeps a well-formed graph: its keys are the reachable keys that are not
  dead, and a kept node keeps, in order, exactly its edges to nodes that are not dead. With no
  dead predicate, reachability from the start and the edges of every reachable node are unchanged.
\<close>

theorem removeDeadNodes_exact:
  assumes "map_ok g"
  shows "map_ok (removeDeadNodes g s d) \<and>
    keys (removeDeadNodes g s d) = {n \<in> keys g. n \<in> reachable_from g s \<and> \<not> d n} \<and>
    (\<forall>n \<in> reachable_from g s. \<not> d n \<longrightarrow>
       neighbors_or_empty (removeDeadNodes g s d) n =
         filter (\<lambda>e. \<not> d (fst e)) (neighbors_or_empty g n)) \<and>
    reachable_from (removeDeadNodes g s (\<lambda>_. False)) s = reachable_from g s"
proof -
  let ?h = "removeDeadNodes g s (\<lambda>_. False)"
  have same: "(u, v) \<in> edge_rel ?h \<longleftrightarrow> (u, v) \<in> edge_rel g" if "u \<in> reachable_from g s" for u v
    using neighbors_removeDeadNodes [OF assms that, of "\<lambda>_. False"] by (simp add: edge_rel_succs)
  have "n \<in> reachable_from ?h s \<and> n \<in> reachable_from g s" if "n \<in> reachable_from g s" for n
    using that unfolding reachable_from_def mem_Collect_eq
    by (induction rule: rtrancl_induct)
      (auto simp: same reachable_from_def intro: rtrancl_into_rtrancl)
  moreover have "n \<in> reachable_from g s" if "n \<in> reachable_from ?h s" for n
    using that unfolding reachable_from_def mem_Collect_eq
    by (induction rule: rtrancl_induct)
      (auto simp: same reachable_from_def intro: rtrancl_into_rtrancl)
  ultimately have "reachable_from ?h s = reachable_from g s"
    by blast
  moreover have "map_ok (removeDeadNodes g s d)"
    and "keys (removeDeadNodes g s d) = {n \<in> keys g. n \<in> reachable_from g s \<and> \<not> d n}"
    using assms by (auto simp: removeDeadNodes_subgraph map_wf keys_subgraph)
  ultimately show ?thesis
    using neighbors_removeDeadNodes [OF assms] by simp
qed

theorem removeDeadNodes_exact_witness:
  "map_ok diamond \<and> 2 \<in> reachable_from diamond 2 \<and>
   neighbors_or_empty (removeDeadNodes diamond 2 (\<lambda>_. False)) 2 = [(4, 0)]"
proof -
  have "neighbors_or_empty (removeDeadNodes diamond 2 (\<lambda>_. False)) 2 =
      filter (\<lambda>e. True) (neighbors_or_empty diamond 2)"
    using removeDeadNodes_exact [OF map_ok_diamond, of 2 "\<lambda>_. False"] by simp
  then show ?thesis
    using map_ok_diamond by (simp add: diamond_def neighbors_or_empty_def)
qed

text \<open>
  \<open>findEndNodes\<close> returns exactly the nodes reachable from the start that have no outgoing
  edge; on a well-formed graph that contains the start these are the reachable terminals.
\<close>

lemma findEndNodes_exact:
  "findEndNodes g s = {n \<in> reachable_from g s. neighbors_empty g n} \<and>
   (map_ok g \<and> s \<in> keys g \<union> targets g \<longrightarrow> findEndNodes g s = terminals g \<inter> reachable_from g s)"
proof -
  have "n \<in> nodes_of g" if "s \<in> nodes_of g" "n \<in> reachable_from g s" for n
    using that reachable_from_targets [of n g s] by (auto simp: nodes_of_def)
  then show ?thesis
    by (auto simp: findEndNodes_eq neighbors_empty_eq terminals_neighbors nodes_of_def)
qed

lemma findEndNodes_exact_witness:
  "map_ok diamond \<and> 1 \<in> keys diamond \<union> targets diamond \<and>
   findEndNodes diamond 1 = terminals diamond \<inter> reachable_from diamond 1"
proof -
  have "1 \<in> keys diamond"
    by (simp add: diamond_def)
  then show ?thesis
    using findEndNodes_exact [of diamond 1] map_ok_diamond by blast
qed



end
