(* ===== verification/Cfg_Topo.thy ===== *)
theory Cfg_Topo
  imports Cfg_Graph
begin

text \<open>
  The recursive depth-first walks of \<open>backends/analysis/cfg_algos.cpp\<close>: \<open>topo_sort_util\<close> with
  \<open>topo_sort\<close>, and the annotated walk \<open>classify\<close> with \<open>find_back_edges\<close>.

  Both are the same recursion over a set of visited nodes: mark the node, visit each unmarked
  successor in order, finish the node. \<open>dfs_list\<close> is the loop over the successors, with what is
  done on entering (\<open>pre\<close>) and on leaving (\<open>post\<close>) a node as parameters; the lemmas
  \<open>topo_sort_util_unfold\<close> and \<open>classify_rec_unfold\<close> give back the recursive functions as the
  source has them.
\<close>

section \<open>The recursion\<close>

function dfs_list ::
  "'n edge_holder \<Rightarrow> ('n \<Rightarrow> 's \<Rightarrow> 's) \<Rightarrow> ('n \<Rightarrow> 's \<Rightarrow> 's) \<Rightarrow> 'n list \<Rightarrow> 'n set \<Rightarrow> 's \<Rightarrow> 'n set \<times> 's" where
  "dfs_list g pre post [] visited s = (visited, s)"
| "dfs_list g pre post (n # ns) visited s =
     (if n \<in> visited then dfs_list g pre post ns visited s
      else
        case dfs_list g pre post (succs g n) (insert n visited) (pre n s) of
          (visited', s') \<Rightarrow> dfs_list g pre post ns visited' (post n s'))"
  by pat_completeness auto

lemma dfs_list_visited_dom:
  "dfs_list_dom (g, pre, post, ns, visited, s) \<Longrightarrow>
   visited \<subseteq> fst (dfs_list g pre post ns visited s)"
  by (induction g pre post ns visited s rule: dfs_list.pinduct)
    (auto simp: dfs_list.psimps split: prod.splits, force+)

text \<open>Entering a node marks a key of the graph, or has no successors to visit.\<close>

definition dfs_rel :: "('n edge_holder \<times> 'n list \<times> 'n set) rel" where
  "dfs_rel = inv_image (finite_psubset <*lex*> measure length)
     (\<lambda>(g, ns, visited). (keys g - visited, ns))"

lemma wf_dfs_rel: "wf dfs_rel"
  by (simp add: dfs_rel_def wf_finite_psubset wf_lex_prod)

lemma dfs_rel_tail: "visited \<subseteq> visited' \<Longrightarrow> ((g, ns, visited'), (g, n # ns, visited)) \<in> dfs_rel"
  by (cases "keys g - visited' = keys g - visited") (auto simp: dfs_rel_def finite_psubset_def)

lemma dfs_rel_enter:
  assumes "n \<notin> visited"
  shows "((g, succs g n, insert n visited), (g, n # ns, visited)) \<in> dfs_rel"
proof (cases "n \<in> keys g")
  case True
  with assms have "keys g - insert n visited \<subset> keys g - visited" by auto
  then show ?thesis by (simp add: dfs_rel_def finite_psubset_def)
next
  case False
  then have "keys g - insert n visited = keys g - visited" by auto
  with False show ?thesis by (simp add: dfs_rel_def neighbors_notin_keys)
qed

termination dfs_list
proof (relation "inv_image dfs_rel (\<lambda>(g, pre, post, ns, visited, s). (g, ns, visited))", goal_cases)
  case (4 g pre post n ns visited s visited' s')
  then have "visited \<subseteq> visited'"
    using dfs_list_visited_dom [of g pre post "succs g n" "insert n visited" "pre n s"]
    by (metis fst_conv insert_subset)
  then show ?case by (simp add: dfs_rel_tail)
qed (auto simp: wf_dfs_rel dfs_rel_tail dfs_rel_enter)

section \<open>topo_sort\<close>

definition topo_sort_util ::
  "'n edge_holder \<Rightarrow> 'n \<Rightarrow> 'n set \<times> 'n list \<Rightarrow> 'n set \<times> 'n list" where
  "topo_sort_util fwgraph v st =
     (case dfs_list fwgraph (\<lambda>_ srt. srt) (\<lambda>n srt. srt @ [n])
             (succs fwgraph v) (insert v (fst st)) (snd st) of
        (visited, srt) \<Rightarrow> (visited, srt @ [v]))"

text \<open>The two overloads of \<open>topo_sort\<close>: over the whole graph, and from one node.\<close>

definition topo_sort :: "'n edge_holder \<Rightarrow> 'n list" where
  "topo_sort fwgraph =
     snd (fold (\<lambda>p st. if fst p \<in> fst st then st else topo_sort_util fwgraph (fst p) st)
            fwgraph ({}, []))"

definition topo_sort_from :: "'n edge_holder \<Rightarrow> 'n \<Rightarrow> 'n list" where
  "topo_sort_from fwgraph start = snd (topo_sort_util fwgraph start ({}, []))"

section \<open>classify and find_back_edges\<close>

record 'n dfs_times =
  start_times :: "('n, int) std_map"
  end_times :: "('n, int) std_map"
  clock :: int

definition enter_time :: "'n::linorder \<Rightarrow> 'n dfs_times \<Rightarrow> 'n dfs_times" where
  "enter_time n t = t\<lparr>start_times := map_put n (clock t) (start_times t), clock := clock t + 1\<rparr>"

definition leave_time :: "'n::linorder \<Rightarrow> 'n dfs_times \<Rightarrow> 'n dfs_times" where
  "leave_time n t = t\<lparr>end_times := map_put n (clock t) (end_times t), clock := clock t + 1\<rparr>"

definition classify_rec ::
  "'n::linorder edge_holder \<Rightarrow> 'n \<Rightarrow> 'n set \<times> 'n dfs_times \<Rightarrow> 'n set \<times> 'n dfs_times" where
  "classify_rec graph start st =
     (case dfs_list graph enter_time leave_time (succs graph start) (insert start (fst st))
             (enter_time start (snd st)) of
        (visited, t) \<Rightarrow> (visited, leave_time start t))"

definition classify ::
  "'n::linorder edge_holder \<Rightarrow> 'n \<Rightarrow> ('n, int) std_map \<times> ('n, int) std_map" where
  "classify graph start =
     (let t = snd (classify_rec graph start
                     ({}, \<lparr>start_times = [], end_times = [], clock = 0\<rparr>))
      in (start_times t, end_times t))"

text \<open>Reading a time through \<open>operator[]\<close>: a missing entry reads as 0.\<close>

definition time_of :: "('n, int) std_map \<Rightarrow> 'n \<Rightarrow> int" where
  "time_of m n = (case map_of m n of Some t \<Rightarrow> t | None \<Rightarrow> 0)"

text \<open>The result is the triple of the vectors \<open>back\<close>, \<open>tree\<close> and \<open>cross\<close>.\<close>

definition find_back_edges ::
  "'n::linorder edge_holder \<Rightarrow> 'n \<Rightarrow> 'n AbsEdge list \<times> 'n AbsEdge list \<times> 'n AbsEdge list" where
  "find_back_edges graph start =
     (let (st, en) = classify graph start in
      fold (\<lambda>(u, es). fold (\<lambda>(v, l) (back, tree, cross).
          let e = \<lparr>source = u, dst = v, elabel = l\<rparr> in
          (if time_of st u > time_of st v \<and> time_of en u < time_of en v then back @ [e] else back,
           if time_of st u < time_of st v \<and> time_of en u > time_of en v then tree @ [e] else tree,
           if time_of st u > time_of st v \<and> time_of en u > time_of en v then cross @ [e] else cross))
          es)
        graph ([], [], []))"

section \<open>The event trace of a walk\<close>

text \<open>
  The specification of the recursion: the nodes visited, and the sequence of the moments at
  which the walk enters and leaves a node.
\<close>

datatype 'n event = Enter 'n | Leave 'n

function dfs_events :: "'n edge_holder \<Rightarrow> 'n list \<Rightarrow> 'n set \<Rightarrow> 'n set \<times> 'n event list" where
  "dfs_events g [] visited = (visited, [])"
| "dfs_events g (n # ns) visited =
     (if n \<in> visited then dfs_events g ns visited
      else
        let (visited', t) = dfs_events g (succs g n) (insert n visited);
            (visited'', t') = dfs_events g ns visited'
        in (visited'', Enter n # t @ Leave n # t'))"
  by pat_completeness auto

lemma dfs_events_visited_dom:
  "dfs_events_dom (g, ns, visited) \<Longrightarrow> visited \<subseteq> fst (dfs_events g ns visited)"
  by (induction g ns visited rule: dfs_events.pinduct)
    (auto simp: dfs_events.psimps split: prod.splits, force+)

termination dfs_events
proof (relation dfs_rel, goal_cases)
  case (4 g n ns visited x visited' t)
  then have "visited \<subseteq> visited'"
    using dfs_events_visited_dom [of g "succs g n" "insert n visited"] by (metis fst_conv insert_subset)
  then show ?case by (simp add: dfs_rel_tail)
qed (auto simp: wf_dfs_rel dfs_rel_tail dfs_rel_enter)

fun do_event :: "('n \<Rightarrow> 's \<Rightarrow> 's) \<Rightarrow> ('n \<Rightarrow> 's \<Rightarrow> 's) \<Rightarrow> 'n event \<Rightarrow> 's \<Rightarrow> 's" where
  "do_event pre post (Enter n) s = pre n s"
| "do_event pre post (Leave n) s = post n s"

text \<open>Every walk is a fold over its trace.\<close>

lemma dfs_list_events:
  "dfs_list g pre post ns visited s =
     (fst (dfs_events g ns visited), fold (do_event pre post) (snd (dfs_events g ns visited)) s)"
  by (induction g pre post ns visited s rule: dfs_list.induct) (auto split: prod.splits)

subsection \<open>What is visited\<close>

text \<open>Induction on a walk: no root left, a visited first root, an unvisited one.\<close>

lemma dfs_events_induct [consumes 1, case_names Nil Skip Visit]:
  assumes "dfs_events g ns visited = (V, T)"
    and Nil: "\<And>visited. P [] visited visited []"
    and Skip: "\<And>n ns visited V T. n \<in> visited \<Longrightarrow> dfs_events g ns visited = (V, T) \<Longrightarrow>
      P ns visited V T \<Longrightarrow> P (n # ns) visited V T"
    and Visit: "\<And>n ns visited V1 T1 V2 T2. n \<notin> visited \<Longrightarrow>
      dfs_events g (succs g n) (insert n visited) = (V1, T1) \<Longrightarrow>
      P (succs g n) (insert n visited) V1 T1 \<Longrightarrow>
      dfs_events g ns V1 = (V2, T2) \<Longrightarrow> P ns V1 V2 T2 \<Longrightarrow>
      P (n # ns) visited V2 (Enter n # T1 @ Leave n # T2)"
  shows "P ns visited V T"
  using assms
proof (induction g ns visited arbitrary: V T rule: dfs_events.induct)
  case (1 g visited)
  then show ?case by simp
next
  case (2 g n ns visited)
  show ?case
  proof (cases "n \<in> visited")
    case True
    with 2 show ?thesis by simp
  next
    case False
    obtain V1 T1 where e1: "dfs_events g (succs g n) (insert n visited) = (V1, T1)"
      by fastforce
    obtain V2 T2 where e2: "dfs_events g ns V1 = (V2, T2)"
      by fastforce
    have "P (succs g n) (insert n visited) V1 T1"
      using 2(2) [OF False e1] 2(5-7) by blast
    moreover have "P ns V1 V2 T2"
      using 2(3) [OF False e1 [symmetric] refl e2] 2(5-7) by blast
    ultimately have "P (n # ns) visited V2 (Enter n # T1 @ Leave n # T2)"
      using 2(7) [OF False e1 _ e2] by blast
    with 2(4) False e1 e2 show ?thesis by simp
  qed
qed

subsection \<open>What is visited\<close>

lemma dfs_events_visited: "dfs_events g ns visited = (V, T) \<Longrightarrow> visited \<union> set ns \<subseteq> V"
  by (induction rule: dfs_events_induct) auto

lemma dfs_events_members:
  "dfs_events g ns visited = (V, T) \<Longrightarrow>
   (Enter x \<in> set T \<longleftrightarrow> x \<in> V - visited) \<and> (Leave x \<in> set T \<longleftrightarrow> x \<in> V - visited)"
  by (induction rule: dfs_events_induct) (auto dest!: dfs_events_visited)

lemma dfs_events_distinct: "dfs_events g ns visited = (V, T) \<Longrightarrow> distinct T"
proof (induction rule: dfs_events_induct)
  case (Visit n ns visited V1 T1 V2 T2)
  note m1 = dfs_events_members [OF Visit.hyps(2)] and m2 = dfs_events_members [OF Visit.hyps(3)]
  note v1 = dfs_events_visited [OF Visit.hyps(2)] and v2 = dfs_events_visited [OF Visit.hyps(3)]
  have "set T1 \<inter> set T2 = {}"
  proof (rule equals0I)
    fix e assume "e \<in> set T1 \<inter> set T2"
    then show False using m1 m2 by (cases e) auto
  qed
  then show ?case using Visit m1 m2 v1 by auto
qed auto

lemma visit_cases:
  assumes "n \<notin> visited" and "dfs_events g (succs g n) (insert n visited) = (V1, T1)"
    and "x \<in> V2 - visited"
  obtains "x = n" | "x \<in> V1 - insert n visited" | "x \<in> V2 - V1"
  using assms by blast

lemma dfs_events_closed:
  "dfs_events g ns visited = (V, T) \<Longrightarrow> x \<in> V - visited \<Longrightarrow> (x, y) \<in> edge_rel g \<Longrightarrow> y \<in> V"
proof (induction arbitrary: x y rule: dfs_events_induct)
  case (Visit n ns visited V1 T1 V2 T2)
  have sub: "V1 \<subseteq> V2" and n: "set (succs g n) \<subseteq> V1"
    using dfs_events_visited [OF Visit.hyps(2)] dfs_events_visited [OF Visit.hyps(3)] by auto
  from Visit.hyps(1,2) Visit.prems(1) show ?case
  proof (cases rule: visit_cases)
    case 1
    with Visit.prems(2) n sub show ?thesis by (auto simp only: edge_rel_succs)
  next
    case 2
    from Visit.IH(1) [OF 2 Visit.prems(2)] sub show ?thesis by blast
  next
    case 3
    from Visit.IH(2) [OF 3 Visit.prems(2)] show ?thesis .
  qed
qed auto

lemma dfs_events_sound:
  "dfs_events g ns visited = (V, T) \<Longrightarrow> x \<in> V - visited \<Longrightarrow> \<exists>s \<in> set ns. (s, x) \<in> (edge_rel g)\<^sup>*"
proof (induction arbitrary: x rule: dfs_events_induct)
  case (Visit n ns visited V1 T1 V2 T2)
  show ?case
  proof (cases "x \<in> V1 - insert n visited")
    case True
    then obtain s where "s \<in> set (succs g n)" "(s, x) \<in> (edge_rel g)\<^sup>*"
      using Visit.IH(1) by blast
    then have "(n, x) \<in> (edge_rel g)\<^sup>*"
      by (meson edge_rel_succs converse_rtrancl_into_rtrancl)
    then show ?thesis by auto
  next
    case False
    with Visit show ?thesis by auto
  qed
qed auto

text \<open>From an empty set of visited nodes the walk visits exactly what the roots reach.\<close>

lemma dfs_events_reachable:
  assumes "dfs_events g ns {} = (V, T)"
  shows "V = {x. \<exists>s \<in> set ns. (s, x) \<in> (edge_rel g)\<^sup>*}"
proof -
  have "x \<in> V" if "s \<in> set ns" "(s, x) \<in> (edge_rel g)\<^sup>*" for s x
    using that dfs_events_visited [OF assms] dfs_events_closed [OF assms]
    by (blast intro: rtrancl_closed [of s x])
  then show ?thesis
    using dfs_events_sound [OF assms] by auto
qed

subsection \<open>The order of the events\<close>

text \<open>Where the events of a node stand in the trace of a walk that visits its first root.\<close>

lemma visit_pos:
  assumes "n \<notin> visited" and e1: "dfs_events g (succs g n) (insert n visited) = (V1, T1)"
    and e2: "dfs_events g ns V1 = (V2, T2)" and T: "T = Enter n # T1 @ Leave n # T2"
  shows visit_pos_root: "pos T (Enter n) = 0" "pos T (Leave n) = Suc (length T1)"
    and visit_pos_sub: "x \<in> V1 - insert n visited \<Longrightarrow>
      pos T (Enter x) = Suc (pos T1 (Enter x)) \<and> pos T (Leave x) = Suc (pos T1 (Leave x)) \<and>
      pos T1 (Enter x) < length T1 \<and> pos T1 (Leave x) < length T1"
    and visit_pos_rest: "x \<in> V2 - V1 \<Longrightarrow>
      pos T (Enter x) = length T1 + 2 + pos T2 (Enter x) \<and>
      pos T (Leave x) = length T1 + 2 + pos T2 (Leave x)"
proof -
  note m1 = dfs_events_members [OF e1] and m2 = dfs_events_members [OF e2]
  note v1 = dfs_events_visited [OF e1]
  show "pos T (Enter n) = 0" "pos T (Leave n) = Suc (length T1)"
    using m1 [of n] by (simp_all add: T pos_append)
  show "pos T (Enter x) = Suc (pos T1 (Enter x)) \<and> pos T (Leave x) = Suc (pos T1 (Leave x)) \<and>
      pos T1 (Enter x) < length T1 \<and> pos T1 (Leave x) < length T1" if "x \<in> V1 - insert n visited"
    using that m1 [of x] by (simp add: T pos_append pos_less_length)
  show "pos T (Enter x) = length T1 + 2 + pos T2 (Enter x) \<and>
      pos T (Leave x) = length T1 + 2 + pos T2 (Leave x)" if "x \<in> V2 - V1"
  proof -
    have "x \<noteq> n" using that v1 by auto
    with that m1 [of x] show ?thesis by (simp add: T pos_append)
  qed
qed

lemma dfs_enter_leave:
  "dfs_events g ns visited = (V, T) \<Longrightarrow> x \<in> V - visited \<Longrightarrow> pos T (Enter x) < pos T (Leave x)"
proof (induction arbitrary: x rule: dfs_events_induct)
  case (Visit n ns visited V1 T1 V2 T2)
  define T where "T = Enter n # T1 @ Leave n # T2"
  note vp = visit_pos [OF Visit.hyps T_def]
  from Visit.hyps(1,2) Visit.prems have "pos T (Enter x) < pos T (Leave x)"
    by (cases rule: visit_cases) (simp_all add: vp Visit.IH)
  then show ?case by (simp only: T_def)
qed auto

text \<open>The target of an edge is entered before the walk leaves its source.\<close>

lemma dfs_edge_order:
  "dfs_events g ns visited = (V, T) \<Longrightarrow> (x, y) \<in> edge_rel g \<Longrightarrow>
   x \<in> V - visited \<Longrightarrow> y \<in> V - visited \<Longrightarrow> pos T (Enter y) < pos T (Leave x)"
proof (induction arbitrary: x y rule: dfs_events_induct)
  case (Visit n ns visited V1 T1 V2 T2)
  define T where "T = Enter n # T1 @ Leave n # T2"
  note vp = visit_pos [OF Visit.hyps T_def] and edge = Visit.prems(1)
  have n: "n \<in> V1"
    using dfs_events_visited [OF Visit.hyps(2)] by auto
  have closed: "y \<in> V1" if "x \<in> V1"
    using that edge Visit.prems(2) dfs_events_closed [OF Visit.hyps(2), of x y]
      dfs_events_visited [OF Visit.hyps(2)] by (cases "x = n") (auto simp: edge_rel_succs)
  have "pos T (Enter y) < pos T (Leave x)"
    using Visit.hyps(1,2) Visit.prems(2)
  proof (cases rule: visit_cases)
    case 1
    from Visit.hyps(1,2) Visit.prems(3) show ?thesis
      by (cases rule: visit_cases) (use closed n in \<open>simp_all add: 1 vp\<close>)
  next
    case 2
    from Visit.hyps(1,2) Visit.prems(3) show ?thesis
      by (cases rule: visit_cases) (use closed 2 Visit.IH(1) [OF edge 2] in \<open>simp_all add: vp\<close>)
  next
    case 3
    note IH = Visit.IH(2) [OF edge 3]
    from Visit.hyps(1,2) Visit.prems(3) show ?thesis
    proof (cases rule: visit_cases)
      case 2
      with vp(3) [OF 2] vp(4) [OF 3] show ?thesis by simp
    qed (use 3 IH in \<open>simp_all add: vp\<close>)
  qed
  then show ?case by (simp only: T_def)
qed auto

text \<open>A node entered while another is open is a descendant of it and is left first.\<close>

lemma dfs_nested:
  "dfs_events g ns visited = (V, T) \<Longrightarrow> x \<in> V - visited \<Longrightarrow> y \<in> V - visited \<Longrightarrow>
   pos T (Enter x) < pos T (Enter y) \<Longrightarrow> pos T (Enter y) < pos T (Leave x) \<Longrightarrow>
   (x, y) \<in> (edge_rel g)\<^sup>* \<and> pos T (Leave y) < pos T (Leave x)"
proof (induction arbitrary: x y rule: dfs_events_induct)
  case (Visit n ns visited V1 T1 V2 T2)
  define T where "T = Enter n # T1 @ Leave n # T2"
  note vp = visit_pos [OF Visit.hyps T_def] and order = Visit.prems(3,4) [folded T_def]
  have descendant: "(n, y) \<in> (edge_rel g)\<^sup>*" if "y \<in> V1 - insert n visited"
    using dfs_events_sound [OF Visit.hyps(2) that]
    by (meson edge_rel_succs converse_rtrancl_into_rtrancl)
  have "(x, y) \<in> (edge_rel g)\<^sup>* \<and> pos T (Leave y) < pos T (Leave x)"
    using Visit.hyps(1,2) Visit.prems(1)
  proof (cases rule: visit_cases)
    case 1
    from Visit.hyps(1,2) Visit.prems(2) show ?thesis
      by (cases rule: visit_cases) (use order descendant in \<open>simp_all add: 1 vp\<close>)
  next
    case 2
    from Visit.hyps(1,2) Visit.prems(2) show ?thesis
      by (cases rule: visit_cases) (use order 2 Visit.IH(1) [OF 2] vp(3) [OF 2] in \<open>simp_all add: vp\<close>)
  next
    case 3
    from Visit.hyps(1,2) Visit.prems(2) show ?thesis
    proof (cases rule: visit_cases)
      case 2
      with vp(3) [OF 2] vp(4) [OF 3] order show ?thesis by simp
    qed (use order 3 Visit.IH(2) [OF 3] in \<open>simp_all add: vp\<close>)
  qed
  then show ?case by (simp only: T_def)
qed auto

text \<open>
  On a walk from scratch, the target of an edge that does not lie on a cycle through its source
  is left before the source.
\<close>

lemma dfs_leave_order:
  assumes e: "dfs_events g ns {} = (V, T)" and edge: "(x, y) \<in> edge_rel g"
    and x: "x \<in> V" and acyc: "(x, x) \<notin> (edge_rel g)\<^sup>+"
  shows "pos T (Leave y) < pos T (Leave x)"
proof -
  have y: "y \<in> V"
    using dfs_events_closed [OF e] x edge by blast
  have before: "pos T (Enter y) < pos T (Leave x)"
    using dfs_edge_order [OF e edge] x y by simp
  have ne: "x \<noteq> y"
    using acyc edge by auto
  then have "pos T (Enter x) \<noteq> pos T (Enter y)"
    using pos_inj [of "Enter x" T "Enter y"] dfs_events_members [OF e] x y by auto
  then consider "pos T (Enter x) < pos T (Enter y)" | "pos T (Enter y) < pos T (Enter x)"
    by linarith
  then show ?thesis
  proof cases
    case 1
    then show ?thesis using dfs_nested [OF e _ _ _ before] x y by simp
  next
    case 2
    have "\<not> pos T (Enter x) < pos T (Leave y)"
    proof
      assume "pos T (Enter x) < pos T (Leave y)"
      then have "(y, x) \<in> (edge_rel g)\<^sup>*"
        using dfs_nested [OF e _ _ 2] x y by simp
      with edge acyc show False by (meson rtrancl_into_trancl2)
    qed
    moreover have "pos T (Enter x) < pos T (Leave x)"
      using dfs_enter_leave [OF e] x by simp
    ultimately show ?thesis by linarith
  qed
qed

section \<open>topo_sort returns a reverse topological order\<close>

fun leaves :: "'n event list \<Rightarrow> 'n list" where
  "leaves [] = []"
| "leaves (Enter n # t) = leaves t"
| "leaves (Leave n # t) = n # leaves t"

lemma fold_leaves: "fold (do_event (\<lambda>_ srt. srt) (\<lambda>n srt. srt @ [n])) t srt = srt @ leaves t"
  by (induction t arbitrary: srt rule: leaves.induct) auto

lemma set_leaves: "set (leaves t) = {n. Leave n \<in> set t}"
  by (induction t rule: leaves.induct) auto

lemma distinct_leaves: "distinct t \<Longrightarrow> distinct (leaves t)"
  by (induction t rule: leaves.induct) (auto simp: set_leaves)

lemma pos_leaves:
  "Leave x \<in> set t \<Longrightarrow> Leave y \<in> set t \<Longrightarrow>
   pos (leaves t) x < pos (leaves t) y \<longleftrightarrow> pos t (Leave x) < pos t (Leave y)"
  by (induction t rule: leaves.induct) auto

lemma dfs_list_leaves:
  "dfs_list g (\<lambda>_ srt. srt) (\<lambda>n srt. srt @ [n]) ns visited srt =
     (fst (dfs_events g ns visited), srt @ leaves (snd (dfs_events g ns visited)))"
  by (simp add: dfs_list_events fold_leaves)

text \<open>The recursive function of the source: a loop over the neighbours, then the node itself.\<close>

lemma dfs_list_fold:
  "dfs_list g (\<lambda>_ srt. srt) (\<lambda>n srt. srt @ [n]) ns visited srt =
     fold (\<lambda>n st. if n \<in> fst st then st else topo_sort_util g n st) ns (visited, srt)"
  by (induction ns arbitrary: visited srt) (auto simp: topo_sort_util_def split: prod.splits)

lemma topo_sort_util_unfold:
  "topo_sort_util g v (visited, srt) =
     (case fold (\<lambda>n st. if fst n \<in> fst st then st else topo_sort_util g (fst n) st)
             (neighbors_or_empty g v) (insert v visited, srt) of
        (visited', srt') \<Rightarrow> (visited', srt' @ [v]))"
  by (simp add: topo_sort_util_def dfs_list_fold fold_map comp_def)

lemma topo_sort_leaves: "topo_sort g = leaves (snd (dfs_events g (map fst g) {}))"
proof -
  have "topo_sort g = snd (dfs_list g (\<lambda>_ srt. srt) (\<lambda>n srt. srt @ [n]) (map fst g) {} [])"
    by (simp add: topo_sort_def dfs_list_fold fold_map comp_def)
  then show ?thesis by (simp add: dfs_list_leaves)
qed

lemma topo_sort_from_leaves: "topo_sort_from g s = leaves (snd (dfs_events g [s] {}))"
proof -
  have "topo_sort_from g s = snd (dfs_list g (\<lambda>_ srt. srt) (\<lambda>n srt. srt @ [n]) [s] {} [])"
    by (simp add: topo_sort_from_def dfs_list_fold)
  then show ?thesis by (simp only: dfs_list_leaves) simp
qed

lemma leaves_topological:
  assumes e: "dfs_events g ns {} = (V, T)" and L: "L = leaves T"
  shows "distinct L \<and> set L = {x. \<exists>s \<in> set ns. (s, x) \<in> (edge_rel g)\<^sup>*} \<and>
    (\<forall>i j. i < length L \<and> j < length L \<and> (L ! i, L ! j) \<in> edge_rel g \<and>
       (L ! i, L ! i) \<notin> (edge_rel g)\<^sup>+ \<longrightarrow> j < i)"
proof -
  have d: "distinct L" and set: "set L = V"
    using dfs_events_distinct [OF e] dfs_events_members [OF e] by (auto simp: L distinct_leaves set_leaves)
  have "j < i" if "i < length L" "j < length L" "(L ! i, L ! j) \<in> edge_rel g"
      "(L ! i, L ! i) \<notin> (edge_rel g)\<^sup>+" for i j
  proof -
    have "Leave (L ! i) \<in> set T" "Leave (L ! j) \<in> set T"
      using that(1,2) set dfs_events_members [OF e] by (metis Diff_empty nth_mem)+
    moreover have "pos T (Leave (L ! j)) < pos T (Leave (L ! i))"
      using dfs_leave_order [OF e that(3) _ that(4)] that(1) set by auto
    ultimately have "pos L (L ! j) < pos L (L ! i)"
      by (simp add: L pos_leaves)
    then show ?thesis by (simp add: pos_nth d that)
  qed
  then show ?thesis
    using d set dfs_events_reachable [OF e] by simp
qed

lemma last_leaves_root: "n \<notin> visited \<Longrightarrow> \<exists>L. leaves (snd (dfs_events g [n] visited)) = L @ [n]"
proof -
  have "leaves (t @ t') = leaves t @ leaves t'" for t t' :: "'a event list"
    by (induction t rule: leaves.induct) auto
  then show "n \<notin> visited \<Longrightarrow> \<exists>L. leaves (snd (dfs_events g [n] visited)) = L @ [n]"
    by (auto split: prod.splits)
qed

text \<open>
  C7: \<open>topo_sort\<close> from a start node returns every reachable node exactly once, the start node
  last, and for every edge whose source does not lie on a cycle the target comes before the
  source. So on an acyclic graph the reversed vector is a topological order.
\<close>

theorem topo_sort_from_topological:
  "distinct (topo_sort_from g s) \<and> set (topo_sort_from g s) = reachable_from g s \<and>
   last (topo_sort_from g s) = s \<and>
   (\<forall>i j. i < length (topo_sort_from g s) \<and> j < length (topo_sort_from g s) \<and>
      (topo_sort_from g s ! i, topo_sort_from g s ! j) \<in> edge_rel g \<and>
      (topo_sort_from g s ! i, topo_sort_from g s ! i) \<notin> (edge_rel g)\<^sup>+ \<longrightarrow> j < i)"
proof -
  obtain V T where e: "dfs_events g [s] {} = (V, T)" by fastforce
  then have "topo_sort_from g s = leaves T"
    by (simp only: topo_sort_from_leaves snd_conv)
  moreover have "last (topo_sort_from g s) = s"
    using last_leaves_root [of s "{}" g] by (auto simp: topo_sort_from_leaves simp del: dfs_events.simps)
  ultimately show ?thesis
    using leaves_topological [OF e] by (simp add: reachable_from_def)
qed

theorem topo_sort_from_topological_witness:
  "topo_sort_from diamond 1 = [4, 2, 3, 1] \<and> (2, 4) \<in> edge_rel diamond \<and>
   (2, 2) \<notin> (edge_rel diamond)\<^sup>+ \<and> (0::nat) < 1"
proof -
  have t: "topo_sort_from diamond 1 = [4, 2, 3, 1]"
    by code_simp
  have "(2, 2) \<notin> (edge_rel diamond)\<^sup>+"
    using acyclic_diamond by (simp add: acyclic_def)
  then show ?thesis
    using topo_sort_from_topological [of diamond 1] unfolding t by (auto simp: edge_rel_diamond)
qed

text \<open>
  C24: \<open>topo_sort\<close> of a whole graph returns every node, key or target, exactly once, whatever the
  order of the keys, and puts the target of every edge before its source when the graph is acyclic.
\<close>

theorem topo_sort_topological:
  "distinct (topo_sort g) \<and> set (topo_sort g) = keys g \<union> Range (edge_rel g) \<and>
   (acyclic (edge_rel g) \<longrightarrow>
     (\<forall>i j. i < length (topo_sort g) \<and> j < length (topo_sort g) \<and>
        (topo_sort g ! i, topo_sort g ! j) \<in> edge_rel g \<longrightarrow> j < i))"
proof -
  obtain V T where e: "dfs_events g (map fst g) {} = (V, T)" by fastforce
  then have t: "topo_sort g = leaves T"
    by (simp add: topo_sort_leaves)
  have "{x. \<exists>s \<in> set (map fst g). (s, x) \<in> (edge_rel g)\<^sup>*} = keys g \<union> Range (edge_rel g)"
  proof (rule set_eqI, rule iffI)
    fix x assume "x \<in> {x. \<exists>s \<in> set (map fst g). (s, x) \<in> (edge_rel g)\<^sup>*}"
    then show "x \<in> keys g \<union> Range (edge_rel g)"
      by (auto elim: rtranclE)
  next
    fix x assume "x \<in> keys g \<union> Range (edge_rel g)"
    then show "x \<in> {x. \<exists>s \<in> set (map fst g). (s, x) \<in> (edge_rel g)\<^sup>*}"
    proof
      assume "x \<in> Range (edge_rel g)"
      then obtain u where "(u, x) \<in> edge_rel g" by blast
      then have "u \<in> set (map fst g)" and "(u, x) \<in> (edge_rel g)\<^sup>*"
        by (simp_all add: edge_rel_keys r_into_rtrancl)
      then show ?thesis by blast
    qed auto
  qed
  then show ?thesis
    using leaves_topological [OF e t] by (auto simp: acyclic_def)
qed

theorem topo_sort_topological_witness:
  "topo_sort diamond = [4, 2, 3, 1] \<and> acyclic (edge_rel diamond) \<and> (3, 4) \<in> edge_rel diamond \<and>
   (0::nat) < 2"
proof -
  have t: "topo_sort diamond = [4, 2, 3, 1]"
    by code_simp
  show ?thesis
    using topo_sort_topological [of diamond] acyclic_diamond unfolding t
    by (auto simp: edge_rel_diamond)
qed

section \<open>find_back_edges\<close>

subsection \<open>The times are the positions in the trace\<close>

lemma clock_events: "clock (fold (do_event enter_time leave_time) t s) = clock s + int (length t)"
proof (induction t arbitrary: s)
  case (Cons e t)
  then show ?case by (cases e) (auto simp: enter_time_def leave_time_def)
qed simp

lemma start_times_events:
  "distinct t \<Longrightarrow>
   map_of (start_times (fold (do_event enter_time leave_time) t s)) n =
     (if Enter n \<in> set t then Some (clock s + int (pos t (Enter n))) else map_of (start_times s) n)"
proof (induction t arbitrary: s)
  case (Cons e t)
  then show ?case by (cases e) (auto simp: enter_time_def leave_time_def)
qed simp

lemma end_times_events:
  "distinct t \<Longrightarrow>
   map_of (end_times (fold (do_event enter_time leave_time) t s)) n =
     (if Leave n \<in> set t then Some (clock s + int (pos t (Leave n))) else map_of (end_times s) n)"
proof (induction t arbitrary: s)
  case (Cons e t)
  then show ?case by (cases e) (auto simp: enter_time_def leave_time_def)
qed simp

text \<open>The recursive function of the source.\<close>

lemma classify_list_fold:
  "dfs_list g enter_time leave_time ns visited t =
     fold (\<lambda>n st. if n \<in> fst st then st else classify_rec g n st) ns (visited, t)"
  by (induction ns arbitrary: visited t) (auto simp: classify_rec_def split: prod.splits)

lemma classify_rec_unfold:
  "classify_rec g v (visited, t) =
     (case fold (\<lambda>n st. if fst n \<in> fst st then st else classify_rec g (fst n) st)
             (neighbors_or_empty g v) (insert v visited, enter_time v t) of
        (visited', t') \<Rightarrow> (visited', leave_time v t'))"
  by (simp add: classify_rec_def classify_list_fold fold_map comp_def)

lemma classify_times:
  assumes e: "dfs_events g [s] {} = (V, T)" and c: "classify g s = (st, en)"
  shows "time_of st n = (if n \<in> V then int (pos T (Enter n)) else 0)"
    and "time_of en n = (if n \<in> V then int (pos T (Leave n)) else 0)"
proof -
  let ?t0 = "\<lparr>start_times = [], end_times = [], clock = 0\<rparr> :: 'a dfs_times"
  have "classify_rec g s ({}, ?t0) = dfs_list g enter_time leave_time [s] {} ?t0"
    by (simp add: classify_list_fold del: dfs_list.simps)
  also have "\<dots> = (V, fold (do_event enter_time leave_time) T ?t0)"
    by (simp only: dfs_list_events e fst_conv snd_conv)
  finally have "st = start_times (fold (do_event enter_time leave_time) T ?t0)"
    and "en = end_times (fold (do_event enter_time leave_time) T ?t0)"
    using c by (auto simp: classify_def Let_def)
  then show "time_of st n = (if n \<in> V then int (pos T (Enter n)) else 0)"
    and "time_of en n = (if n \<in> V then int (pos T (Leave n)) else 0)"
    using dfs_events_members [OF e, of n]
    by (auto simp: time_of_def start_times_events end_times_events dfs_events_distinct [OF e])
qed

subsection \<open>The three vectors\<close>

abbreviation edge_of :: "'n \<times> 'n \<times> int \<Rightarrow> 'n AbsEdge" where
  "edge_of t \<equiv> \<lparr>source = fst t, dst = fst (snd t), elabel = snd (snd t)\<rparr>"

lemma fold_three_filters:
  "fold (\<lambda>x y. (if P x then fst y @ [f x] else fst y,
                 if Q x then fst (snd y) @ [f x] else fst (snd y),
                 if R x then snd (snd y) @ [f x] else snd (snd y))) xs (a, b, c) =
     (a @ map f (filter P xs), b @ map f (filter Q xs), c @ map f (filter R xs))"
  by (induction xs arbitrary: a b c) auto

lemma find_back_edges_filter:
  assumes "classify g s = (st, en)"
  shows "find_back_edges g s =
    (map edge_of (filter (\<lambda>(u, v, l). time_of st u > time_of st v \<and> time_of en u < time_of en v)
                    (edge_list g)),
     map edge_of (filter (\<lambda>(u, v, l). time_of st u < time_of st v \<and> time_of en u > time_of en v)
                    (edge_list g)),
     map edge_of (filter (\<lambda>(u, v, l). time_of st u > time_of st v \<and> time_of en u > time_of en v)
                    (edge_list g)))"
proof -
  let ?f = "\<lambda>(u, v, l) (back, tree, cross).
      let e = \<lparr>source = u, dst = v, elabel = l\<rparr> in
      (if time_of st u > time_of st v \<and> time_of en u < time_of en v then back @ [e] else back,
       if time_of st u < time_of st v \<and> time_of en u > time_of en v then tree @ [e] else tree,
       if time_of st u > time_of st v \<and> time_of en u > time_of en v then cross @ [e] else cross)"
  have nested: "fold (\<lambda>(u, es). fold (\<lambda>(v, l). ?f (u, v, l)) es) h acc = fold ?f (edge_list h) acc"
    for h acc
    by (induction h arbitrary: acc) (auto simp: edge_list_Cons fold_map comp_def case_prod_beta')
  have "find_back_edges g s = fold (\<lambda>(u, es). fold (\<lambda>(v, l). ?f (u, v, l)) es) g ([], [], [])"
    using assms by (simp add: find_back_edges_def)
  also have "\<dots> = fold ?f (edge_list g) ([], [], [])"
    by (rule nested)
  finally show ?thesis
    by (simp add: case_prod_beta' Let_def fold_three_filters [where f = edge_of])
qed

text \<open>An edge of the part that is walked, other than a self loop, is of exactly one of the three kinds.\<close>

lemma dfs_edge_kind:
  assumes e: "dfs_events g [s] {} = (V, T)" and edge: "(u, v) \<in> edge_rel g"
    and u: "u \<in> V" and ne: "u \<noteq> v"
  obtains (tree) "pos T (Enter u) < pos T (Enter v)" "pos T (Leave v) < pos T (Leave u)"
  | (retreating) "pos T (Enter v) < pos T (Enter u)" "pos T (Leave u) < pos T (Leave v)"
      "(v, u) \<in> (edge_rel g)\<^sup>*"
  | (cross) "pos T (Enter v) < pos T (Enter u)" "pos T (Leave v) < pos T (Leave u)"
proof -
  have v: "v \<in> V"
    using dfs_events_closed [OF e] u edge by blast
  have enter: "pos T (Enter v) < pos T (Leave u)"
    using dfs_edge_order [OF e edge] u v by simp
  have "pos T (Enter u) \<noteq> pos T (Enter v)" "pos T (Leave u) \<noteq> pos T (Enter u)"
    "pos T (Leave v) \<noteq> pos T (Enter u)"
    using pos_inj dfs_events_members [OF e] u v ne by (metis Diff_empty event.inject(1) event.distinct(1))+
  then consider "pos T (Enter u) < pos T (Enter v)"
    | "pos T (Enter v) < pos T (Enter u)" "pos T (Enter u) < pos T (Leave v)"
    | "pos T (Enter v) < pos T (Enter u)" "pos T (Leave v) < pos T (Enter u)"
    by linarith
  then show thesis
  proof cases
    case 1
    then show thesis using dfs_nested [OF e, of u v] u v enter tree by simp
  next
    case 2
    then show thesis using dfs_nested [OF e, of v u] u v retreating by simp
  next
    case 3
    then show thesis using dfs_enter_leave [OF e, of u] u cross by simp
  qed
qed

text \<open>The part of the graph that is walked, without self loops.\<close>

definition walked :: "'n edge_holder \<Rightarrow> 'n \<Rightarrow> 'n rel" where
  "walked g s = {(u, v) \<in> edge_rel g. u \<in> reachable_from g s \<and> u \<noteq> v}"

lemma walked_path:
  assumes "(v, u) \<in> (edge_rel g)\<^sup>*" and "v \<in> reachable_from g s"
  shows "(v, u) \<in> (walked g s)\<^sup>*"
  using assms
proof (induction rule: rtrancl_induct)
  case (step y z)
  then have "y \<in> reachable_from g s"
    by (auto simp: reachable_from_def intro: rtrancl_trans)
  with step show ?case
    by (cases "y = z") (auto simp: walked_def intro: rtrancl_into_rtrancl)
qed simp

lemma find_back_edges_times:
  assumes g: "map_ok g" and e: "dfs_events g [s] {} = (V, T)"
    and f: "find_back_edges g s = (bk, tr, cr)"
  defines "walk e \<equiv> (source e, dst e, elabel e) \<in> set (edge_list g) \<and> source e \<in> V \<and> source e \<noteq> dst e"
  shows "x \<in> set bk \<longleftrightarrow> walk x \<and> pos T (Enter (dst x)) < pos T (Enter (source x)) \<and>
      pos T (Leave (source x)) < pos T (Leave (dst x))"
    and "x \<in> set tr \<longleftrightarrow> walk x \<and> pos T (Enter (source x)) < pos T (Enter (dst x)) \<and>
      pos T (Leave (dst x)) < pos T (Leave (source x))"
    and "x \<in> set cr \<longleftrightarrow> walk x \<and> pos T (Enter (dst x)) < pos T (Enter (source x)) \<and>
      pos T (Leave (dst x)) < pos T (Leave (source x))"
proof -
  obtain st en where c: "classify g s = (st, en)" by fastforce
  note times = classify_times [OF e c]
  have closed: "v \<in> V" if "(u, v, l) \<in> set (edge_list g)" "u \<in> V" for u v l
    using that dfs_events_closed [OF e, of u v] g by (force simp: edge_list_neighbors edge_rel_def)
  have mem: "x \<in> edge_of ` S \<longleftrightarrow> (source x, dst x, elabel x) \<in> S" for S
    by (cases x) force
  have vecs: "bk = map edge_of (filter (\<lambda>(u, v, l). time_of st u > time_of st v \<and> time_of en u < time_of en v) (edge_list g))"
    "tr = map edge_of (filter (\<lambda>(u, v, l). time_of st u < time_of st v \<and> time_of en u > time_of en v) (edge_list g))"
    "cr = map edge_of (filter (\<lambda>(u, v, l). time_of st u > time_of st v \<and> time_of en u > time_of en v) (edge_list g))"
    using f by (simp_all add: find_back_edges_filter [OF c])
  show "x \<in> set bk \<longleftrightarrow> walk x \<and> pos T (Enter (dst x)) < pos T (Enter (source x)) \<and>
      pos T (Leave (source x)) < pos T (Leave (dst x))"
    by (auto simp: vecs mem walk_def times dest: closed)
  show "x \<in> set tr \<longleftrightarrow> walk x \<and> pos T (Enter (source x)) < pos T (Enter (dst x)) \<and>
      pos T (Leave (dst x)) < pos T (Leave (source x))"
    by (auto simp: vecs mem walk_def times dest: closed)
  show "x \<in> set cr \<longleftrightarrow> walk x \<and> pos T (Enter (dst x)) < pos T (Enter (source x)) \<and>
      pos T (Leave (dst x)) < pos T (Leave (source x))"
    by (auto simp: vecs mem walk_def times dest: closed)
qed

text \<open>
  C10: \<open>find_back_edges\<close> sorts the edges that leave a node reachable from \<open>start\<close>, self loops
  apart, into the three vectors, each edge into exactly one of them; a back edge leads to a node
  from which its source can be reached; and there is no back edge exactly when the reachable part
  of the graph has no cycle through two different nodes. A self loop is in none of the vectors.
\<close>

theorem find_back_edges_classifies:
  assumes g: "map_ok g" and f: "find_back_edges g s = (bk, tr, cr)"
  shows "set bk \<union> set tr \<union> set cr =
      {e. (source e, dst e, elabel e) \<in> set (edge_list g) \<and> source e \<in> reachable_from g s \<and>
          source e \<noteq> dst e} \<and>
    set bk \<inter> set tr = {} \<and> set bk \<inter> set cr = {} \<and> set tr \<inter> set cr = {} \<and>
    (\<forall>e \<in> set bk. (dst e, source e) \<in> (edge_rel g)\<^sup>*) \<and>
    (bk = [] \<longleftrightarrow> acyclic (walked g s))"
proof -
  obtain V T where e: "dfs_events g [s] {} = (V, T)" by fastforce
  have V: "V = reachable_from g s"
    using dfs_events_reachable [OF e] by (simp add: reachable_from_def)
  note vec = find_back_edges_times [OF g e f]
  have rel: "(u, v, l) \<in> set (edge_list g) \<Longrightarrow> (u, v) \<in> edge_rel g" for u v l
    using g by (force simp: edge_list_neighbors edge_rel_def)
  have union: "set bk \<union> set tr \<union> set cr =
      {e. (source e, dst e, elabel e) \<in> set (edge_list g) \<and> source e \<in> reachable_from g s \<and>
          source e \<noteq> dst e}"
  proof (intro set_eqI iffI)
    fix e :: "'a AbsEdge" assume "e \<in> {e. (source e, dst e, elabel e) \<in> set (edge_list g) \<and>
      source e \<in> reachable_from g s \<and> source e \<noteq> dst e}"
    then have x: "(source e, dst e, elabel e) \<in> set (edge_list g)" "source e \<in> V" "source e \<noteq> dst e"
      by (simp_all add: V)
    from \<open>dfs_events g [s] {} = (V, T)\<close> rel [OF x(1)] x(2,3) show "e \<in> set bk \<union> set tr \<union> set cr"
      by (cases rule: dfs_edge_kind) (simp_all add: vec x)
  qed (auto simp: vec V)
  have disjoint: "set bk \<inter> set tr = {} \<and> set bk \<inter> set cr = {} \<and> set tr \<inter> set cr = {}"
    by (auto simp: vec)
  have cycle: "(dst e, source e) \<in> (edge_rel g)\<^sup>* \<and> (source e, dst e) \<in> walked g s" if "e \<in> set bk" for e
    using that dfs_edge_kind [OF e, of "source e" "dst e"] rel
    by (auto simp: vec V walked_def)
  have "\<not> acyclic (walked g s)" if "e \<in> set bk" for e
  proof -
    have "dst e \<in> reachable_from g s"
      using cycle [OF that] by (auto simp: walked_def reachable_from_def)
    then have "(dst e, source e) \<in> (walked g s)\<^sup>*"
      using cycle [OF that] by (simp add: walked_path)
    with cycle [OF that] show ?thesis
      by (meson acyclic_no_return)
  qed
  moreover have "acyclic (walked g s)" if "bk = []"
  proof (rule acyclic_decreasing [of _ "\<lambda>n. pos T (Leave n)"])
    fix u v assume uv: "(u, v) \<in> walked g s"
    then obtain l where "(u, v, l) \<in> set (edge_list g)"
      using g by (force simp: walked_def edge_list_neighbors edge_rel_def)
    with that uv show "pos T (Leave v) < pos T (Leave u)"
      using vec(1) [of "edge_of (u, v, l)"]
      by (auto simp: walked_def V elim: dfs_edge_kind [OF e])
  qed
  ultimately have "bk = [] \<longleftrightarrow> acyclic (walked g s)"
    by (metis last_in_set)
  with union disjoint cycle show ?thesis by blast
qed

definition looped :: "nat edge_holder" where
  "looped = [(1, [(2, 0), (3, 0)]), (2, [(1, 0), (2, 7)]), (3, [(2, 0)])]"

theorem find_back_edges_classifies_witness:
  "\<not> acyclic (walked looped 1) \<and>
   find_back_edges looped 1 = ([mk_AbsEdge 2 (1, 0)], [mk_AbsEdge 1 (2, 0), mk_AbsEdge 1 (3, 0)],
     [mk_AbsEdge 3 (2, 0)])"
proof -
  have "map_ok looped" by (simp add: looped_def map_ok_def)
  moreover have eq: "find_back_edges looped 1 = ([mk_AbsEdge 2 (1, 0)],
      [mk_AbsEdge 1 (2, 0), mk_AbsEdge 1 (3, 0)], [mk_AbsEdge 3 (2, 0)])"
    by code_simp
  ultimately show ?thesis
    using find_back_edges_classifies [of looped 1] by blast
qed

end
