(* ===== verification/Cfg_Rename.thy ===== *)
theory Cfg_Rename
  imports Cfg_Graph
begin

text \<open>
  Renaming the nodes of a graph (\<open>gmap\<close> of \<open>cfg_algos.h\<close>; \<open>setLabel\<close>, \<open>clone\<close> and
  \<open>freshClone\<close> of \<open>cfg_algos.cpp\<close>). The renaming \<open>f\<close> passed to \<open>gmap\<close> is a callback with
  captured state: a state transformer. What \<open>gmap\<close> relies on is the contract of the locale
  \<open>memo_rename\<close>: a callback that has answered for a node keeps giving that answer. The memoising
  lambda of \<open>freshClone\<close> and the relabelling of \<open>setLabel\<close> are its interpretations.
\<close>

section \<open>gmap\<close>

text \<open>The inner loop: every edge target is renamed, in order, and a change is recorded.\<close>

fun rename_edges :: "('n \<Rightarrow> 's \<Rightarrow> 'n \<times> 's) \<Rightarrow> 'n edge list \<Rightarrow> 's \<Rightarrow> 'n edge list \<times> bool \<times> 's" where
  "rename_edges f [] s = ([], False, s)"
| "rename_edges f ((t, l) # es) s =
     (let (c, s1) = f t s; (es', ch, s2) = rename_edges f es s1
      in ((c, l) # es', c \<noteq> t \<or> ch, s2))"

text \<open>The outer loop: \<open>c[res] = std::move(n.second)\<close> replaces what was stored for \<open>res\<close>.\<close>

fun gmap_loop ::
  "('n::linorder \<Rightarrow> 's \<Rightarrow> 'n \<times> 's) \<Rightarrow> 'n edge_holder \<Rightarrow> 'n edge_holder \<Rightarrow> bool \<Rightarrow> 's \<Rightarrow>
   ('n edge_holder \<times> bool) \<times> 's" where
  "gmap_loop f [] c change s = ((c, change), s)"
| "gmap_loop f ((n, es) # h) c change s =
     (let (res, s1) = f n s; (es', ch, s2) = rename_edges f es s1
      in gmap_loop f h (map_put res es' c) (change \<or> res \<noteq> n \<or> ch) s2)"

definition gmap ::
  "'n::linorder edge_holder \<Rightarrow> ('n \<Rightarrow> 's \<Rightarrow> 'n \<times> 's) \<Rightarrow> 's \<Rightarrow> ('n edge_holder \<times> bool) \<times> 's" where
  "gmap h f s = gmap_loop f h [] False s"

section \<open>setLabel, clone and freshClone\<close>

text \<open>\<open>setLabel(holder, L)\<close>, and the overload that takes the next value of \<open>node_t::LABEL\<close>.\<close>

definition setLabel :: "node_t edge_holder \<Rightarrow> nat \<Rightarrow> node_t edge_holder" where
  "setLabel holder L =
     fold (\<lambda>(n, es) nxt. map_put (n\<lparr>label := L\<rparr>) (map (\<lambda>(c, l). (c\<lparr>label := L\<rparr>, l)) es) nxt) holder []"

definition setLabel_next :: "node_t edge_holder \<Rightarrow> nat \<Rightarrow> node_t edge_holder \<times> nat" where
  "setLabel_next holder LABEL = (setLabel holder (LABEL + 1), LABEL + 1)"

text \<open>\<open>clone\<close>: the copy, the relabelled start node, and the new value of \<open>node_t::LABEL\<close>.\<close>

definition clone_graph :: "node_t edge_holder \<Rightarrow> node_t \<Rightarrow> nat \<Rightarrow> node_t edge_holder \<times> node_t \<times> nat" where
  "clone_graph holder newstart LABEL =
     (let L = LABEL
      in (fold (\<lambda>(n, es) ret. map_put (n\<lparr>label := L\<rparr>) (map (\<lambda>(c, l). (c\<lparr>label := L\<rparr>, l)) es) ret) holder [],
          newstart\<lparr>label := L\<rparr>, LABEL + 1))"

text \<open>
  What the lambda of \<open>freshClone\<close> captures: the mappings so far, the optional map of parents, and
  the static counter. The hash tables are only looked up, so their order does not matter.
\<close>

record fresh_state =
  mappings :: "(node_t, node_t) std_map"
  parents :: "(node_t, node_t) std_map option"
  LABEL :: nat

definition fresh_fun :: "node_t \<Rightarrow> fresh_state \<Rightarrow> node_t \<times> fresh_state" where
  "fresh_fun nd s =
     (case map_of (mappings s) nd of
        Some c \<Rightarrow> (c, s)
      | None \<Rightarrow>
          let cl = clone_node nd (LABEL s + 1)
          in (cl, \<lparr>mappings = map_put nd cl (mappings s),
                   parents = map_option (map_put cl nd) (parents s),
                   LABEL = LABEL s + 1\<rparr>))"

definition freshClone ::
  "node_t edge_holder \<Rightarrow> node_t \<Rightarrow> node_t \<Rightarrow> (node_t, node_t) std_map option \<Rightarrow> nat \<Rightarrow>
   node_t edge_holder \<times> node_t \<times> node_t \<times> fresh_state" where
  "freshClone h start fin par lab =
     (let s = \<lparr>mappings = [], parents = par, LABEL = lab\<rparr>;
          (start', s) = fresh_fun start s;
          (fin', s) = fresh_fun fin s;
          ((c, _), s) = gmap h fresh_fun s
      in (c, start', fin', s))"

section \<open>Renaming by a function\<close>

text \<open>The specification: the graph with every node renamed by \<open>r\<close>.\<close>

definition rename_graph :: "('n \<Rightarrow> 'n) \<Rightarrow> 'n::linorder edge_holder \<Rightarrow> 'n edge_holder" where
  "rename_graph r h = fold (\<lambda>(n, es) c. map_put (r n) (map (\<lambda>(t, l). (r t, l)) es) c) h []"

lemma rename_fold_put:
  "map_ok c \<Longrightarrow> map_ok (fold (\<lambda>(n, es) c. map_put (r n) (g es) c) h c)"
  by (induction h arbitrary: c) (auto simp: map_wf)

lemma keys_rename_fold:
  "keys (fold (\<lambda>(n, es) c. map_put (r n) (g es) c) h c) = r ` keys h \<union> keys c"
  by (induction h arbitrary: c) (simp_all add: case_prod_beta)

lemma map_of_rename_fold:
  assumes "map_ok h" and "inj_on r (keys h)" and "(n, es) \<in> set h"
  shows "map_of (fold (\<lambda>(n, es) c. map_put (r n) (g es) c) h c) (r n) = Some (g es)"
  using assms
proof (induction h arbitrary: c rule: rev_induct)
  case (snoc x h)
  obtain m fs where x: "x = (m, fs)" by fastforce
  show ?case
  proof (cases "(n, es) \<in> set h")
    case True
    then have "n \<noteq> m" "n \<in> keys h" "map_ok h"
      using snoc.prems(1) by (auto simp: map_ok_def x sorted_wrt_append)
    then have "r n \<noteq> r m"
      using snoc.prems(2) by (auto simp: x inj_on_def)
    with True \<open>map_ok h\<close> snoc show ?thesis
      by (auto simp: x map_lookup inj_on_Un)
  next
    case False
    then show ?thesis using snoc.prems(3) by (auto simp: x map_lookup)
  qed
qed simp

lemma map_ok_rename [map_wf]: "map_ok (rename_graph r h)"
  by (simp add: rename_graph_def rename_fold_put map_wf)

lemma keys_rename [map_keys]: "keys (rename_graph r h) = r ` keys h"
  by (simp only: rename_graph_def keys_rename_fold) simp

lemma neighbors_rename:
  assumes h: "map_ok h" and r: "inj_on r (nodes_of h)" and n: "n \<in> nodes_of h"
  shows "neighbors_or_empty (rename_graph r h) (r n) = map (\<lambda>(t, l). (r t, l)) (neighbors_or_empty h n)"
proof (cases "map_of h n")
  case (Some es)
  then have "(n, es) \<in> set h" by (rule map_of_SomeD)
  moreover have "inj_on r (keys h)"
    using r by (rule inj_on_subset) (auto simp: nodes_of_def)
  ultimately show ?thesis
    using Some map_of_rename_fold [OF h, of r n es "map (\<lambda>(t, l). (r t, l))" "[]"]
    by (simp add: rename_graph_def neighbors_or_empty_def)
next
  case None
  then have "n \<notin> keys h" by (simp add: map_of_None_keys)
  then have "r n \<notin> r ` keys h"
    using r n by (auto simp: inj_on_def nodes_of_def)
  then have "r n \<notin> keys (rename_graph r h)"
    by (simp only: keys_rename) simp
  then show ?thesis
    using None by (simp add: neighbors_or_empty_def map_of_None_keys [symmetric])
qed

section \<open>The contract of a renaming callback\<close>

text \<open>
  \<open>look s\<close> are the answers given so far. A callback answers and keeps its earlier answers; \<open>inv\<close>
  is what else it keeps of its captured state.
\<close>

locale memo_rename =
  fixes f :: "'n::linorder \<Rightarrow> 's \<Rightarrow> 'n \<times> 's" and look :: "'s \<Rightarrow> 'n \<rightharpoonup> 'n" and inv :: "'s \<Rightarrow> bool"
  assumes answers: "f n s = (c, s') \<Longrightarrow> look s' n = Some c"
    and keeps: "f n s = (c, s') \<Longrightarrow> look s \<subseteq>\<^sub>m look s'"
    and inv_f: "inv s \<Longrightarrow> f n s = (c, s') \<Longrightarrow> inv s'"
begin

lemma answer_kept:
  assumes "f n s = (c, s1)" and "look s1 \<subseteq>\<^sub>m look s2"
  shows "look s2 n = Some c" and "look s \<subseteq>\<^sub>m look s2"
  using answers [OF assms(1)] keeps [OF assms(1)] assms(2)
  by (auto simp: map_le_def dom_def)

lemma rename_edges_answers:
  "rename_edges f es s = (es', ch, s') \<Longrightarrow>
   look s \<subseteq>\<^sub>m look s' \<and> fst ` set es \<subseteq> dom (look s') \<and>
   es' = map (\<lambda>(t, l). (the (look s' t), l)) es \<and>
   (ch \<longleftrightarrow> (\<exists>t \<in> fst ` set es. the (look s' t) \<noteq> t)) \<and> (inv s \<longrightarrow> inv s')"
proof (induction es arbitrary: s es' ch s')
  case (Cons e es)
  obtain t l where e: "e = (t, l)" by fastforce
  obtain c s1 where c: "f t s = (c, s1)" by fastforce
  obtain es1 ch1 s2 where r: "rename_edges f es s1 = (es1, ch1, s2)" by (cases "rename_edges f es s1")
  note IH = Cons.IH [OF r]
  have res: "es' = (c, l) # es1" "ch \<longleftrightarrow> c \<noteq> t \<or> ch1" "s' = s2"
    using Cons.prems by (simp_all add: e c r)
  have "look s1 \<subseteq>\<^sub>m look s2" using IH by simp
  note k = answer_kept [OF c this]
  show ?case
    using IH k inv_f [OF _ c] by (simp add: res e domI)
qed simp

lemma gmap_loop_answers:
  "gmap_loop f h g ch s = ((g', ch'), s') \<Longrightarrow>
   look s \<subseteq>\<^sub>m look s' \<and> nodes_of h \<subseteq> dom (look s') \<and>
   g' = fold (\<lambda>(n, es). map_put (the (look s' n)) (map (\<lambda>(t, l). (the (look s' t), l)) es)) h g \<and>
   (ch' \<longleftrightarrow> ch \<or> (\<exists>n \<in> nodes_of h. the (look s' n) \<noteq> n)) \<and> (inv s \<longrightarrow> inv s')"
proof (induction h arbitrary: s g ch)
  case (Cons p h)
  obtain n es where p: "p = (n, es)" by fastforce
  obtain c s1 where c: "f n s = (c, s1)" by fastforce
  obtain es1 ch1 s2 where r: "rename_edges f es s1 = (es1, ch1, s2)" by (cases "rename_edges f es s1")
  have rest: "gmap_loop f h (map_put c es1 g) (ch \<or> c \<noteq> n \<or> ch1) s2 = ((g', ch'), s')"
    using Cons.prems by (simp add: p c r)
  note E = rename_edges_answers [OF r] and IH = Cons.IH [OF rest]
  have le: "look s1 \<subseteq>\<^sub>m look s'"
    using E IH map_le_trans by blast
  have sub: "fst ` set es \<subseteq> dom (look s')"
    using E IH map_le_implies_dom_le subset_trans by metis
  have same: "the (look s2 t) = the (look s' t)" if "t \<in> fst ` set es" for t
    using E IH that by (metis map_le_def subsetD)
  have es1: "es1 = map (\<lambda>(t, l). (the (look s' t), l)) es"
    using E same by (simp add: case_prod_beta')
  have ch1: "ch1 \<longleftrightarrow> (\<exists>t \<in> fst ` set es. the (look s' t) \<noteq> t)"
    using E same by simp
  have nodes: "nodes_of (p # h) = insert n (fst ` set es \<union> nodes_of h)"
    by (auto simp: nodes_of_def p targets_Cons)
  note k = answer_kept [OF c le]
  have "inv s \<longrightarrow> inv s'" using inv_f [OF _ c] E IH by blast
  moreover have "ch' \<longleftrightarrow> ch \<or> (\<exists>m \<in> nodes_of (p # h). the (look s' m) \<noteq> m)"
    using IH k(1) unfolding nodes ch1 by (simp add: bex_Un)
  moreover have "nodes_of (p # h) \<subseteq> dom (look s')"
    using IH sub k(1) unfolding nodes by (simp add: domI)
  ultimately show ?case
    using IH k by (simp add: p es1)
qed (auto simp: nodes_of_def targets_def)

lemma gmap_answers:
  assumes "gmap h f s = ((g, ch), s')"
  shows "look s \<subseteq>\<^sub>m look s' \<and> nodes_of h \<subseteq> dom (look s') \<and>
    g = rename_graph (\<lambda>n. the (look s' n)) h \<and>
    (ch \<longleftrightarrow> (\<exists>n \<in> nodes_of h. the (look s' n) \<noteq> n)) \<and> (inv s \<longrightarrow> inv s')"
  using gmap_loop_answers [of h "[]" False s g ch s'] assms
  by (simp add: gmap_def rename_graph_def)

end

section \<open>The callback of freshClone\<close>

text \<open>
  The answers so far, seen from a start value \<open>lab\<close> of the counter: each is the node itself with a
  label of its own that was taken after \<open>lab\<close>, and the map of parents, if there is one, leads back.
\<close>

definition fresh_ok :: "nat \<Rightarrow> bool \<Rightarrow> fresh_state \<Rightarrow> bool" where
  "fresh_ok lab tracked s \<longleftrightarrow> (parents s \<noteq> None) = tracked \<and> map_ok (mappings s) \<and> LABEL s = lab + length (mappings s) \<and>
     (\<forall>n c. map_of (mappings s) n = Some c \<longrightarrow>
        c = n\<lparr>label := label c\<rparr> \<and> lab < label c \<and> label c \<le> LABEL s \<and>
        (\<forall>p. parents s = Some p \<longrightarrow> map_of p c = Some n) \<and>
        (\<forall>n' c'. map_of (mappings s) n' = Some c' \<and> label c' = label c \<longrightarrow> n' = n))"

lemma length_put_new: "k \<notin> keys m \<Longrightarrow> length (map_put k v m) = Suc (length m)"
  by (induction k v m rule: map_put.induct) auto

lemma fresh_ok_state:
  assumes "fresh_ok lab tracked s"
  shows "map_ok (mappings s)" and "LABEL s = lab + length (mappings s)"
    and "(parents s \<noteq> None) = tracked"
  using assms unfolding fresh_ok_def by blast+

lemma fresh_ok_entry:
  assumes "fresh_ok lab tracked s" and "map_of (mappings s) n = Some c"
  shows "c = n\<lparr>label := label c\<rparr>" "lab < label c" "label c \<le> LABEL s"
    and "parents s = Some p \<Longrightarrow> map_of p c = Some n"
    and "map_of (mappings s) n' = Some c' \<Longrightarrow> label c' = label c \<Longrightarrow> n' = n"
  using assms unfolding fresh_ok_def by blast+

lemma fresh_fun_ok:
  assumes ok: "fresh_ok lab tracked s" and f: "fresh_fun nd s = (c, s')"
  shows "fresh_ok lab tracked s'"
proof (cases "map_of (mappings s) nd")
  case None
  then have c: "c = nd\<lparr>label := LABEL s + 1\<rparr>"
    and s': "s' = \<lparr>mappings = map_put nd c (mappings s), parents = map_option (map_put c nd) (parents s),
      LABEL = LABEL s + 1\<rparr>"
    using f by (auto simp: fresh_fun_def clone_node_def Let_def)
  have lab: "lab < label c" "label c = LABEL s + 1"
    using fresh_ok_state(2) [OF ok] by (simp_all add: c)
  have old: "label d \<noteq> label c" "d \<noteq> c" if "map_of (mappings s) n = Some d" for n d
    using fresh_ok_entry(3) [OF ok that] lab by auto
  have entry: "d = n\<lparr>label := label d\<rparr> \<and> lab < label d \<and> label d \<le> LABEL s' \<and>
      (\<forall>p. parents s' = Some p \<longrightarrow> map_of p d = Some n) \<and>
      (\<forall>n' d'. map_of (mappings s') n' = Some d' \<and> label d' = label d \<longrightarrow> n' = n)"
    if d: "map_of (mappings s') n = Some d" for n d
  proof (cases "n = nd")
    case True
    then have "d = c" using d by (simp add: s')
    then show ?thesis using True lab old by (auto simp: s' c split: if_splits)
  next
    case False
    then have d': "map_of (mappings s) n = Some d" using d by (simp add: s')
    note e = fresh_ok_entry [OF ok d']
    have "n' = n" if "map_of (mappings s') n' = Some d'" "label d' = label d" for n' d'
      using that old [OF d'] e(5) by (auto simp: s' split: if_splits)
    moreover have "map_of p d = Some n" if "parents s' = Some p" for p
      using that old [OF d'] e(4) by (auto simp: s')
    ultimately show ?thesis
      using e(1-3) by (auto simp: s')
  qed
  have "map_ok (mappings s')" "LABEL s' = lab + length (mappings s')" "(parents s' \<noteq> None) = tracked"
    using fresh_ok_state [OF ok] None by (simp_all add: s' map_wf length_put_new map_of_None_keys)
  with entry show ?thesis
    unfolding fresh_ok_def by blast
next
  case (Some c')
  then show ?thesis using ok f by (simp add: fresh_fun_def)
qed

interpretation fresh: memo_rename fresh_fun "\<lambda>s. map_of (mappings s)" "fresh_ok lab tracked" for lab tracked
proof
  show "map_of (mappings s') n = Some c" if "fresh_fun n s = (c, s')" for n s c s'
    using that by (auto simp: fresh_fun_def Let_def split: option.splits)
  show "map_of (mappings s) \<subseteq>\<^sub>m map_of (mappings s')" if "fresh_fun n s = (c, s')" for n s c s'
    using that by (auto simp: fresh_fun_def Let_def map_le_def dom_def split: option.splits)
qed (rule fresh_fun_ok)


definition relabel :: "nat \<Rightarrow> node_t \<Rightarrow> node_t" where
  "relabel L n = n\<lparr>label := L\<rparr>"

lemma relabel_relabel [simp]: "relabel L (relabel M n) = relabel L n"
  by (simp add: relabel_def)

lemma setLabel_rename: "setLabel h L = rename_graph (relabel L) h"
  by (simp add: setLabel_def rename_graph_def relabel_def)

lemma clone_graph_setLabel: "clone_graph h s L = (setLabel h L, relabel L s, L + 1)"
  by (simp add: clone_graph_def setLabel_def relabel_def)

text \<open>Renaming twice, and renaming by the identity.\<close>

lemma map_put_last: "\<forall>k' \<in> keys m. k' < k \<Longrightarrow> map_put k v m = m @ [(k, v)]"
  by (induction k v m rule: map_put.induct) auto

lemma rename_graph_fixed:
  assumes "map_ok h" and "\<And>n. n \<in> nodes_of h \<Longrightarrow> r n = n"
  shows "rename_graph r h = h"
proof -
  have "fold (\<lambda>(n, es). map_put (r n) (map (\<lambda>(t, l). (r t, l)) es)) h c = c @ h"
    if "map_ok (c @ h)" "\<And>n. n \<in> nodes_of h \<Longrightarrow> r n = n" for c
    using that
  proof (induction h arbitrary: c)
    case (Cons p h)
    obtain n es where p: "p = (n, es)" by fastforce
    have "r n = n" "map (\<lambda>(t, l). (r t, l)) es = es"
      using Cons.prems(2) by (auto simp: p nodes_of_def targets_Cons intro!: map_idI)
    moreover have "map_put n es c = c @ [(n, es)]"
      using Cons.prems(1) by (intro map_put_last) (auto simp: p map_ok_def sorted_wrt_append)
    moreover have "\<And>n. n \<in> nodes_of h \<Longrightarrow> r n = n"
      using Cons.prems(2) by (auto simp: p nodes_of_def targets_Cons)
    ultimately show ?case
      using Cons.IH [of "c @ [p]"] Cons.prems(1) by (simp add: p)
  qed simp
  from this [of "[]"] assms show ?thesis by (simp add: rename_graph_def)
qed

lemma nodes_of_rename: "map_ok h \<Longrightarrow> nodes_of (rename_graph r h) \<subseteq> r ` nodes_of h"
proof -
  have "targets (fold (\<lambda>(n, es) c. map_put (r n) (map (\<lambda>(t, l). (r t, l)) es) c) h c) \<subseteq>
      targets c \<union> r ` targets h" for c
  proof (induction h arbitrary: c)
    case (Cons p h)
    have "targets (map_put k v m) \<subseteq> fst ` set v \<union> targets m" for k v and m :: "'a edge_holder"
      by (induction k v m rule: map_put.induct) (auto simp: targets_Cons)
    from this [of "r (fst p)" "map (\<lambda>(t, l). (r t, l)) (snd p)" c] Cons.IH
    show ?case
      by (cases p) (force simp: targets_Cons)
  qed simp
  from this [of "[]"] show ?thesis
    unfolding nodes_of_def keys_rename by (auto simp: rename_graph_def)
qed

section \<open>Properties\<close>



text \<open>
  C13: \<open>freshClone\<close> copies a graph onto new nodes. There is a renaming that changes only labels,
  gives every node of the graph, the start and the end node a label of its own above the old value
  of the counter and at most the new one, and turns the graph, the start and the end node into the
  results. When a map of parents is passed, it leads from every new node back to the old one.
\<close>

theorem freshClone_isomorphic:
  assumes h: "map_ok h" and fc: "freshClone h start fin par lab = (c, start', fin', s)"
  shows "\<exists>r. start' = r start \<and> fin' = r fin \<and>
    inj_on (\<lambda>n. label (r n)) (insert start (insert fin (nodes_of h))) \<and>
    (\<forall>n \<in> insert start (insert fin (nodes_of h)).
       r n = clone_node n (label (r n)) \<and> lab < label (r n) \<and> label (r n) \<le> LABEL s \<and>
       (par \<noteq> None \<longrightarrow> map_of (the (parents s)) (r n) = Some n)) \<and>
    map_ok c \<and> keys c = r ` keys h \<and>
    (\<forall>n \<in> nodes_of h. neighbors_or_empty c (r n) = map (\<lambda>(t, l). (r t, l)) (neighbors_or_empty h n))"
proof -
  let ?s0 = "\<lparr>mappings = [], parents = par, LABEL = lab\<rparr> :: fresh_state"
  let ?N = "insert start (insert fin (nodes_of h))"
  obtain a s1 b s2 c' ch s3 where run: "fresh_fun start ?s0 = (a, s1)" "fresh_fun fin s1 = (b, s2)"
      "gmap h fresh_fun s2 = ((c', ch), s3)"
    by (metis surj_pair)
  then have f1: "fresh_fun start ?s0 = (start', s1)" and f2: "fresh_fun fin s1 = (fin', s2)"
    and g: "gmap h fresh_fun s2 = ((c, ch), s)"
    using fc by (simp_all add: freshClone_def)
  define r where "r n = the (map_of (mappings s) n)" for n
  note ans = fresh.gmap_answers [OF g]
  have "fresh_ok lab (par \<noteq> None) ?s0" by (simp add: fresh_ok_def)
  then have ok: "fresh_ok lab (par \<noteq> None) s"
    using fresh_fun_ok [OF _ f1] fresh_fun_ok [OF _ f2] ans by blast
  have start: "map_of (mappings s) start = Some start'"
    using fresh.answer_kept [OF f1] fresh.answer_kept [OF f2] ans by blast
  have fin: "map_of (mappings s) fin = Some fin'"
    using fresh.answer_kept [OF f2] ans by blast
  have r: "map_of (mappings s) n = Some (r n)" if "n \<in> ?N" for n
  proof -
    have "n \<in> dom (map_of (mappings s))"
      using that start fin ans by blast
    then show ?thesis by (auto simp: r_def)
  qed
  have inj: "inj_on (\<lambda>n. label (r n)) ?N"
    by (rule inj_onI) (metis r fresh_ok_entry(5) [OF ok])
  then have "inj_on r (nodes_of h)"
    by (auto simp: inj_on_def)
  moreover have c: "c = rename_graph r h"
    using ans by (simp add: r_def [abs_def])
  ultimately have "\<forall>n \<in> nodes_of h. neighbors_or_empty c (r n) = map (\<lambda>(t, l). (r t, l)) (neighbors_or_empty h n)"
    using neighbors_rename [OF h] by blast
  moreover have "map_ok c" "keys c = r ` keys h"
    unfolding c by (rule map_ok_rename, rule keys_rename)
  moreover have "r n = clone_node n (label (r n)) \<and> lab < label (r n) \<and> label (r n) \<le> LABEL s \<and>
      (par \<noteq> None \<longrightarrow> map_of (the (parents s)) (r n) = Some n)" if "n \<in> ?N" for n
  proof -
    note e = fresh_ok_entry [OF ok r [OF that]]
    have "par \<noteq> None \<longrightarrow> map_of (the (parents s)) (r n) = Some n"
      using e(4) fresh_ok_state(3) [OF ok] by (metis option.collapse)
    then show ?thesis
      using e(1-3) unfolding clone_node_def by blast
  qed
  moreover have "start' = r start" "fin' = r fin"
    by (simp_all add: r_def start fin)
  ultimately show ?thesis
    using inj by (intro exI [of _ r] conjI ballI) blast+
qed

theorem freshClone_isomorphic_witness:
  "map_ok [(mk_node 1, [(mk_node 2, 0)])] \<and>
   freshClone [(mk_node 1, [(mk_node 2, 0)])] (mk_node 1) (mk_node 2) (Some []) 7 =
     ([((mk_node 1)\<lparr>label := 8\<rparr>, [((mk_node 2)\<lparr>label := 9\<rparr>, 0)])],
      (mk_node 1)\<lparr>label := 8\<rparr>, (mk_node 2)\<lparr>label := 9\<rparr>,
      \<lparr>mappings = [(mk_node 1, (mk_node 1)\<lparr>label := 8\<rparr>), (mk_node 2, (mk_node 2)\<lparr>label := 9\<rparr>)],
       parents = Some [((mk_node 1)\<lparr>label := 8\<rparr>, mk_node 1), ((mk_node 2)\<lparr>label := 9\<rparr>, mk_node 2)],
       LABEL = 9\<rparr>)"
proof -
  have h: "map_ok [(mk_node 1, [(mk_node 2, 0)])]" by (simp add: map_ok_def)
  have fc: "freshClone [(mk_node 1, [(mk_node 2, 0)])] (mk_node 1) (mk_node 2) (Some []) 7 =
     ([((mk_node 1)\<lparr>label := 8\<rparr>, [((mk_node 2)\<lparr>label := 9\<rparr>, 0)])],
      (mk_node 1)\<lparr>label := 8\<rparr>, (mk_node 2)\<lparr>label := 9\<rparr>,
      \<lparr>mappings = [(mk_node 1, (mk_node 1)\<lparr>label := 8\<rparr>), (mk_node 2, (mk_node 2)\<lparr>label := 9\<rparr>)],
       parents = Some [((mk_node 1)\<lparr>label := 8\<rparr>, mk_node 1), ((mk_node 2)\<lparr>label := 9\<rparr>, mk_node 2)],
       LABEL = 9\<rparr>)"
    by code_simp
  show ?thesis
    using freshClone_isomorphic [OF h fc] h fc by blast
qed

text \<open>
  C31: labels are not always fresh. \<open>setLabel(holder)\<close> takes the incremented value of the counter
  and leaves it there; \<open>clone\<close> takes the value of the counter before incrementing it. So a clone
  of the graph that was labelled last has the same nodes as that graph: it is the graph itself.
\<close>

theorem clone_after_setLabel:
  assumes "map_ok h"
  shows "clone_graph (fst (setLabel_next h L)) s (snd (setLabel_next h L)) =
    (fst (setLabel_next h L), relabel (L + 1) s, L + 2)"
proof -
  have "relabel (L + 1) n = n" if "n \<in> nodes_of (setLabel h (L + 1))" for n
    using nodes_of_rename [OF assms, of "relabel (L + 1)"] that by (auto simp: setLabel_rename)
  then have "setLabel (setLabel h (L + 1)) (L + 1) = setLabel h (L + 1)"
    unfolding setLabel_rename by (intro rename_graph_fixed map_ok_rename)
  then show ?thesis
    by (simp add: setLabel_next_def clone_graph_setLabel)
qed

theorem clone_after_setLabel_witness:
  "map_ok [(mk_node 1, [(mk_node 2, 0)])] \<and>
   fst (setLabel_next [(mk_node 1, [(mk_node 2, 0)])] 1) =
     [((mk_node 1)\<lparr>label := 2\<rparr>, [((mk_node 2)\<lparr>label := 2\<rparr>, 0)])] \<and>
   fst (clone_graph [((mk_node 1)\<lparr>label := 2\<rparr>, [((mk_node 2)\<lparr>label := 2\<rparr>, 0)])] (mk_node 1) 2) =
     [((mk_node 1)\<lparr>label := 2\<rparr>, [((mk_node 2)\<lparr>label := 2\<rparr>, 0)])]"
proof -
  have h: "map_ok [(mk_node 1, [(mk_node 2, 0)])]" by (simp add: map_ok_def)
  have s: "setLabel_next [(mk_node 1, [(mk_node 2, 0)])] 1 =
      ([((mk_node 1)\<lparr>label := 2\<rparr>, [((mk_node 2)\<lparr>label := 2\<rparr>, 0)])], 2)"
    by code_simp
  show ?thesis
    using clone_after_setLabel [OF h, of 1 "mk_node 1"] h unfolding s by simp
qed

end
