(* ===== verification/Ordered_Containers.thy ===== *)
theory Ordered_Containers
  imports Cfg_Types
begin

text \<open>
  \<open>ordered_map\<close> and \<open>ordered_set\<close> (\<open>lib/ordered_map.h\<close>, \<open>lib/ordered_set.h\<close>): containers that
  iterate in the order of insertion. Both keep the elements in a \<open>std::list\<close> called \<open>data\<close> and an
  index \<open>data_map\<close>, a \<open>std::map\<close> from (a pointer to) a key to the list iterator of its element.

  A list node is a pair of its address and its element, an iterator is the address or, for
  \<open>data.end()\<close>, \<open>None\<close>, and \<open>fresh\<close> is the next address the allocator hands out. The pointers that
  are the keys of \<open>data_map\<close> are compared by what they point to, so they are modelled by the key.
  What the index promises is the invariant \<open>idx_ok\<close>; what a client sees are the lists \<open>entries\<close>
  and \<open>elements\<close>, and every operation is shown to act on them as an association list in insertion
  order does.
\<close>

section \<open>The index of a list\<close>

type_synonym 'a nodes = "(nat \<times> 'a) list"

definition idx_ok :: "'k::linorder nodes \<Rightarrow> ('k, nat) std_map \<Rightarrow> nat \<Rightarrow> bool" where
  "idx_ok ns mp nx \<longleftrightarrow> distinct (map fst ns) \<and> distinct (map snd ns) \<and>
     (\<forall>i \<in> fst ` set ns. i < nx) \<and> map_ok mp \<and> (\<forall>k i. map_of mp k = Some i \<longleftrightarrow> (i, k) \<in> set ns)"

text \<open>\<open>list::insert(pos, x)\<close> and \<open>list::erase(pos)\<close>.\<close>

fun insert_before :: "nat option \<Rightarrow> nat \<times> 'a \<Rightarrow> 'a nodes \<Rightarrow> 'a nodes" where
  "insert_before p x [] = [x]"
| "insert_before p x (y # ys) = (if p = Some (fst y) then x # y # ys else y # insert_before p x ys)"

definition erase_node :: "nat \<Rightarrow> 'a nodes \<Rightarrow> 'a nodes" where
  "erase_node p ns = filter (\<lambda>n. fst n \<noteq> p) ns"

text \<open>\<open>init_data_map\<close>.\<close>

definition init_data_map :: "'k::linorder nodes \<Rightarrow> ('k, nat) std_map" where
  "init_data_map ns = fold (\<lambda>(i, k) mp. map_emplace k i mp) ns []"

subsection \<open>Lemmas\<close>

lemma idx_ok_entry: "idx_ok ns mp nx \<Longrightarrow> map_of mp k = Some i \<longleftrightarrow> (i, k) \<in> set ns"
  unfolding idx_ok_def by blast

lemma idx_ok_parts:
  assumes "idx_ok ns mp nx"
  shows "distinct (map fst ns)" "distinct (map snd ns)" "map_ok mp" "n \<in> set ns \<Longrightarrow> fst n < nx"
  using assms unfolding idx_ok_def by blast+

lemma idx_okI:
  assumes "distinct (map fst ns)" "distinct (map snd ns)" "map_ok mp" "\<And>n. n \<in> set ns \<Longrightarrow> fst n < nx"
    and "\<And>k i. map_of mp k = Some i \<longleftrightarrow> (i, k) \<in> set ns"
  shows "idx_ok ns mp nx"
  using assms unfolding idx_ok_def by blast

lemma idx_ok_find:
  assumes "idx_ok ns mp nx"
  shows "map_of mp k = None \<longleftrightarrow> k \<notin> snd ` set ns"
proof
  assume "map_of mp k = None"
  then show "k \<notin> snd ` set ns" using idx_ok_entry [OF assms, of k] by auto
next
  assume "k \<notin> snd ` set ns"
  then show "map_of mp k = None"
    by (metis idx_ok_entry [OF assms] image_eqI not_None_eq snd_conv)
qed

lemma idx_ok_insert:
  assumes ok: "idx_ok (xs @ ys) mp nx" and k: "k \<notin> snd ` set (xs @ ys)"
  shows "idx_ok (xs @ (nx, k) # ys) (map_emplace k nx mp) (nx + 1)"
proof (rule idx_okI)
  note parts = idx_ok_parts [OF ok]
  have nx: "nx \<notin> fst ` set (xs @ ys)"
    using parts(4) by force
  show "distinct (map fst (xs @ (nx, k) # ys))" "distinct (map snd (xs @ (nx, k) # ys))"
    using parts(1,2) nx k by auto
  show "map_ok (map_emplace k nx mp)" using parts(3) by (rule map_ok_emplace)
  show "fst n < nx + 1" if "n \<in> set (xs @ (nx, k) # ys)" for n
    using that parts(4) [of n] by auto
  have "map_of mp k = None"
    using idx_ok_find [OF ok] k by blast
  moreover have "(i, k) \<notin> set (xs @ ys)" for i
    using k by force
  ultimately show "map_of (map_emplace k nx mp) k' = Some i \<longleftrightarrow> (i, k') \<in> set (xs @ (nx, k) # ys)" for k' i
    using idx_ok_entry [OF ok, of k' i] by (cases "k' = k") (simp_all add: map_of_emplace eq_commute)
qed

lemma idx_ok_erase:
  assumes ok: "idx_ok (xs @ (i, k) # ys) mp nx"
  shows "idx_ok (xs @ ys) (map_erase k mp) nx"
proof (rule idx_okI)
  note parts = idx_ok_parts [OF ok]
  show "distinct (map fst (xs @ ys))" "distinct (map snd (xs @ ys))"
    using parts(1,2) by auto
  show "map_ok (map_erase k mp)" using parts(3) by (rule map_ok_erase)
  show "fst n < nx" if "n \<in> set (xs @ ys)" for n
    using that parts(4) [of n] by auto
  have "(j, k) \<notin> set (xs @ ys)" for j
    using parts(2) by force
  then show "map_of (map_erase k mp) k' = Some j \<longleftrightarrow> (j, k') \<in> set (xs @ ys)" for k' j
    using idx_ok_entry [OF ok, of k' j] by (cases "k' = k") (simp_all add: map_of_erase)
qed

lemma insert_before_split: "\<exists>xs ys. ns = xs @ ys \<and> insert_before p x ns = xs @ x # ys"
proof (induction ns)
  case (Cons y ns)
  then obtain xs ys where "ns = xs @ ys" "insert_before p x ns = xs @ x # ys"
    by blast
  then have "y # ns = (y # xs) @ ys \<and> y # insert_before p x ns = (y # xs) @ x # ys"
    by simp
  then have "\<exists>xs ys. y # ns = xs @ ys \<and> y # insert_before p x ns = xs @ x # ys"
    by blast
  then show ?case
    by (cases "p = Some (fst y)") (auto intro: exI [of _ "[]"])
qed simp

lemma insert_before_end [simp]: "insert_before None x ns = ns @ [x]"
  by (induction ns) auto

lemma erase_node_split:
  assumes "distinct (map fst (xs @ (i, k) # ys))"
  shows "erase_node i (xs @ (i, k) # ys) = xs @ ys"
proof -
  have "filter (\<lambda>n. fst n \<noteq> i) xs = xs" "filter (\<lambda>n. fst n \<noteq> i) ys = ys"
    using assms by (auto intro!: filter_True)
  then show ?thesis by (simp add: erase_node_def)
qed

lemma map_of_init_data_map:
  "map_of (init_data_map ns) k = map_of (map (\<lambda>(i, k). (k, i)) ns) k"
proof -
  have "map_of (fold (\<lambda>(i, k) mp. map_emplace k i mp) ns mp) k =
      (case map_of mp k of None \<Rightarrow> map_of (map (\<lambda>(i, k). (k, i)) ns) k | Some i \<Rightarrow> Some i)" for mp
    by (induction ns arbitrary: mp) (auto simp: map_lookup split: option.splits)
  then show ?thesis by (simp add: init_data_map_def)
qed

lemma map_ok_init_data_map: "map_ok (init_data_map ns)"
proof -
  have "map_ok mp \<Longrightarrow> map_ok (fold (\<lambda>(i, k) mp. map_emplace k i mp) ns mp)" for mp
    by (induction ns arbitrary: mp) (auto simp: map_wf)
  then show ?thesis by (simp add: init_data_map_def)
qed

lemma idx_ok_init:
  assumes "distinct (map fst ns)" and d: "distinct (map snd ns)" and "\<And>n. n \<in> set ns \<Longrightarrow> fst n < nx"
  shows "idx_ok ns (init_data_map ns) nx"
proof (rule idx_okI)
  let ?sw = "map (\<lambda>(i, k). (k, i)) ns"
  have "distinct (map fst ?sw)"
    using d by (simp add: comp_def case_prod_beta')
  then have "map_of ?sw k = Some i \<longleftrightarrow> (k, i) \<in> set ?sw" for k i
    by (rule map_of_eq_Some_iff)
  then show "map_of (init_data_map ns) k = Some i \<longleftrightarrow> (i, k) \<in> set ns" for k i
    by (auto simp: map_of_init_data_map)
qed (use assms map_ok_init_data_map in auto)

section \<open>ordered_map\<close>

record ('k, 'v) ordered_map =
  om_data :: "('k \<times> 'v) nodes"
  om_data_map :: "('k, nat) std_map"
  om_fresh :: nat

text \<open>What iteration sees.\<close>

definition entries :: "('k, 'v) ordered_map \<Rightarrow> ('k \<times> 'v) list" where
  "entries m = map snd (om_data m)"

definition om_empty_map :: "('k, 'v) ordered_map" where
  "om_empty_map = \<lparr>om_data = [], om_data_map = [], om_fresh = 0\<rparr>"

text \<open>The iterator \<open>find(k)\<close>, \<open>count\<close>, \<open>size\<close>, \<open>empty\<close> and \<open>operator==\<close>.\<close>

definition om_find :: "('k, 'v) ordered_map \<Rightarrow> 'k \<Rightarrow> nat option" where
  "om_find m k = map_of (om_data_map m) k"

definition om_count :: "('k, 'v) ordered_map \<Rightarrow> 'k \<Rightarrow> nat" where
  "om_count m k = (case map_of (om_data_map m) k of None \<Rightarrow> 0 | Some _ \<Rightarrow> 1)"

definition om_size :: "('k, 'v) ordered_map \<Rightarrow> nat" where
  "om_size m = length (om_data_map m)"

definition om_empty :: "('k, 'v) ordered_map \<Rightarrow> bool" where
  "om_empty m \<longleftrightarrow> om_data m = []"

definition om_eq :: "('k, 'v) ordered_map \<Rightarrow> ('k, 'v) ordered_map \<Rightarrow> bool" where
  "om_eq m a \<longleftrightarrow> map snd (om_data m) = map snd (om_data a)"

text \<open>\<open>lower_bound\<close>, \<open>upper_bound\<close> and \<open>upper_bound_pred\<close> search the sorted index.\<close>

definition om_lower_bound :: "('k::linorder, 'v) ordered_map \<Rightarrow> 'k \<Rightarrow> nat option" where
  "om_lower_bound m k = map_option snd (List.find (\<lambda>e. \<not> fst e < k) (om_data_map m))"

definition om_upper_bound :: "('k::linorder, 'v) ordered_map \<Rightarrow> 'k \<Rightarrow> nat option" where
  "om_upper_bound m k = map_option snd (List.find (\<lambda>e. k < fst e) (om_data_map m))"

definition om_upper_bound_pred :: "('k::linorder, 'v) ordered_map \<Rightarrow> 'k \<Rightarrow> nat option" where
  "om_upper_bound_pred m k =
     (let below = takeWhile (\<lambda>e. \<not> k < fst e) (om_data_map m)
      in if below = [] then None else Some (snd (last below)))"

text \<open>
  \<open>at\<close> throws on a missing key; \<open>get\<close> returns its default. An iterator is dereferenced by
  looking for its node in the list: one that points to no node is dangling.
\<close>

definition om_at :: "('k, 'v) ordered_map \<Rightarrow> 'k \<Rightarrow> cxx_error + 'v" where
  "om_at m k =
     (case om_find m k of
        None \<Rightarrow> Inl OutOfRange
      | Some it \<Rightarrow> (case map_of (om_data m) it of None \<Rightarrow> Inl UndefinedBehaviour | Some e \<Rightarrow> Inr (snd e)))"

definition om_get :: "('k, 'v) ordered_map \<Rightarrow> 'k \<Rightarrow> 'v \<Rightarrow> 'v" where
  "om_get m k d =
     (case om_find m k of
        None \<Rightarrow> d
      | Some it \<Rightarrow> (case map_of (om_data m) it of None \<Rightarrow> d | Some e \<Rightarrow> snd e))"

text \<open>
  \<open>emplace_hint\<close> and \<open>insert\<close> at a position; \<open>emplace\<close> and \<open>insert\<close> without one insert at the
  end. The result is the iterator and whether an element was inserted.
\<close>

definition om_emplace_hint ::
  "nat option \<Rightarrow> 'k::linorder \<Rightarrow> 'v \<Rightarrow> ('k, 'v) ordered_map \<Rightarrow> ('k, 'v) ordered_map \<times> nat \<times> bool" where
  "om_emplace_hint p k v m =
     (case om_find m k of
        None \<Rightarrow>
          let it = om_fresh m
          in (\<lparr>om_data = insert_before p (it, k, v) (om_data m),
               om_data_map = map_emplace k it (om_data_map m), om_fresh = it + 1\<rparr>, it, True)
      | Some it \<Rightarrow> (m, it, False))"

definition om_emplace ::
  "'k::linorder \<Rightarrow> 'v \<Rightarrow> ('k, 'v) ordered_map \<Rightarrow> ('k, 'v) ordered_map \<times> nat \<times> bool" where
  "om_emplace k v m = om_emplace_hint None k v m"

definition om_insert_range :: "('k::linorder \<times> 'v) list \<Rightarrow> ('k, 'v) ordered_map \<Rightarrow> ('k, 'v) ordered_map" where
  "om_insert_range es m = fold (\<lambda>(k, v) m. fst (om_emplace k v m)) es m"

text \<open>\<open>operator[]\<close> with the default value \<open>d\<close> of the mapped type, and an assignment through it.\<close>

definition om_index :: "'v \<Rightarrow> 'k::linorder \<Rightarrow> ('k, 'v) ordered_map \<Rightarrow> ('k, 'v) ordered_map \<times> nat" where
  "om_index d k m =
     (case om_find m k of
        None \<Rightarrow>
          let it = om_fresh m
          in (\<lparr>om_data = om_data m @ [(it, k, d)],
               om_data_map = map_emplace k it (om_data_map m), om_fresh = it + 1\<rparr>, it)
      | Some it \<Rightarrow> (m, it))"

definition om_assign :: "'v \<Rightarrow> 'k::linorder \<Rightarrow> 'v \<Rightarrow> ('k, 'v) ordered_map \<Rightarrow> ('k, 'v) ordered_map" where
  "om_assign d k v m =
     (let (m', it) = om_index d k m
      in m'\<lparr>om_data := map (\<lambda>(i, k, w). (i, k, if i = it then v else w)) (om_data m')\<rparr>)"

text \<open>\<open>erase(pos)\<close>, \<open>erase(k)\<close> with the number of erased elements, and \<open>clear\<close>.\<close>

definition om_erase_at :: "nat \<Rightarrow> ('k, 'v) ordered_map \<Rightarrow> ('k, 'v) ordered_map" where
  "om_erase_at p m =
     (case map_of (om_data m) p of
        None \<Rightarrow> m
      | Some e \<Rightarrow> m\<lparr>om_data := erase_node p (om_data m), om_data_map := map_erase (fst e) (om_data_map m)\<rparr>)"

definition om_erase :: "'k \<Rightarrow> ('k, 'v) ordered_map \<Rightarrow> ('k, 'v) ordered_map \<times> nat" where
  "om_erase k m =
     (case om_find m k of
        None \<Rightarrow> (m, 0)
      | Some it \<Rightarrow>
          (m\<lparr>om_data := erase_node it (om_data m), om_data_map := map_erase k (om_data_map m)\<rparr>, 1))"


text \<open>
  The copy constructor, the copy assignment and the constructor from an initializer list fill a
  new list and rebuild the index.
\<close>

definition om_of_list :: "('k::linorder \<times> 'v) list \<Rightarrow> ('k, 'v) ordered_map" where
  "om_of_list il =
     (let d = zip [0..<length il] il
      in \<lparr>om_data = d, om_data_map = init_data_map (map (\<lambda>(i, k, v). (i, k)) d), om_fresh = length il\<rparr>)"




subsection \<open>The invariant and the entries\<close>

definition key_nodes :: "('k \<times> 'v) nodes \<Rightarrow> 'k nodes" where
  "key_nodes d = map (\<lambda>(i, k, v). (i, k)) d"

definition om_ok :: "('k::linorder, 'v) ordered_map \<Rightarrow> bool" where
  "om_ok m \<longleftrightarrow> idx_ok (key_nodes (om_data m)) (om_data_map m) (om_fresh m)"

text \<open>The specification of an assignment: in place, or at the end.\<close>

fun al_put :: "'k \<Rightarrow> 'v \<Rightarrow> ('k \<times> 'v) list \<Rightarrow> ('k \<times> 'v) list" where
  "al_put k v [] = [(k, v)]"
| "al_put k v ((k', w) # m) = (if k = k' then (k, v) # m else (k', w) # al_put k v m)"

lemma key_nodes_simps [simp]:
  "key_nodes [] = []" "key_nodes ((i, k, v) # d) = (i, k) # key_nodes d"
  "key_nodes (d @ d') = key_nodes d @ key_nodes d'"
  by (simp_all add: key_nodes_def)

lemma fst_key_nodes [simp]: "map fst (key_nodes d) = map fst d"
  by (auto simp: key_nodes_def)

lemma snd_key_nodes: "map snd (key_nodes d) = map fst (map snd d)"
  by (auto simp: key_nodes_def)

lemma keys_key_nodes: "snd ` set (key_nodes d) = keys (map snd d)"
  by (force simp: key_nodes_def)

lemma al_put_new: "k \<notin> keys m \<Longrightarrow> al_put k v m = m @ [(k, v)]"
  by (induction k v m rule: al_put.induct) auto

lemma al_put_old: "k \<notin> keys xs \<Longrightarrow> al_put k v (xs @ (k, w) # ys) = xs @ (k, v) # ys"
  by (induction xs) auto

lemma map_of_al_put: "map_of (al_put k v m) x = (if x = k then Some v else map_of m x)"
  by (induction k v m rule: al_put.induct) auto

lemma om_ok_distinct: "om_ok m \<Longrightarrow> distinct (map fst (entries m))"
  using idx_ok_parts(2) unfolding om_ok_def entries_def snd_key_nodes [symmetric] by blast

lemma om_find_None: "om_ok m \<Longrightarrow> om_find m k = None \<longleftrightarrow> k \<notin> keys (entries m)"
  unfolding om_ok_def om_find_def entries_def keys_key_nodes [symmetric] by (rule idx_ok_find)

lemma om_find_Some:
  assumes ok: "om_ok m" and f: "om_find m k = Some it"
  obtains xs v ys where "om_data m = xs @ (it, k, v) # ys" "distinct (map fst (xs @ (it, k, v) # ys))"
    "k \<notin> keys (map snd xs)" "k \<notin> keys (map snd ys)"
proof -
  have "(it, k) \<in> set (key_nodes (om_data m))"
    using idx_ok_entry [OF ok [unfolded om_ok_def]] f by (simp add: om_find_def)
  then obtain v where "(it, k, v) \<in> set (om_data m)"
    by (auto simp: key_nodes_def)
  then obtain xs ys where s: "om_data m = xs @ (it, k, v) # ys"
    by (meson split_list)
  have "distinct (map fst (map snd (om_data m)))"
    using om_ok_distinct [OF ok] by (simp add: entries_def)
  then have "k \<notin> keys (map snd xs)" "k \<notin> keys (map snd ys)"
    by (simp_all add: s image_image)
  moreover have "distinct (map fst (om_data m))"
    using idx_ok_parts(1) [OF ok [unfolded om_ok_def]] by simp
  ultimately show thesis
    using that s by metis
qed

lemma om_value:
  assumes ok: "om_ok m" and f: "om_find m k = Some it"
  shows "\<exists>v. map_of (om_data m) it = Some (k, v) \<and> map_of (entries m) k = Some v"
proof -
  from ok f obtain xs v ys where s: "om_data m = xs @ (it, k, v) # ys"
    "distinct (map fst (xs @ (it, k, v) # ys))" "k \<notin> keys (map snd xs)"
    by (rule om_find_Some)
  moreover have "map_of xs it = None"
    using s(2) by (simp add: map_of_eq_None_iff)
  moreover have "map_of (map snd xs) k = None"
    using s(3) by (simp only: map_of_None_keys) simp
  ultimately show ?thesis
    by (simp add: entries_def map_add_def)
qed

lemma om_emplace_new:
  assumes ok: "om_ok m" and k: "k \<notin> keys (entries m)"
  shows "om_ok \<lparr>om_data = insert_before p (om_fresh m, k, v) (om_data m),
    om_data_map = map_emplace k (om_fresh m) (om_data_map m), om_fresh = om_fresh m + 1\<rparr>"
proof -
  obtain xs ys where s: "om_data m = xs @ ys" "insert_before p (om_fresh m, k, v) (om_data m) = xs @ (om_fresh m, k, v) # ys"
    using insert_before_split by blast
  have "idx_ok (key_nodes xs @ (om_fresh m, k) # key_nodes ys) (map_emplace k (om_fresh m) (om_data_map m)) (om_fresh m + 1)"
    using ok k keys_key_nodes [of "om_data m"] by (intro idx_ok_insert) (simp_all add: om_ok_def s entries_def)
  then show ?thesis unfolding om_ok_def s(2) by simp
qed

lemma om_index_ok:
  assumes ok: "om_ok m" and i: "om_index d k m = (m', it)"
  shows "om_ok m' \<and> om_find m' k = Some it \<and>
    entries m' = (if k \<in> keys (entries m) then entries m else entries m @ [(k, d)])"
proof (cases "om_find m k")
  case None
  then have "k \<notin> keys (entries m)" using om_find_None [OF ok] by simp
  moreover from om_emplace_new [OF ok this, of None d] None i have "om_ok m'"
    by (auto simp: om_index_def Let_def)
  ultimately show ?thesis
    using None i by (auto simp: om_index_def Let_def entries_def om_find_def map_of_emplace)
next
  case (Some it')
  then have "k \<in> keys (entries m)" using om_find_None [OF ok, of k] by simp
  with Some i ok show ?thesis by (auto simp: om_index_def)
qed

lemma om_assign_ok:
  assumes ok: "om_ok m"
  shows "om_ok (om_assign d k v m) \<and> entries (om_assign d k v m) = al_put k v (entries m)"
proof -
  obtain m' it where i: "om_index d k m = (m', it)" by fastforce
  note m' = om_index_ok [OF ok i]
  obtain xs w ys where s: "om_data m' = xs @ (it, k, w) # ys"
    "distinct (map fst (xs @ (it, k, w) # ys))" "k \<notin> keys (map snd xs)"
    using m' by (elim conjE om_find_Some)
  define st where "st = map (\<lambda>(i, k, w). (i, k, if i = it then v else w)) (om_data m')"
  have "map (\<lambda>(i, k, w). (i, k, if i = it then v else w)) zs = zs" if "it \<notin> fst ` set zs"
    for zs :: "('a \<times> 'b) nodes"
    using that by (intro map_idI) (auto intro: rev_image_eqI)
  then have st: "st = xs @ (it, k, v) # ys"
    using s(2) by (simp add: st_def s(1))
  have res: "om_assign d k v m = m'\<lparr>om_data := st\<rparr>"
    by (simp add: om_assign_def i st_def)
  have "key_nodes st = key_nodes (om_data m')" by (simp add: st s(1))
  then have "om_ok (om_assign d k v m)" using m' by (simp add: res om_ok_def)
  moreover have "entries (om_assign d k v m) = al_put k v (entries m')"
    using al_put_old [OF s(3), of v w "map snd ys"] by (simp add: res entries_def st s(1))
  moreover have "al_put k v (entries m') = al_put k v (entries m)"
    using m' al_put_new [of k "entries m"] al_put_old [of k "entries m" v d "[]"] by auto
  ultimately show ?thesis by simp
qed

lemma om_erase_it:
  assumes ok: "om_ok m" and f: "om_find m k = Some it"
  defines "m' \<equiv> m\<lparr>om_data := erase_node it (om_data m), om_data_map := map_erase k (om_data_map m)\<rparr>"
  shows "om_ok m' \<and> entries m' = map_erase k (entries m)"
proof -
  from ok f obtain xs w ys where s: "om_data m = xs @ (it, k, w) # ys"
    "distinct (map fst (xs @ (it, k, w) # ys))" "k \<notin> keys (map snd xs)" "k \<notin> keys (map snd ys)"
    by (rule om_find_Some)
  have e: "erase_node it (om_data m) = xs @ ys"
    unfolding s(1) by (rule erase_node_split [OF s(2)])
  have "idx_ok (key_nodes xs @ key_nodes ys) (map_erase k (om_data_map m)) (om_fresh m)"
    using ok idx_ok_erase by (simp add: om_ok_def s(1))
  moreover have "map_erase k (map snd zs) = map snd zs" if "k \<notin> keys (map snd zs)" for zs :: "('a \<times> 'b) nodes"
    using that unfolding map_erase_def by (intro filter_True) auto
  ultimately show ?thesis
    using s(3,4) by (simp add: m'_def om_ok_def e [unfolded s(1)] entries_def s(1) map_erase_def)
qed

lemma om_erase_ok:
  assumes ok: "om_ok m"
  shows "om_ok (fst (om_erase k m)) \<and> entries (fst (om_erase k m)) = map_erase k (entries m) \<and>
    snd (om_erase k m) = om_count m k"
proof (cases "om_find m k")
  case None
  then have "k \<notin> keys (entries m)" using om_find_None [OF ok] by simp
  then have "map_erase k (entries m) = entries m"
    unfolding map_erase_def by (intro filter_True) auto
  with None ok show ?thesis by (simp add: om_erase_def om_count_def om_find_def)
next
  case (Some it)
  then show ?thesis
    using om_erase_it [OF ok Some] by (simp add: om_erase_def om_count_def om_find_def)
qed

lemma om_empty_map_ok: "om_ok om_empty_map" "entries om_empty_map = []"
  by (simp_all add: om_empty_map_def om_ok_def idx_ok_def entries_def)

text \<open>An \<open>ordered_map\<close> fulfils the contract of a keyed container.\<close>

interpretation ordered_map_container: keyed_container om_empty_map "om_assign d"
  "\<lambda>k m. fst (om_erase k m)" "\<lambda>m. map_of (entries m)" om_ok for d
  by unfold_locales (simp_all add: om_empty_map_ok om_assign_ok om_erase_ok map_of_al_put map_of_erase)


lemma om_keys_index: "om_ok m \<Longrightarrow> keys (om_data_map m) = keys (entries m)"
  using om_find_None [of m] map_of_None_keys [of "om_data_map m"] unfolding om_find_def by blast

lemma om_size_entries:
  assumes "om_ok m"
  shows "om_size m = length (entries m)"
proof -
  have "distinct (map fst (om_data_map m))"
    using idx_ok_parts(3) assms map_ok_distinct unfolding om_ok_def by blast
  then have "length (om_data_map m) = card (keys (om_data_map m))"
    using distinct_card by fastforce
  also have "\<dots> = length (entries m)"
    unfolding om_keys_index [OF assms] using distinct_card [OF om_ok_distinct [OF assms]] by simp
  finally show ?thesis by (simp add: om_size_def)
qed

lemma keys_init_data_map: "keys (init_data_map ns) = snd ` set ns"
proof -
  have "keys (fold (\<lambda>(i, k) mp. map_emplace k i mp) ns mp) = snd ` set ns \<union> keys mp" for mp
    by (induction ns arbitrary: mp) (simp_all add: case_prod_beta map_keys)
  from this [of "[]"] show ?thesis by (simp add: init_data_map_def)
qed

lemma entries_of_list [simp]: "entries (om_of_list il) = il"
  by (simp add: om_of_list_def entries_def Let_def)

lemma om_of_list_ok:
  assumes "distinct (map fst il)"
  shows "om_ok (om_of_list il)"
proof -
  let ?d = "zip [0..<length il] il"
  have "idx_ok (key_nodes ?d) (init_data_map (key_nodes ?d)) (length il)"
  proof (rule idx_ok_init)
    show "distinct (map snd (key_nodes ?d))"
      using assms by (simp only: snd_key_nodes) simp
    show "distinct (map fst (key_nodes ?d))" by simp
  qed (auto simp: key_nodes_def set_zip)
  then show ?thesis by (simp add: om_of_list_def om_ok_def Let_def key_nodes_def)
qed

lemma om_size_of_list: "om_size (om_of_list il) = card (keys il)"
proof -
  let ?d = "zip [0..<length il] il"
  have "om_size (om_of_list il) = card (keys (init_data_map (key_nodes ?d)))"
    using distinct_card [OF map_ok_distinct [OF map_ok_init_data_map [of "key_nodes ?d"]]]
    by (simp add: om_of_list_def om_size_def Let_def key_nodes_def)
  also have "keys (init_data_map (key_nodes ?d)) = keys il"
    unfolding keys_init_data_map keys_key_nodes by simp
  finally show ?thesis .
qed

text \<open>Searching the index, and sorting.\<close>

lemma find_Min:
  "map_ok mp \<Longrightarrow> map_option snd (List.find (\<lambda>e. P (fst e)) mp) =
     (if \<exists>k \<in> keys mp. P k then map_of mp (Min {k \<in> keys mp. P k}) else None)"
proof (induction mp)
  case (Cons e mp)
  obtain k v where e: "e = (k, v)" by fastforce
  have less: "\<forall>k' \<in> keys mp. k < k'" and ok: "map_ok mp"
    using Cons.prems by (auto simp: e map_ok_def)
  show ?case
  proof (cases "P k")
    case True
    then have "Min {k' \<in> keys (e # mp). P k'} = k"
      using less by (intro Min_eqI) (auto simp: e)
    with True show ?thesis by (auto simp: e)
  next
    case False
    then have eq: "{k' \<in> keys (e # mp). P k'} = {k' \<in> keys mp. P k'}"
      by (auto simp: e)
    have "Min {k' \<in> keys mp. P k'} \<noteq> k" if "\<exists>k' \<in> keys mp. P k'"
      using Min_in [of "{k' \<in> keys mp. P k'}"] that less by fastforce
    with False show ?thesis
      unfolding eq using Cons.IH [OF ok] by (auto simp: e)
  qed
qed simp

lemma om_bounds:
  assumes "om_ok m"
  shows "om_lower_bound m k =
      (if \<exists>k' \<in> keys (entries m). k \<le> k' then om_find m (Min {k' \<in> keys (entries m). k \<le> k'}) else None)"
    and "om_upper_bound m k =
      (if \<exists>k' \<in> keys (entries m). k < k' then om_find m (Min {k' \<in> keys (entries m). k < k'}) else None)"
proof -
  have "map_ok (om_data_map m)"
    using assms idx_ok_parts(3) unfolding om_ok_def by blast
  from find_Min [OF this] show "om_lower_bound m k =
      (if \<exists>k' \<in> keys (entries m). k \<le> k' then om_find m (Min {k' \<in> keys (entries m). k \<le> k'}) else None)"
    and "om_upper_bound m k =
      (if \<exists>k' \<in> keys (entries m). k < k' then om_find m (Min {k' \<in> keys (entries m). k < k'}) else None)"
    unfolding om_keys_index [OF assms] om_lower_bound_def om_upper_bound_def om_find_def not_less
    by blast+
qed





section \<open>ordered_set\<close>

record 't ordered_set =
  os_data :: "'t nodes"
  os_data_map :: "('t, nat) std_map"
  os_fresh :: nat

definition elements :: "'t ordered_set \<Rightarrow> 't list" where
  "elements s = map snd (os_data s)"

definition os_empty_set :: "'t ordered_set" where
  "os_empty_set = \<lparr>os_data = [], os_data_map = [], os_fresh = 0\<rparr>"

definition os_find :: "'t ordered_set \<Rightarrow> 't \<Rightarrow> nat option" where
  "os_find s x = map_of (os_data_map s) x"

definition os_count :: "'t ordered_set \<Rightarrow> 't \<Rightarrow> nat" where
  "os_count s x = (case map_of (os_data_map s) x of None \<Rightarrow> 0 | Some _ \<Rightarrow> 1)"

definition os_size :: "'t ordered_set \<Rightarrow> nat" where
  "os_size s = length (os_data_map s)"

text \<open>\<open>insert\<close> appends a missing element; its result is the iterator and whether it was inserted.\<close>

definition os_insert :: "'t::linorder \<Rightarrow> 't ordered_set \<Rightarrow> 't ordered_set \<times> nat \<times> bool" where
  "os_insert x s =
     (case os_find s x of
        None \<Rightarrow>
          let it = os_fresh s
          in (\<lparr>os_data = os_data s @ [(it, x)], os_data_map = map_emplace x it (os_data_map s),
               os_fresh = it + 1\<rparr>, it, True)
      | Some it \<Rightarrow> (s, it, False))"



definition os_insert_range :: "'t::linorder list \<Rightarrow> 't ordered_set \<Rightarrow> 't ordered_set" where
  "os_insert_range xs s = fold (\<lambda>x s. fst (os_insert x s)) xs s"



definition os_clear :: "'t ordered_set \<Rightarrow> 't ordered_set" where
  "os_clear s = s\<lparr>os_data := [], os_data_map := []\<rparr>"

definition os_of_list :: "'t::linorder list \<Rightarrow> 't ordered_set" where
  "os_of_list init =
     (let d = zip [0..<length init] init
      in \<lparr>os_data = d, os_data_map = init_data_map d, os_fresh = length init\<rparr>)"

definition os_copy :: "'t::linorder ordered_set \<Rightarrow> 't ordered_set" where
  "os_copy a = os_of_list (map snd (os_data a))"

text \<open>\<open>operator<\<close> walks the two indices, in the order of the elements.\<close>

fun os_less_loop :: "'t::linorder list \<Rightarrow> 't list \<Rightarrow> bool" where
  "os_less_loop [] ys = False"
| "os_less_loop (x # xs) [] = True"
| "os_less_loop (x # xs) (y # ys) = (if x < y then True else if y < x then False else os_less_loop xs ys)"

definition os_less :: "'t::linorder ordered_set \<Rightarrow> 't ordered_set \<Rightarrow> bool" where
  "os_less s a = os_less_loop (map fst (os_data_map s)) (map fst (os_data_map a))"




definition os_contains :: "'t ordered_set \<Rightarrow> 't list \<Rightarrow> bool" where
  "os_contains a b \<longleftrightarrow> list_all (\<lambda>el. os_count a el \<noteq> 0) b"

definition os_intersects :: "'t ordered_set \<Rightarrow> 't list \<Rightarrow> bool" where
  "os_intersects a b \<longleftrightarrow> list_ex (\<lambda>el. os_count a el \<noteq> 0) b"

subsection \<open>The invariant and the elements\<close>

definition os_ok :: "'t::linorder ordered_set \<Rightarrow> bool" where
  "os_ok s \<longleftrightarrow> idx_ok (os_data s) (os_data_map s) (os_fresh s)"

lemma set_elements: "set (elements s) = snd ` set (os_data s)"
  by (simp add: elements_def)

lemma os_find_None: "os_ok s \<Longrightarrow> os_find s x = None \<longleftrightarrow> x \<notin> set (elements s)"
  unfolding os_ok_def os_find_def set_elements by (rule idx_ok_find)












subsection \<open>The order of sets\<close>

lemma os_less_loop_irrefl: "\<not> os_less_loop xs xs"
  by (induction xs) auto

lemma os_less_loop_trans: "os_less_loop xs ys \<Longrightarrow> os_less_loop ys zs \<Longrightarrow> os_less_loop xs zs"
proof (induction xs ys arbitrary: zs rule: os_less_loop.induct)
  case (2 x xs)
  then show ?case by (cases zs) auto
next
  case (3 x xs y ys)
  then show ?case by (cases zs) (auto split: if_splits)
qed simp

lemma os_less_loop_total: "\<not> os_less_loop xs ys \<and> \<not> os_less_loop ys xs \<longleftrightarrow> xs = ys"
proof (induction xs ys rule: os_less_loop.induct)
  case (1 ys)
  then show ?case by (cases ys) auto
qed (auto split: if_splits)

lemma os_index_keys:
  assumes "os_ok s"
  shows "map fst (os_data_map s) = sorted_list_of_set (set (elements s))"
proof (rule sorted_distinct_set_unique)
  have ok: "map_ok (os_data_map s)"
    using assms idx_ok_parts(3) unfolding os_ok_def by blast
  then show "sorted (map fst (os_data_map s))" "distinct (map fst (os_data_map s))"
    by (auto simp: map_ok_def strict_sorted_iff)
  show "set (map fst (os_data_map s)) = set (sorted_list_of_set (set (elements s)))"
    using os_find_None [OF assms] map_of_None_keys [of "os_data_map s"] unfolding os_find_def by auto
qed simp_all

section \<open>Properties\<close>


lemma om_ok_sample: "om_ok (om_of_list [(3::nat, ''c''), (1, ''a'')])"
  by (rule om_of_list_ok) simp


text \<open>
  C32: the queries of \<open>ordered_map\<close> answer from the entries: \<open>at\<close> returns the value or throws
  exactly on a missing key and never follows a dangling iterator, \<open>get\<close> falls back to its default,
  \<open>size\<close> is the number of entries, and the bounds find the least key in the order of the keys, not
  of insertion.
\<close>

theorem ordered_map_queries:
  assumes "om_ok m"
  shows "om_at m k = (case map_of (entries m) k of None \<Rightarrow> Inl OutOfRange | Some v \<Rightarrow> Inr v) \<and>
    om_get m k d = (case map_of (entries m) k of None \<Rightarrow> d | Some v \<Rightarrow> v) \<and>
    om_count m k = (if k \<in> keys (entries m) then 1 else 0) \<and>
    om_size m = length (entries m) \<and> (om_empty m \<longleftrightarrow> entries m = []) \<and>
    om_lower_bound m k =
      (if \<exists>k' \<in> keys (entries m). k \<le> k' then om_find m (Min {k' \<in> keys (entries m). k \<le> k'}) else None) \<and>
    om_upper_bound m k =
      (if \<exists>k' \<in> keys (entries m). k < k' then om_find m (Min {k' \<in> keys (entries m). k < k'}) else None)"
proof (cases "om_find m k")
  case None
  then have "k \<notin> keys (entries m)" "map_of (entries m) k = None"
    using om_find_None [OF assms] by (simp, simp add: map_of_None_keys)
  with None show ?thesis
    using om_size_entries [OF assms] om_bounds [OF assms]
    by (simp add: om_at_def om_get_def om_count_def om_find_def om_empty_def entries_def)
next
  case (Some it)
  then have "k \<in> keys (entries m)" using om_find_None [OF assms, of k] by simp
  with Some om_value [OF assms Some] show ?thesis
    using om_size_entries [OF assms] om_bounds [OF assms]
    by (auto simp: om_at_def om_get_def om_count_def om_find_def om_empty_def entries_def)
qed

theorem ordered_map_queries_witness:
  "om_at (om_of_list [(3::nat, ''c''), (1, ''a'')]) 1 = Inr ''a'' \<and>
   om_at (om_of_list [(3::nat, ''c''), (1, ''a'')]) 2 = Inl OutOfRange \<and>
   om_size (om_of_list [(3::nat, ''c''), (1, ''a'')]) = 2"
  using ordered_map_queries [OF om_ok_sample, of 1] ordered_map_queries [OF om_ok_sample, of 2] by simp

text \<open>
  C33: the constructor from an initializer list is only right for distinct keys: it always stores
  the whole list, so that iteration sees it, but \<open>size()\<close> counts the index, which has each key once.
\<close>

theorem ordered_map_of_list:
  "entries (om_of_list il) = il \<and> om_size (om_of_list il) = card (keys il) \<and>
   (om_ok (om_of_list il) \<longleftrightarrow> distinct (map fst il))"
  using om_ok_distinct [of "om_of_list il"] om_of_list_ok [of il] om_size_of_list [of il] by auto


lemma os_ok_of_list: "distinct xs \<Longrightarrow> os_ok (os_of_list xs)"
  unfolding os_ok_def os_of_list_def Let_def
  by (simp, intro idx_ok_init) (auto simp: set_zip)

lemma elements_of_list [simp]: "elements (os_of_list xs) = xs"
  by (simp add: os_of_list_def elements_def Let_def)


text \<open>
  C34: \<open>operator<\<close> of \<open>ordered_set\<close> is a strict order that ignores the order of insertion: two sets
  are incomparable exactly when they have the same elements.
\<close>

theorem ordered_set_less:
  assumes "os_ok a" and "os_ok b" and "os_ok c"
  shows "\<not> os_less a a \<and> (os_less a b \<and> os_less b c \<longrightarrow> os_less a c) \<and>
    (\<not> os_less a b \<and> \<not> os_less b a \<longleftrightarrow> set (elements a) = set (elements b))"
proof -
  define l where "l s = sorted_list_of_set (set (elements s))" for s :: "'a ordered_set"
  have less: "os_less x y \<longleftrightarrow> os_less_loop (l x) (l y)" if "os_ok x" "os_ok y" for x y
    by (simp add: os_less_def os_index_keys that l_def)
  have eq: "l a = l b \<longleftrightarrow> set (elements a) = set (elements b)"
    unfolding l_def by (metis List.finite_set sorted_list_of_set.set_sorted_key_list_of_set)
  show ?thesis
    unfolding less [OF assms(1,1)] less [OF assms(1,2)] less [OF assms(2,3)] less [OF assms(1,3)]
      less [OF assms(2,1)] eq [symmetric] os_less_loop_total
    using os_less_loop_irrefl os_less_loop_trans by blast
qed

theorem ordered_set_less_witness:
  "\<not> os_less (os_of_list [2::nat, 1]) (os_of_list [1, 2]) \<and> \<not> os_less (os_of_list [1, 2]) (os_of_list [2::nat, 1])"
proof -
  have "os_ok (os_of_list [2::nat, 1])" "os_ok (os_of_list [1::nat, 2])"
    by (rule os_ok_of_list, simp)+
  from ordered_set_less [OF this this(1)] show ?thesis by auto
qed

end
