(* ===== verification/Call_Graph.thy ===== *)
theory Call_Graph
  imports Ordered_Containers
begin

text \<open>
  The generic call graph of the P4 front end (\<open>frontends/p4/callGraph.h\<close>): construction, removal
  of nodes, queries and reachability. The two ordered maps are represented by their entries (see
  \<open>ordered_map_refines\<close>): an assignment is \<open>al_put\<close>, a removal \<open>map_erase\<close>, a lookup \<open>map_of\<close>.
  The vectors are owned by their map entry, so a pointer to a vector is the vector, and the null
  pointer that \<open>operator[]\<close> creates for a missing key is \<open>None\<close>. Deletions that the source guards by
  \<open>BUG_CHECK\<close>, and those it does not guard, return an error.
\<close>

section \<open>The graph\<close>

record 't call_graph =
  out_edges :: "('t \<times> 't list) list"
  in_edges :: "('t \<times> 't list) list"
  cg_nodes :: "'t list"

definition cg_new :: "'t call_graph" where
  "cg_new = \<lparr>out_edges = [], in_edges = [], cg_nodes = []\<rparr>"

definition cg_add :: "'t \<Rightarrow> 't call_graph \<Rightarrow> 't call_graph" where
  "cg_add caller g =
     (if caller \<in> set (cg_nodes g) then g
      else \<lparr>out_edges = al_put caller [] (out_edges g), in_edges = al_put caller [] (in_edges g),
            cg_nodes = cg_nodes g @ [caller]\<rparr>)"

text \<open>\<open>m[k]->push_back(x)\<close>, for a key that is present.\<close>

definition push_vec :: "'t \<Rightarrow> 't \<Rightarrow> ('t \<times> 't list) list \<Rightarrow> ('t \<times> 't list) list" where
  "push_vec k x m = (case map_of m k of None \<Rightarrow> m | Some v \<Rightarrow> al_put k (v @ [x]) m)"

definition cg_calls :: "'t \<Rightarrow> 't \<Rightarrow> 't call_graph \<Rightarrow> 't call_graph" where
  "cg_calls caller callee g =
     (let g = cg_add callee (cg_add caller g)
      in g\<lparr>out_edges := push_vec caller callee (out_edges g), in_edges := push_vec callee caller (in_edges g)\<rparr>)"

text \<open>
  The loop body of \<open>remove\<close>: the vector of \<open>n\<close> must exist (\<open>CHECK_NULL\<close>), and the node found in it
  is erased; erasing at \<open>end()\<close> is undefined.
\<close>

definition erase_edge :: "'t \<Rightarrow> 't \<Rightarrow> ('t \<times> 't list) list \<Rightarrow> cxx_error + ('t \<times> 't list) list" where
  "erase_edge nd n m =
     (case map_of m n of
        None \<Rightarrow> Inl BugCheck
      | Some v \<Rightarrow> if nd \<in> set v then Inr (al_put n (remove1 nd v) m) else Inl UndefinedBehaviour)"

fun erase_edges :: "'t \<Rightarrow> 't list \<Rightarrow> ('t \<times> 't list) list \<Rightarrow> cxx_error + ('t \<times> 't list) list" where
  "erase_edges nd [] m = Inr m"
| "erase_edges nd (n # ns) m =
     (case erase_edge nd n m of Inl e \<Rightarrow> Inl e | Inr m' \<Rightarrow> erase_edges nd ns m')"

definition cg_remove :: "'t \<Rightarrow> 't call_graph \<Rightarrow> cxx_error + 't call_graph" where
  "cg_remove nd g =
     (if nd \<notin> set (cg_nodes g) then Inl BugCheck
      else
        let nodes = remove1 nd (cg_nodes g) in
        case (case map_of (in_edges g) nd of None \<Rightarrow> Inr (out_edges g)
              | Some preds \<Rightarrow> erase_edges nd preds (out_edges g)) of
          Inl e \<Rightarrow> Inl e
        | Inr outs \<Rightarrow>
            let ins = map_erase nd (in_edges g) in
            case (case map_of outs nd of None \<Rightarrow> Inr ins
                  | Some succs \<Rightarrow> erase_edges nd succs ins) of
              Inl e \<Rightarrow> Inl e
            | Inr ins' \<Rightarrow> Inr \<lparr>out_edges = map_erase nd outs, in_edges = ins', cg_nodes = nodes\<rparr>)"

section \<open>Queries\<close>

definition isCallee :: "'t call_graph \<Rightarrow> 't \<Rightarrow> bool" where
  "isCallee g callee \<longleftrightarrow> (case map_of (in_edges g) callee of None \<Rightarrow> False | Some v \<Rightarrow> v \<noteq> [])"

definition isCaller :: "'t call_graph \<Rightarrow> 't \<Rightarrow> bool" where
  "isCaller g caller \<longleftrightarrow> (case map_of (out_edges g) caller of None \<Rightarrow> False | Some v \<Rightarrow> v \<noteq> [])"

definition getCallees :: "'t call_graph \<Rightarrow> 't \<Rightarrow> 't list option" where
  "getCallees g caller = map_of (out_edges g) caller"

definition getCallers :: "'t call_graph \<Rightarrow> 't \<Rightarrow> 't list option" where
  "getCallers g callee = map_of (in_edges g) callee"

definition append_callees :: "'t call_graph \<Rightarrow> 't \<Rightarrow> 't set \<Rightarrow> 't set" where
  "append_callees g caller toAppend =
     (if isCaller g caller then toAppend \<union> set (the (map_of (out_edges g) caller)) else toAppend)"

definition cg_size :: "'t call_graph \<Rightarrow> nat" where
  "cg_size g = length (cg_nodes g)"

text \<open>
  \<open>reachable\<close>: the work set is taken from its least element on; \<open>out\<close> are the nodes reached
  so far, given by reference.
\<close>

function cg_reachable_loop :: "'t::linorder call_graph \<Rightarrow> 't list \<Rightarrow> 't set \<Rightarrow> 't set" where
  "cg_reachable_loop g [] out = out"
| "cg_reachable_loop g (n # work) out =
     (if n \<in> out then cg_reachable_loop g work out
      else
        case map_of (out_edges g) n of
          None \<Rightarrow> cg_reachable_loop g work (insert n out)
        | Some cs \<Rightarrow> cg_reachable_loop g (fold set_put cs work) (insert n out))"
  by pat_completeness auto

termination
proof (relation "inv_image (finite_psubset <*lex*> measure length)
    (\<lambda>(g, work, out). (keys (out_edges g) - out, work))", goal_cases)
  case (3 g n work out)
  then show ?case by (cases "n \<in> keys (out_edges g)") (auto simp: finite_psubset_def)
next
  case (4 g n work out cs)
  then have "n \<in> keys (out_edges g)" by (simp add: map_of_Some_keys)
  with 4 show ?case by (auto simp: finite_psubset_def)
qed (auto intro!: wf_lex_prod)

definition cg_reachable :: "'t::linorder call_graph \<Rightarrow> 't \<Rightarrow> 't set \<Rightarrow> 't set" where
  "cg_reachable g start out = cg_reachable_loop g [start] out"

text \<open>The callees and callers of a node, for the specifications.\<close>

definition vec :: "('t \<times> 't list) list \<Rightarrow> 't \<Rightarrow> 't list" where
  "vec m k = (case map_of m k of None \<Rightarrow> [] | Some v \<Rightarrow> v)"

definition outs :: "'t call_graph \<Rightarrow> 't \<Rightarrow> 't list" where
  "outs g u = vec (out_edges g) u"

definition ins :: "'t call_graph \<Rightarrow> 't \<Rightarrow> 't list" where
  "ins g v = vec (in_edges g) v"

definition call_rel :: "'t call_graph \<Rightarrow> 't rel" where
  "call_rel g = {(u, v). v \<in> set (outs g u)}"

text \<open>\<open>restrict\<close>: the nodes to remove are collected before the first removal.\<close>

fun remove_all :: "'t list \<Rightarrow> 't call_graph \<Rightarrow> cxx_error + 't call_graph" where
  "remove_all [] g = Inr g"
| "remove_all (n # ns) g = (case cg_remove n g of Inl e \<Rightarrow> Inl e | Inr g' \<Rightarrow> remove_all ns g')"

definition cg_restrict :: "'t set \<Rightarrow> 't call_graph \<Rightarrow> cxx_error + 't call_graph" where
  "cg_restrict to g = remove_all (filter (\<lambda>n. n \<notin> to) (cg_nodes g)) g"

section \<open>The invariant\<close>

text \<open>
  The two maps have an entry for exactly the nodes, and an edge is in both of them the same number
  of times.
\<close>

definition cg_ok :: "'t call_graph \<Rightarrow> bool" where
  "cg_ok g \<longleftrightarrow> distinct (cg_nodes g) \<and> keys (out_edges g) = set (cg_nodes g) \<and>
     keys (in_edges g) = set (cg_nodes g) \<and> (\<forall>u v. count_list (outs g u) v = count_list (ins g v) u)"

lemma keys_al_put: "keys (al_put k v m) = insert k (keys m)"
  by (induction k v m rule: al_put.induct) auto

lemma map_of_push_vec:
  "map_of (push_vec k x m) y = (if y = k then map_option (\<lambda>v. v @ [x]) (map_of m k) else map_of m y)"
  by (auto simp: push_vec_def map_of_al_put split: option.split)

lemma keys_push_vec: "keys (push_vec k x m) = keys m"
  by (auto simp: push_vec_def keys_al_put split: option.split dest: map_of_Some_keys)

lemma cg_okD:
  assumes "cg_ok g"
  shows "distinct (cg_nodes g)" "keys (out_edges g) = set (cg_nodes g)"
    "keys (in_edges g) = set (cg_nodes g)" "count_list (outs g u) v = count_list (ins g v) u"
  using assms by (simp_all add: cg_ok_def)

lemma outs_mem_ins: "cg_ok g \<Longrightarrow> v \<in> set (outs g u) \<longleftrightarrow> u \<in> set (ins g v)"
  using cg_okD(4) [of g u v] by (metis count_list_0_iff)

lemma outs_notin: "cg_ok g \<Longrightarrow> u \<notin> set (cg_nodes g) \<Longrightarrow> outs g u = []"
  and ins_notin: "cg_ok g \<Longrightarrow> u \<notin> set (cg_nodes g) \<Longrightarrow> ins g u = []"
  using map_of_None_keys [of "out_edges g" u] map_of_None_keys [of "in_edges g" u] cg_okD(2,3) [of g]
  by (simp_all add: outs_def ins_def vec_def)

lemma call_rel_nodes: "cg_ok g \<Longrightarrow> (u, v) \<in> call_rel g \<Longrightarrow> u \<in> set (cg_nodes g) \<and> v \<in> set (cg_nodes g)"
  using outs_notin [of g u] ins_notin [of g v] outs_mem_ins [of g v u]
  unfolding call_rel_def by (metis case_prodD empty_iff list.set(1) mem_Collect_eq)

lemma cg_new_ok: "cg_ok cg_new"
  by (simp add: cg_ok_def cg_new_def outs_def ins_def vec_def)

lemma outs_add: "cg_ok g \<Longrightarrow> outs (cg_add n g) u = outs g u"
  and ins_add: "cg_ok g \<Longrightarrow> ins (cg_add n g) u = ins g u"
  using outs_notin [of g n] ins_notin [of g n]
  by (auto simp: cg_add_def outs_def ins_def vec_def map_of_al_put)

lemma cg_add_ok: "cg_ok g \<Longrightarrow> cg_ok (cg_add n g)"
  using outs_add [of g n] ins_add [of g n] unfolding cg_ok_def
  by (auto simp: cg_add_def keys_al_put)

lemma nodes_add: "set (cg_nodes (cg_add n g)) = insert n (set (cg_nodes g))"
  by (auto simp: cg_add_def)

lemma cg_calls_ok:
  assumes "cg_ok g"
  shows "cg_ok (cg_calls u v g) \<and> set (cg_nodes (cg_calls u v g)) = {u, v} \<union> set (cg_nodes g) \<and>
    outs (cg_calls u v g) x = (if x = u then outs g x @ [v] else outs g x)"
proof -
  let ?g = "cg_add v (cg_add u g)"
  have ok: "cg_ok ?g" by (intro cg_add_ok assms)
  have "u \<in> keys (out_edges ?g)" "v \<in> keys (in_edges ?g)"
    unfolding cg_okD(2,3) [OF ok] nodes_add by simp_all
  then have o: "outs (cg_calls u v g) x = (if x = u then outs g x @ [v] else outs g x)"
    and i: "ins (cg_calls u v g) x = (if x = v then ins g x @ [u] else ins g x)" for x
    using outs_add [OF cg_add_ok [OF assms], of v u x] outs_add [OF assms, of u x]
      ins_add [OF cg_add_ok [OF assms], of v u x] ins_add [OF assms, of u x]
    by (auto simp: cg_calls_def Let_def outs_def ins_def vec_def map_of_push_vec dest!: keys_map_of)
  have "cg_ok (cg_calls u v g)"
    unfolding cg_ok_def o i using cg_okD [OF ok] cg_okD(4) [OF assms]
    by (auto simp: cg_calls_def Let_def keys_push_vec simp del: nodes_add)
  then show ?thesis
    using o by (auto simp: cg_calls_def Let_def nodes_add)
qed

section \<open>Removal\<close>

lemma count_remove1: "x \<in> set xs \<Longrightarrow> count_list xs x = Suc (count_list (remove1 x xs) x)"
  by (induction xs) auto

lemma remove1_count: "count_list xs x = n \<Longrightarrow> (remove1 x ^^ n) xs = filter (\<lambda>y. y \<noteq> x) xs"
proof (induction n arbitrary: xs)
  case 0
  then have "x \<notin> set xs" by (simp add: count_list_0_iff)
  then show ?case by (auto intro!: filter_True [symmetric])
next
  case (Suc n)
  then have "x \<in> set xs" by (metis count_notin nat.distinct(1))
  then have "count_list (remove1 x xs) x = n" using count_remove1 Suc.prems by fastforce
  from Suc.IH [OF this] show ?case
    by (simp add: funpow_swap1 filter_remove1 remove1_idem)
qed

lemma count_list_filter: "count_list (filter P xs) x = (if P x then count_list xs x else 0)"
  by (induction xs) auto

lemma vec_al_put: "vec (al_put k v m) x = (if x = k then v else vec m x)"
  by (simp add: vec_def map_of_al_put)

lemma vec_erase: "vec (map_erase k m) x = (if x = k then [] else vec m x)"
  by (simp add: vec_def map_of_erase)

text \<open>
  When every vector holds the node at least as often as it is to be erased from it, the loop
  finds it each time.
\<close>

lemma erase_edges_count:
  assumes "\<And>p. count_list ns p \<le> count_list (vec m p) x"
  shows "\<exists>m'. erase_edges x ns m = Inr m' \<and> keys m' = keys m \<and>
    (\<forall>p. vec m' p = (remove1 x ^^ count_list ns p) (vec m p))"
  using assms
proof (induction ns arbitrary: m)
  case (Cons n ns)
  have "0 < count_list (vec m n) x"
    using Cons.prems [of n] by simp
  then have x: "x \<in> set (vec m n)" by (metis count_notin less_numeral_extra(3))
  then obtain v where v: "map_of m n = Some v" "x \<in> set v" "vec m n = v"
    by (cases "map_of m n") (auto simp: vec_def)
  let ?m = "al_put n (remove1 x v) m"
  have "count_list ns p \<le> count_list (vec ?m p) x" for p
  proof (cases "p = n")
    case True
    have "count_list ns n + 1 \<le> count_list v x" using Cons.prems [of n] by (simp add: v(3))
    then have "count_list ns n \<le> count_list (remove1 x v) x"
      unfolding count_remove1 [OF v(2)] by linarith
    then show ?thesis unfolding True vec_al_put by presburger
  next
    case False
    then show ?thesis using Cons.prems [of p] by (simp add: vec_al_put)
  qed
  from Cons.IH [OF this] obtain m' where m': "erase_edges x ns ?m = Inr m'" "keys m' = keys ?m"
      "\<And>p. vec m' p = (remove1 x ^^ count_list ns p) (vec ?m p)"
    by blast
  have "keys ?m = keys m"
    unfolding keys_al_put using map_of_Some_keys [OF v(1)] by blast
  moreover have "vec m' p = (remove1 x ^^ count_list (n # ns) p) (vec m p)" for p
    unfolding m'(3) using v(3) by (cases "p = n") (simp_all add: vec_al_put funpow_swap1)
  ultimately show ?case
    using v m' by (simp add: erase_edge_def)
qed simp

lemma cg_remove_ok:
  assumes ok: "cg_ok g" and n: "n \<in> set (cg_nodes g)"
  shows "\<exists>g'. cg_remove n g = Inr g' \<and> cg_ok g' \<and> cg_nodes g' = remove1 n (cg_nodes g) \<and>
    (\<forall>u. outs g' u = (if u = n then [] else filter (\<lambda>v. v \<noteq> n) (outs g u)))"
proof -
  have keysn: "n \<in> keys (in_edges g)" "n \<in> keys (out_edges g)"
    using n cg_okD(2,3) [OF ok] by simp_all
  then have ins: "map_of (in_edges g) n = Some (ins g n)"
    by (auto simp: ins_def vec_def dest!: keys_map_of)
  have "count_list (ins g n) p \<le> count_list (vec (out_edges g) p) n" for p
    using cg_okD(4) [OF ok, of p n] by (simp add: outs_def)
  from erase_edges_count [OF this] obtain o' where o': "erase_edges n (ins g n) (out_edges g) = Inr o'"
      "keys o' = keys (out_edges g)" "\<And>p. vec o' p = (remove1 n ^^ count_list (ins g n) p) (outs g p)"
    by (auto simp: outs_def)
  have vo: "vec o' p = filter (\<lambda>v. v \<noteq> n) (outs g p)" for p
    unfolding o'(3) by (rule remove1_count) (rule cg_okD(4) [OF ok])
  then have vn: "map_of o' n = Some (filter (\<lambda>v. v \<noteq> n) (outs g n))"
    using keysn(2) o'(2) by (metis keys_map_of option.simps(5) vec_def)
  let ?i = "map_erase n (in_edges g)" and ?s = "filter (\<lambda>v. v \<noteq> n) (outs g n)"
  have "count_list ?s p \<le> count_list (vec ?i p) n" for p
    using cg_okD(4) [OF ok, of n p] by (simp add: vec_erase ins_def count_list_filter)
  from erase_edges_count [OF this] obtain i' where i': "erase_edges n ?s ?i = Inr i'"
      "keys i' = keys ?i" "\<And>p. vec i' p = (remove1 n ^^ count_list ?s p) (vec ?i p)"
    by blast
  have vi: "vec i' p = (if p = n then [] else filter (\<lambda>v. v \<noteq> n) (ins g p))" for p
  proof (cases "p = n")
    case False
    then have "count_list (ins g p) n = count_list ?s p"
      using cg_okD(4) [OF ok, of n p] by (simp add: count_list_filter)
    then show ?thesis using False by (simp add: i'(3) vec_erase ins_def remove1_count)
  qed (simp add: i'(3) vec_erase count_list_filter)
  define g' where "g' = \<lparr>out_edges = map_erase n o', in_edges = i', cg_nodes = remove1 n (cg_nodes g)\<rparr>"
  have "cg_remove n g = Inr g'"
    using n ins o' vn i' by (simp add: cg_remove_def g'_def Let_def)
  moreover have outs': "outs g' u = (if u = n then [] else filter (\<lambda>v. v \<noteq> n) (outs g u))" for u
    by (simp add: g'_def outs_def vec_erase vo [unfolded outs_def])
  moreover have "ins g' v = (if v = n then [] else filter (\<lambda>u. u \<noteq> n) (ins g v))" for v
    by (simp add: g'_def ins_def vi [unfolded ins_def])
  then have "cg_ok g'"
    using cg_okD [OF ok] outs' o'(2) i'(2) unfolding cg_ok_def
    by (auto simp: g'_def keys_erase count_list_filter set_remove1_eq)
  ultimately show ?thesis by (auto simp: g'_def)
qed

lemma remove_all_ok:
  assumes "cg_ok g" and "distinct ns" and "set ns \<subseteq> set (cg_nodes g)"
  shows "\<exists>g'. remove_all ns g = Inr g' \<and> cg_ok g' \<and> cg_nodes g' = filter (\<lambda>n. n \<notin> set ns) (cg_nodes g) \<and>
    (\<forall>u. outs g' u = (if u \<in> set ns then [] else filter (\<lambda>v. v \<notin> set ns) (outs g u)))"
  using assms
proof (induction ns arbitrary: g)
  case (Cons n ns)
  then obtain g1 where g1: "cg_remove n g = Inr g1" "cg_ok g1" "cg_nodes g1 = remove1 n (cg_nodes g)"
      "\<And>u. outs g1 u = (if u = n then [] else filter (\<lambda>v. v \<noteq> n) (outs g u))"
    using cg_remove_ok [of g n] by auto
  have nodes: "cg_nodes g1 = filter (\<lambda>m. m \<noteq> n) (cg_nodes g)"
    using g1(3) cg_okD(1) [OF Cons.prems(1)] by (simp add: distinct_remove1_removeAll removeAll_filter_not_eq neq_commute)
  then have "set ns \<subseteq> set (cg_nodes g1)"
    using Cons.prems(2,3) by auto
  with Cons.IH [OF g1(2)] Cons.prems(2) obtain g' where g': "remove_all ns g1 = Inr g'" "cg_ok g'"
      "cg_nodes g' = filter (\<lambda>n. n \<notin> set ns) (cg_nodes g1)"
      "\<And>u. outs g' u = (if u \<in> set ns then [] else filter (\<lambda>v. v \<notin> set ns) (outs g1 u))"
    by auto
  have "filter (\<lambda>v. v \<notin> set ns) (filter (\<lambda>v. v \<noteq> n) xs) = filter (\<lambda>v. v \<notin> set (n # ns)) xs" for xs
    by (auto intro: filter_cong)
  then show ?case
    using g1(1,4) g' by (simp add: nodes)
qed simp

lemma cg_reachable_loop_inv:
  "cg_reachable_loop g work out \<subseteq> out \<union> {x. \<exists>s \<in> set work. (s, x) \<in> (call_rel g)\<^sup>*} \<and>
   out \<union> set work \<subseteq> cg_reachable_loop g work out \<and>
   (\<forall>u v. u \<in> cg_reachable_loop g work out - out \<longrightarrow> (u, v) \<in> call_rel g \<longrightarrow> v \<in> cg_reachable_loop g work out)"
proof (induction g work out rule: cg_reachable_loop.induct)
  case (2 g n work out)
  show ?case
  proof (cases "n \<in> out")
    case True
    with 2(1) show ?thesis by auto
  next
    case False
    define cs where "cs = outs g n"
    define w where "w = fold set_put cs work"
    have step: "cg_reachable_loop g (n # work) out = cg_reachable_loop g w (insert n out)"
      using False by (auto simp: w_def cs_def outs_def vec_def split: option.splits)
    have IH: "cg_reachable_loop g w (insert n out) \<subseteq> insert n out \<union> {x. \<exists>s \<in> set w. (s, x) \<in> (call_rel g)\<^sup>*} \<and>
       insert n out \<union> set w \<subseteq> cg_reachable_loop g w (insert n out) \<and>
       (\<forall>u v. u \<in> cg_reachable_loop g w (insert n out) - insert n out \<longrightarrow> (u, v) \<in> call_rel g \<longrightarrow>
          v \<in> cg_reachable_loop g w (insert n out))"
    proof (cases "map_of (out_edges g) n")
      case None
      then have "w = work" by (simp add: w_def cs_def outs_def vec_def)
      with 2(2) [OF False None] show ?thesis by blast
    next
      case (Some v)
      then have "w = fold set_put v work" by (simp add: w_def cs_def outs_def vec_def)
      with 2(3) [OF False Some] show ?thesis by blast
    qed
    have w: "set w = set cs \<union> set work" and cs: "v \<in> set cs \<longleftrightarrow> (n, v) \<in> call_rel g" for v
      by (simp_all add: w_def cs_def call_rel_def)
    have "(n, x) \<in> (call_rel g)\<^sup>*" if "s \<in> set cs" "(s, x) \<in> (call_rel g)\<^sup>*" for s x
      using that cs by (meson converse_rtrancl_into_rtrancl)
    then have "{x. \<exists>s \<in> set w. (s, x) \<in> (call_rel g)\<^sup>*} \<subseteq> {x. \<exists>s \<in> set (n # work). (s, x) \<in> (call_rel g)\<^sup>*}"
      unfolding w by auto
    moreover have "n \<in> {x. \<exists>s \<in> set (n # work). (s, x) \<in> (call_rel g)\<^sup>*}" by auto
    ultimately have "cg_reachable_loop g w (insert n out) \<subseteq> out \<union> {x. \<exists>s \<in> set (n # work). (s, x) \<in> (call_rel g)\<^sup>*}"
      using IH [THEN conjunct1] by blast
    moreover have "out \<union> set (n # work) \<subseteq> cg_reachable_loop g w (insert n out)"
      using IH unfolding w by simp
    moreover have "v \<in> cg_reachable_loop g w (insert n out)"
      if "u \<in> cg_reachable_loop g w (insert n out) - out" "(u, v) \<in> call_rel g" for u v
    proof (cases "u = n")
      case True
      then have "v \<in> set w" using that(2) cs by (simp add: w)
      then show ?thesis using IH by blast
    next
      case False
      with that IH [THEN conjunct2, THEN conjunct2, rule_format, of u v] show ?thesis by simp
    qed
    ultimately show ?thesis
      unfolding step by blast
  qed
qed simp

section \<open>Properties\<close>

text \<open>
  C15: the graph stays consistent. Adding nodes and calls keeps the two maps inverse to each other;
  removing a node of the graph never erases at an end iterator or follows a null pointer, and
  leaves the graph induced by the other nodes, with all its parallel edges; removing any other
  node is reported as a bug; \<open>restrict\<close> leaves the graph induced by the given set.
\<close>

theorem call_graph_updates:
  assumes "cg_ok g"
  shows "cg_ok (cg_add n g) \<and> cg_ok (cg_calls u v g) \<and>
    outs (cg_calls u v g) x = (if x = u then outs g x @ [v] else outs g x) \<and>
    (n \<notin> set (cg_nodes g) \<longrightarrow> cg_remove n g = Inl BugCheck) \<and>
    (n \<in> set (cg_nodes g) \<longrightarrow>
       (\<exists>g'. cg_remove n g = Inr g' \<and> cg_ok g' \<and> cg_nodes g' = remove1 n (cg_nodes g) \<and>
          (\<forall>u. outs g' u = (if u = n then [] else filter (\<lambda>v. v \<noteq> n) (outs g u))))) \<and>
    (\<exists>g'. cg_restrict to g = Inr g' \<and> cg_ok g' \<and> cg_nodes g' = filter (\<lambda>n. n \<in> to) (cg_nodes g) \<and>
       (\<forall>u \<in> to. outs g' u = filter (\<lambda>v. v \<in> to) (outs g u)))"
proof -
  let ?ns = "filter (\<lambda>n. n \<notin> to) (cg_nodes g)"
  obtain g' where g': "remove_all ?ns g = Inr g'" "cg_ok g'" "cg_nodes g' = filter (\<lambda>n. n \<notin> set ?ns) (cg_nodes g)"
      "\<And>u. outs g' u = (if u \<in> set ?ns then [] else filter (\<lambda>v. v \<notin> set ?ns) (outs g u))"
    using remove_all_ok [OF assms, of ?ns] cg_okD(1) [OF assms] by auto
  have "cg_nodes g' = filter (\<lambda>n. n \<in> to) (cg_nodes g)"
    unfolding g'(3) by (rule filter_cong) auto
  moreover have "outs g' u = filter (\<lambda>v. v \<in> to) (outs g u)" if "u \<in> to" for u
  proof -
    have "v \<in> set (cg_nodes g)" if "v \<in> set (outs g u)" for v
      using call_rel_nodes [OF assms, of u v] that by (simp add: call_rel_def)
    then show ?thesis
      unfolding g'(4) using \<open>u \<in> to\<close> by (auto intro: filter_cong)
  qed
  ultimately have "\<exists>g'. cg_restrict to g = Inr g' \<and> cg_ok g' \<and> cg_nodes g' = filter (\<lambda>n. n \<in> to) (cg_nodes g) \<and>
       (\<forall>u \<in> to. outs g' u = filter (\<lambda>v. v \<in> to) (outs g u))"
    using g'(1,2) by (auto simp: cg_restrict_def)
  moreover have "n \<notin> set (cg_nodes g) \<longrightarrow> cg_remove n g = Inl BugCheck"
    by (simp add: cg_remove_def)
  ultimately show ?thesis
    using cg_add_ok [OF assms] cg_calls_ok [OF assms] cg_remove_ok [OF assms] by blast
qed

definition sample_calls :: "nat call_graph" where
  "sample_calls = cg_calls 2 2 (cg_calls 1 2 (cg_calls 3 1 (cg_calls 2 3 (cg_calls 1 2 cg_new))))"

lemma sample_calls_ok: "cg_ok sample_calls"
  unfolding sample_calls_def by (intro cg_calls_ok [THEN conjunct1] cg_new_ok)

theorem call_graph_updates_witness:
  "cg_remove 2 sample_calls =
     Inr \<lparr>out_edges = [(1, []), (3, [1])], in_edges = [(1, [3]), (3, [])], cg_nodes = [1, 3]\<rparr> \<and>
   cg_remove 7 sample_calls = Inl BugCheck"
proof -
  have "2 \<in> set (cg_nodes sample_calls)" "7 \<notin> set (cg_nodes sample_calls)" by code_simp+
  then have "cg_remove 7 sample_calls = Inl BugCheck"
    "\<exists>g'. cg_remove 2 sample_calls = Inr g' \<and> cg_ok g'"
    using call_graph_updates [OF sample_calls_ok, of 7 1 1 1 "{}"]
      call_graph_updates [OF sample_calls_ok, of 2 1 1 1 "{}"] by (simp, elim conjE, simp, blast)
  moreover have "cg_remove 2 sample_calls =
     Inr \<lparr>out_edges = [(1, []), (3, [1])], in_edges = [(1, [3]), (3, [])], cg_nodes = [1, 3]\<rparr>"
    by code_simp
  ultimately show ?thesis by simp
qed

text \<open>
  C35: \<open>reachable\<close> returns, whatever the order in which the work set is taken, exactly the nodes
  that can be reached from the start node over calls.
\<close>

theorem cg_reachable_exact: "cg_reachable g start {} = {x. (start, x) \<in> (call_rel g)\<^sup>*}"
proof -
  let ?R = "cg_reachable_loop g [start] {}"
  have inv: "?R \<subseteq> {x. (start, x) \<in> (call_rel g)\<^sup>*}" "start \<in> ?R"
    "\<And>u v. u \<in> ?R \<Longrightarrow> (u, v) \<in> call_rel g \<Longrightarrow> v \<in> ?R"
    using cg_reachable_loop_inv [of g "[start]" "{}"] by auto
  have "x \<in> ?R" if "(start, x) \<in> (call_rel g)\<^sup>*" for x
    using rtrancl_closed [OF that inv(2)] inv(3) by blast
  with inv(1) show ?thesis
    unfolding cg_reachable_def by blast
qed

end
