(* ===== verification/Dominance.thy ===== *)
theory Dominance
  imports Prelude
begin

text \<open>
  Dominance in a directed graph: the specification of the dominator computations. A walk is
  listed from its last node back to its first one.
\<close>

inductive walk :: "'a rel \<Rightarrow> 'a \<Rightarrow> 'a list \<Rightarrow> 'a \<Rightarrow> bool" for E s where
  walk_start: "walk E s [s] s"
| walk_step: "walk E s p u \<Longrightarrow> (u, v) \<in> E \<Longrightarrow> walk E s (v # p) v"

inductive_cases walkE: "walk E s p v"

definition dominates :: "'a rel \<Rightarrow> 'a \<Rightarrow> 'a \<Rightarrow> 'a \<Rightarrow> bool" where
  "dominates E s d n \<longleftrightarrow> (\<forall>p. walk E s p n \<longrightarrow> d \<in> set p)"

lemma walk_reachable: "(\<exists>p. walk E s p n) \<longleftrightarrow> (s, n) \<in> E\<^sup>*"
proof
  assume "\<exists>p. walk E s p n"
  then obtain p where "walk E s p n" ..
  then show "(s, n) \<in> E\<^sup>*" by induction auto
next
  assume "(s, n) \<in> E\<^sup>*"
  then show "\<exists>p. walk E s p n" by induction (auto intro: walk.intros)
qed

lemma walk_last: "walk E s p n \<Longrightarrow> n \<in> set p"
  by (induction rule: walk.induct) auto

lemma walk_first: "walk E s p n \<Longrightarrow> s \<in> set p"
  by (induction rule: walk.induct) auto

lemma dominates_refl: "dominates E s n n"
  by (auto simp: dominates_def dest: walk_last)

lemma dominates_start: "dominates E s s n"
  by (auto simp: dominates_def dest: walk_first)

lemma dominates_only_start: "dominates E s d s \<Longrightarrow> d = s"
  using walk_start [of E s] by (auto simp: dominates_def)

lemma dominates_pred: "dominates E s d n \<Longrightarrow> d \<noteq> n \<Longrightarrow> (p, n) \<in> E \<Longrightarrow> dominates E s d p"
  unfolding dominates_def by (metis set_ConsD walk_step)

lemma dominates_step:
  assumes "n \<noteq> s" and "\<And>p. (p, n) \<in> E \<Longrightarrow> dominates E s d p"
  shows "dominates E s d n"
  unfolding dominates_def
proof (intro allI impI)
  fix q assume "walk E s q n"
  then show "d \<in> set q"
    using assms by cases (auto simp: dominates_def)
qed

lemma dominates_trans: "dominates E s a b \<Longrightarrow> dominates E s b c \<Longrightarrow> dominates E s a c"
proof -
  have split: "\<exists>q. walk E s q b \<and> set q \<subseteq> set p" if "walk E s p c" "b \<in> set p" for p c
    using that
  proof induction
    case walk_start
    then show ?case using walk.walk_start [of E s] by auto
  next
    case (walk_step p u v)
    show ?case
    proof (cases "b = v")
      case True
      then show ?thesis using walk.walk_step [OF walk_step.hyps] by blast
    next
      case False
      then have "\<exists>q. walk E s q b \<and> set q \<subseteq> set p" using walk_step by simp
      then show ?thesis by (meson set_subset_Cons subset_trans)
    qed
  qed
  assume "dominates E s a b" "dominates E s b c"
  then show ?thesis
    unfolding dominates_def using split by blast
qed

text \<open>
  Any assignment of sets that starts with the start node alone and grows by at most the node
  itself along each edge contains only dominators.
\<close>

lemma dominators_sound:
  assumes "D s \<subseteq> {s}" and "\<And>u v. (u, v) \<in> E \<Longrightarrow> D v \<subseteq> insert v (D u)" and "x \<in> D n"
  shows "dominates E s x n"
  unfolding dominates_def
proof (intro allI impI)
  fix p assume "walk E s p n"
  then show "x \<in> set p"
    using assms(3)
  proof (induction arbitrary: x)
    case walk_start
    then show ?case using assms(1) by auto
  next
    case (walk_step p u v)
    then show ?case using assms(2) by fastforce
  qed
qed

end
