(* ===== verification/Call_Graph_Loops.thy ===== *)
theory Call_Graph_Loops
  imports Call_Graph Dominance "HOL-Library.While_Combinator"
begin

text \<open>
  \<open>CallGraph::dominators\<close> and \<open>CallGraph::compute_loops\<close> (\<open>frontends/p4/callGraph.h\<close>): the
  iterative computation of the dominators of every node, and the natural loops found from them.
  The loop of \<open>dominators\<close> runs until nothing changes; it is modelled by \<open>while_option\<close>, and that it
  ends is part of what is proved.
\<close>

section \<open>dominators\<close>

text \<open>\<open>dominators[n]\<close>: a missing entry is the empty set.\<close>

definition doms :: "('t, 't set) std_map \<Rightarrow> 't \<Rightarrow> 't set" where
  "doms d n = (case map_of d n of None \<Rightarrow> {} | Some s \<Rightarrow> s)"

definition dominators_init :: "'t::linorder call_graph \<Rightarrow> 't \<Rightarrow> ('t, 't set) std_map \<Rightarrow> ('t, 't set) std_map" where
  "dominators_init g start d =
     fold (\<lambda>n. if n = start then map_modify {} n (insert start) else map_modify {} n (\<lambda>s. s \<union> set (cg_nodes g)))
       (cg_nodes g) d"

text \<open>One node of a pass: the dominators of its callers are intersected in place.\<close>

definition dominators_node ::
  "'t::linorder call_graph \<Rightarrow> 't \<Rightarrow> bool \<times> ('t, 't set) std_map \<Rightarrow> bool \<times> ('t, 't set) std_map" where
  "dominators_node g n = (\<lambda>(changes, d).
     case map_of (in_edges g) n of
       None \<Rightarrow> (changes, d)
     | Some v \<Rightarrow>
         let size = card (doms d n);
             d = fold (\<lambda>c d. let d = map_modify {} c id (map_modify {} n id d)
                             in map_modify {} n (\<lambda>s. s \<inter> doms d c) d) v d;
             d = map_modify {} n (insert n) d
         in (changes \<or> card (doms d n) \<noteq> size, d))"

definition dominators_pass :: "'t::linorder call_graph \<Rightarrow> ('t, 't set) std_map \<Rightarrow> bool \<times> ('t, 't set) std_map" where
  "dominators_pass g d = fold (dominators_node g) (cg_nodes g) (False, d)"

definition cg_dominators ::
  "'t::linorder call_graph \<Rightarrow> 't \<Rightarrow> ('t, 't set) std_map \<Rightarrow> ('t, 't set) std_map option" where
  "cg_dominators g start d =
     map_option snd (while_option fst (\<lambda>(changes, d). dominators_pass g d) (True, dominators_init g start d))"

section \<open>compute_loops\<close>

record 't Loop =
  loop_entry :: 't
  loop_body :: "'t set"
  back_edge_heads :: "'t set"

definition isLoopEntryPoint :: "'t Loop list \<Rightarrow> 't \<Rightarrow> int" where
  "isLoopEntryPoint loops n =
     (case List.find (\<lambda>i. loop_entry (loops ! i) = n) [0..<length loops] of None \<Rightarrow> -1 | Some i \<Rightarrow> int i)"

definition isInLoop :: "'t Loop list \<Rightarrow> int \<Rightarrow> 't \<Rightarrow> cxx_error + bool" where
  "isInLoop loops i n =
     (if i = -1 then Inr False
      else if 0 \<le> i \<and> i < int (length loops) then Inr (n \<in> loop_body (loops ! nat i))
      else Inl OutOfRange)"

text \<open>Adding to the work set the elements that are not in \<open>B\<close>.\<close>

lemma fold_filtered_put:
  "set (fold (\<lambda>i w. if i \<notin> B then set_put i w else w) is w) = (set is - B) \<union> set w"
  by (induction "is" arbitrary: w) auto

lemma filter_set_put: "\<not> P i \<Longrightarrow> filter P (set_put i w) = filter P w"
  by (induction i w rule: set_put.induct) auto

lemma filter_fold_put:
  "filter (\<lambda>x. x \<in> B) (fold (\<lambda>i w. if i \<notin> B then set_put i w else w) is w) = filter (\<lambda>x. x \<in> B) w"
  by (induction "is" arbitrary: w) (auto simp: filter_set_put)

text \<open>The reverse search from the source of a back edge to the entry \<open>n\<close>.\<close>

function loop_search :: "'t::linorder call_graph \<Rightarrow> 't \<Rightarrow> 't list \<Rightarrow> 't set \<Rightarrow> cxx_error + 't set" where
  "loop_search g n [] body = Inr body"
| "loop_search g n (crt # work) body =
     (if crt = n then loop_search g n work (insert crt body)
      else
        case map_of (in_edges g) crt of
          None \<Rightarrow> Inl UndefinedBehaviour
        | Some is \<Rightarrow>
            loop_search g n (fold (\<lambda>i w. if i \<notin> insert crt body then set_put i w else w) is work)
              (insert crt body))"
  by pat_completeness auto

text \<open>
  The body grows, or an element of the work set that is already in the body is taken out, and
  only elements outside the body are added.
\<close>

termination
proof (relation "inv_image (finite_psubset <*lex*> measure length)
    (\<lambda>(g, n, work, body). (insert n (keys (in_edges g)) - body, filter (\<lambda>x. x \<in> body) work))", goal_cases)
  case (2 g n crt work body)
  then show ?case
    by (cases "n \<in> body") (auto simp: finite_psubset_def insert_absorb)
next
  case (3 g n crt work body preds)
  then have "crt \<in> keys (in_edges g)" by (simp add: map_of_Some_keys)
  then show ?case
  proof (cases "crt \<in> body")
    case True
    then have "insert crt body = body" by (rule insert_absorb)
    with True show ?thesis by (simp add: filter_fold_put)
  next
    case False
    with \<open>crt \<in> keys (in_edges g)\<close> show ?thesis by (auto simp: finite_psubset_def)
  qed
qed (auto intro!: wf_lex_prod)

text \<open>The state of the outer loops: the loops found so far and the map from entries to them.\<close>

type_synonym 't loops_state = "'t Loop list \<times> ('t, nat) std_map"

definition loop_edge ::
  "'t::linorder call_graph \<Rightarrow> 't set \<Rightarrow> 't \<Rightarrow> 't \<Rightarrow> 't loops_state \<Rightarrow> cxx_error + 't loops_state" where
  "loop_edge g dome e n = (\<lambda>(loops, entryToLoop).
     if n \<notin> dome then Inr (loops, entryToLoop)
     else
       let (i, loops, entryToLoop) =
             (case map_of entryToLoop n of
                Some i \<Rightarrow> (i, loops, entryToLoop)
              | None \<Rightarrow> (length loops, loops @ [\<lparr>loop_entry = n, loop_body = {}, back_edge_heads = {}\<rparr>],
                         map_put n (length loops) entryToLoop));
           loop = loops ! i
       in case loop_search g n [e] (loop_body loop) of
            Inl err \<Rightarrow> Inl err
          | Inr b \<Rightarrow>
              Inr (loops[i := loop\<lparr>loop_body := b, back_edge_heads := insert e (back_edge_heads loop)\<rparr>],
                   entryToLoop))"

fun loop_edges ::
  "'t::linorder call_graph \<Rightarrow> 't set \<Rightarrow> 't \<Rightarrow> 't list \<Rightarrow> 't loops_state \<Rightarrow> cxx_error + 't loops_state" where
  "loop_edges g dome e [] st = Inr st"
| "loop_edges g dome e (n # next) st =
     (case loop_edge g dome e n st of Inl err \<Rightarrow> Inl err | Inr st' \<Rightarrow> loop_edges g dome e next st')"

fun loop_nodes ::
  "'t::linorder call_graph \<Rightarrow> ('t, 't set) std_map \<Rightarrow> 't list \<Rightarrow> 't loops_state \<Rightarrow> cxx_error + 't loops_state" where
  "loop_nodes g dm [] st = Inr st"
| "loop_nodes g dm (e # es) st =
     (case map_of (out_edges g) e of
        None \<Rightarrow> Inl UndefinedBehaviour
      | Some next \<Rightarrow>
          (case loop_edges g (doms dm e) e next st of Inl err \<Rightarrow> Inl err | Inr st' \<Rightarrow> loop_nodes g dm es st'))"

definition compute_loops :: "'t::linorder call_graph \<Rightarrow> 't \<Rightarrow> (cxx_error + 't Loop list) option" where
  "compute_loops g start =
     (case cg_dominators g start [] of
        None \<Rightarrow> None
      | Some dm \<Rightarrow> Some (map_sum id fst (loop_nodes g dm (cg_nodes g) ([], []))))"

section \<open>The dominators\<close>

lemma doms_modify: "doms (map_modify {} n f d) x = (if x = n then f (doms d n) else doms d x)"
  by (auto simp: doms_def map_of_modify split: option.split)

lemma doms_init:
  assumes "distinct (cg_nodes g)" and "n \<in> set (cg_nodes g)"
  shows "doms (dominators_init g start []) n = (if n = start then {start} else set (cg_nodes g))"
proof -
  let ?f = "\<lambda>n. if n = start then map_modify {} n (insert start) else map_modify {} n (\<lambda>s. s \<union> set (cg_nodes g))"
  have step: "doms (?f m d) n = (if m \<noteq> n then doms d n else if n = start then insert start (doms d n)
      else doms d n \<union> set (cg_nodes g))" for m d
    by (auto simp: doms_modify)
  have "doms (fold ?f ns d) n = (if n \<notin> set ns then doms d n else if n = start then insert start (doms d n)
      else doms d n \<union> set (cg_nodes g))" if "distinct ns" for ns d
    using that by (induction ns arbitrary: d) (auto simp: doms_modify)
  from this [OF assms(1), of "[]"] assms(2) show ?thesis
    by (simp add: dominators_init_def doms_def)
qed

text \<open>What one node does to the sets.\<close>

definition node_step :: "('t \<Rightarrow> 't list) \<Rightarrow> 't \<Rightarrow> ('t \<Rightarrow> 't set) \<Rightarrow> 't \<Rightarrow> 't set" where
  "node_step P n D = D(n := insert n (D n \<inter> (\<Inter>c \<in> set (P n). D c)))"

lemma dominators_node_doms:
  assumes "n \<in> keys (in_edges g)"
  shows "doms (snd (dominators_node g n (ch, d))) = node_step (ins g) n (doms d)"
    and "fst (dominators_node g n (ch, d)) \<longleftrightarrow> ch \<or> card (node_step (ins g) n (doms d) n) \<noteq> card (doms d n)"
proof -
  let ?f = "\<lambda>c d. let d = map_modify {} c id (map_modify {} n id d) in map_modify {} n (\<lambda>s. s \<inter> doms d c) d"
  from assms obtain v where v: "map_of (in_edges g) n = Some v" using keys_map_of by metis
  then have [simp]: "ins g n = v" by (simp add: ins_def vec_def)
  have f: "doms (?f c d) = (doms d)(n := doms d n \<inter> doms d c)" for c d
    by (rule ext) (simp add: doms_modify Let_def)
  have fold: "doms (fold ?f v d) = (doms d)(n := doms d n \<inter> (\<Inter>c \<in> set v. doms d c))" for v d
  proof (induction v arbitrary: d)
    case (Cons c v)
    show ?case unfolding fold.simps comp_apply Cons.IH f by (auto simp: fun_eq_iff)
  qed (auto simp: fun_eq_iff)
  show *: "doms (snd (dominators_node g n (ch, d))) = node_step (ins g) n (doms d)"
    using v fold [of v d] by (auto simp: dominators_node_def node_step_def Let_def doms_modify fun_eq_iff)
  show "fst (dominators_node g n (ch, d)) \<longleftrightarrow> ch \<or> card (node_step (ins g) n (doms d) n) \<noteq> card (doms d n)"
    unfolding * [symmetric] using v by (simp add: dominators_node_def Let_def)
qed

text \<open>
  What a pass keeps: every set has its node and lies within the graph, the start has itself
  alone, and no dominator is ever dropped.
\<close>

definition dom_inv :: "'t call_graph \<Rightarrow> 't \<Rightarrow> ('t \<Rightarrow> 't set) \<Rightarrow> bool" where
  "dom_inv g s D \<longleftrightarrow> D s = {s} \<and>
     (\<forall>n \<in> set (cg_nodes g). n \<in> D n \<and> D n \<subseteq> set (cg_nodes g) \<and>
        (\<forall>x \<in> set (cg_nodes g). dominates (call_rel g) s x n \<longrightarrow> x \<in> D n))"

lemma dom_invD:
  assumes "dom_inv g s D"
  shows "D s = {s}" "n \<in> set (cg_nodes g) \<Longrightarrow> n \<in> D n" "n \<in> set (cg_nodes g) \<Longrightarrow> D n \<subseteq> set (cg_nodes g)"
    "n \<in> set (cg_nodes g) \<Longrightarrow> x \<in> set (cg_nodes g) \<Longrightarrow> dominates (call_rel g) s x n \<Longrightarrow> x \<in> D n"
  using assms by (simp_all add: dom_inv_def)

definition dom_size :: "'t call_graph \<Rightarrow> ('t \<Rightarrow> 't set) \<Rightarrow> nat" where
  "dom_size g D = (\<Sum>n \<in> set (cg_nodes g). card (D n))"

lemma node_step_inv:
  assumes ok: "cg_ok g" and inv: "dom_inv g s D" and n: "n \<in> set (cg_nodes g)"
  shows "dom_inv g s (node_step (ins g) n D)"
proof -
  let ?D = "node_step (ins g) n D"
  have "?D s = {s}" using dom_invD(1) [OF inv] by (auto simp: node_step_def)
  moreover have "m \<in> ?D m \<and> ?D m \<subseteq> set (cg_nodes g)" if "m \<in> set (cg_nodes g)" for m
    using dom_invD(2,3) [OF inv that] n by (auto simp: node_step_def)
  moreover have "x \<in> ?D m" if m: "m \<in> set (cg_nodes g)" and x: "x \<in> set (cg_nodes g)"
      and dom: "dominates (call_rel g) s x m" for m x
  proof (cases "m = n \<and> x \<noteq> n")
    case True
    have "x \<in> D c" if "c \<in> set (ins g n)" for c
    proof -
      have e: "(c, n) \<in> call_rel g" using that ok by (simp add: call_rel_def outs_mem_ins)
      then have "dominates (call_rel g) s x c" using dom True dominates_pred by metis
      then show ?thesis using dom_invD(4) [OF inv _ x] call_rel_nodes [OF ok e] by blast
    qed
    then show ?thesis using True dom_invD(4) [OF inv m x dom] by (auto simp: node_step_def)
  next
    case False
    then show ?thesis using dom_invD(4) [OF inv m x dom] by (auto simp: node_step_def)
  qed
  ultimately show ?thesis by (simp add: dom_inv_def)
qed

lemma node_step_size:
  assumes inv: "dom_inv g s D" and n: "n \<in> set (cg_nodes g)"
  defines "D' \<equiv> node_step (ins g) n D"
  shows "dom_size g D' \<le> dom_size g D" and "card (D' n) \<noteq> card (D n) \<longleftrightarrow> dom_size g D' < dom_size g D"
    and "card (D' n) = card (D n) \<Longrightarrow> D' = D"
proof -
  have fin: "finite (D n)" using dom_invD(3) [OF inv n] finite_subset by blast
  have sub: "D' n \<subseteq> D n" using dom_invD(2) [OF inv n] by (auto simp: D'_def node_step_def)
  then have le: "card (D' n) \<le> card (D n)" using fin by (simp add: card_mono)
  have split: "dom_size g E = card (E n) + (\<Sum>m \<in> set (cg_nodes g) - {n}. card (E m))" for E
    unfolding dom_size_def using n by (simp add: sum.remove)
  have rest: "(\<Sum>m \<in> set (cg_nodes g) - {n}. card (D' m)) = (\<Sum>m \<in> set (cg_nodes g) - {n}. card (D m))"
    by (rule sum.cong) (auto simp: D'_def node_step_def)
  show "dom_size g D' \<le> dom_size g D" using le by (simp add: split rest)
  show "card (D' n) \<noteq> card (D n) \<longleftrightarrow> dom_size g D' < dom_size g D" using le by (auto simp: split rest)
  show "D' = D" if "card (D' n) = card (D n)"
  proof -
    have "D' n = D n" using card_subset_eq [OF fin sub that] .
    then show ?thesis by (auto simp: D'_def node_step_def fun_eq_iff)
  qed
qed

text \<open>One pass over nodes of the graph.\<close>

lemma dominators_fold:
  assumes "cg_ok g" and "dom_inv g s (doms d)" and "set ns \<subseteq> set (cg_nodes g)"
    and "fold (dominators_node g) ns (ch, d) = (ch', d')"
  shows "dom_inv g s (doms d') \<and> dom_size g (doms d') \<le> dom_size g (doms d) \<and>
    (ch' \<longleftrightarrow> ch \<or> dom_size g (doms d') < dom_size g (doms d)) \<and>
    (\<not> ch' \<longrightarrow> doms d' = doms d \<and> (\<forall>n \<in> set ns. node_step (ins g) n (doms d) = doms d))"
  using assms
proof (induction ns arbitrary: ch d)
  case (Cons n ns)
  obtain ch1 d1 where step: "dominators_node g n (ch, d) = (ch1, d1)" by force
  have n: "n \<in> set (cg_nodes g)" using Cons.prems(3) by simp
  then have "n \<in> keys (in_edges g)" using cg_okD(3) [OF Cons.prems(1)] by simp
  from dominators_node_doms [OF this, of ch d]
  have d1: "doms d1 = node_step (ins g) n (doms d)"
    and ch1: "ch1 \<longleftrightarrow> ch \<or> card (doms d1 n) \<noteq> card (doms d n)"
    by (simp_all only: step fst_conv snd_conv)
  note size = node_step_size [OF Cons.prems(2) n, folded d1]
  have inv1: "dom_inv g s (doms d1)"
    unfolding d1 by (rule node_step_inv [OF Cons.prems(1,2) n])
  have "fold (dominators_node g) ns (ch1, d1) = (ch', d')"
    using Cons.prems(4) step by simp
  from Cons.IH [OF Cons.prems(1) inv1 _ this] Cons.prems(3)
  have IH: "dom_inv g s (doms d') \<and> dom_size g (doms d') \<le> dom_size g (doms d1) \<and>
    (ch' \<longleftrightarrow> ch1 \<or> dom_size g (doms d') < dom_size g (doms d1)) \<and>
    (\<not> ch' \<longrightarrow> doms d' = doms d1 \<and> (\<forall>n \<in> set ns. node_step (ins g) n (doms d1) = doms d1))"
    by simp
  have "doms d1 = doms d \<and> doms d' = doms d \<and> (\<forall>m \<in> set (n # ns). node_step (ins g) m (doms d) = doms d)"
    if "\<not> ch'"
  proof -
    from that IH ch1 have "card (doms d1 n) = card (doms d n)" by blast
    then have "doms d1 = doms d" by (rule size(3))
    then show ?thesis using that IH d1 by auto
  qed
  moreover have "dom_size g (doms d') < dom_size g (doms d) \<longleftrightarrow>
      dom_size g (doms d') < dom_size g (doms d1) \<or> card (doms d1 n) \<noteq> card (doms d n)"
    unfolding size(2) using IH size(1) by linarith
  then have "ch' \<longleftrightarrow> ch \<or> dom_size g (doms d') < dom_size g (doms d)" using IH ch1 by blast
  moreover have "dom_size g (doms d') \<le> dom_size g (doms d)" using IH size(1) by linarith
  ultimately show ?case using IH by blast
qed simp

lemma dominators_correct:
  assumes ok: "cg_ok g" and s: "s \<in> set (cg_nodes g)"
  shows "\<exists>d. cg_dominators g s [] = Some d \<and>
    (\<forall>n \<in> set (cg_nodes g). doms d n = {x \<in> set (cg_nodes g). dominates (call_rel g) s x n})"
proof -
  let ?step = "\<lambda>(changes, d). dominators_pass g d"
  let ?P = "\<lambda>(ch, d). dom_inv g s (doms d) \<and>
     (\<not> ch \<longrightarrow> (\<forall>n \<in> set (cg_nodes g). node_step (ins g) n (doms d) = doms d))"
  let ?m = "\<lambda>(ch, d). dom_size g (doms d) + (if ch then 1 else 0)"
  have init: "?P (True, dominators_init g s [])"
    using s doms_init [OF cg_okD(1) [OF ok], of _ s] dominates_only_start [of "call_rel g" s]
    by (auto simp: dom_inv_def)
  have pass: "?P (?step st) \<and> ?m (?step st) < ?m st" if P: "?P st" and f: "fst st" for st
  proof -
    obtain d where st: "st = (True, d)" using f by (cases st) simp
    obtain ch' d' where r: "fold (dominators_node g) (cg_nodes g) (False, d) = (ch', d')" by force
    have "dom_inv g s (doms d)" using P st by simp
    from dominators_fold [OF ok this subset_refl r] show ?thesis
      by (auto simp: st dominators_pass_def r)
  qed
  from measure_while_option_Some [of ?P fst ?step ?m, OF pass init]
  obtain st where st: "while_option fst ?step (True, dominators_init g s []) = Some st" by blast
  have "?P st"
    by (rule while_option_rule [of ?P, OF _ st init]) (use pass in simp)
  moreover have "\<not> fst st" using while_option_stop [OF st] .
  ultimately have inv: "dom_inv g s (doms (snd st))"
    and fix_: "node_step (ins g) n (doms (snd st)) = doms (snd st)" if "n \<in> set (cg_nodes g)" for n
    using that s by (auto split: prod.splits)
  let ?D = "doms (snd st)"
  have inv: "dom_inv g s ?D" using inv [OF s] .
  have edge: "?D v \<subseteq> insert v (?D u)" if "(u, v) \<in> call_rel g" for u v
  proof -
    have "u \<in> set (ins g v)" using that outs_mem_ins [OF ok] by (auto simp: call_rel_def)
    moreover have "?D v = insert v (?D v \<inter> (\<Inter>c \<in> set (ins g v). ?D c))"
      using fun_cong [OF fix_, of v v] call_rel_nodes [OF ok that] by (simp add: node_step_def)
    ultimately show ?thesis by blast
  qed
  have "?D n = {x \<in> set (cg_nodes g). dominates (call_rel g) s x n}" if n: "n \<in> set (cg_nodes g)" for n
    using dom_invD(1) [OF inv] dom_invD(3) [OF inv n] dom_invD(4) [OF inv n]
      dominators_sound [of ?D s "call_rel g" _ n, OF _ edge] by auto
  then show ?thesis using st by (simp add: cg_dominators_def)
qed

section \<open>Natural loops\<close>

text \<open>The edges a path to \<open>n\<close> may use before it first gets there, and the loop of the back edges \<open>P\<close> to \<open>n\<close>.\<close>

definition avoid :: "'t call_graph \<Rightarrow> 't \<Rightarrow> 't rel" where
  "avoid g n = {(a, b) \<in> call_rel g. b \<noteq> n}"

definition natural_loop :: "'t call_graph \<Rightarrow> 't rel \<Rightarrow> 't \<Rightarrow> 't Loop" where
  "natural_loop g P n =
     \<lparr>loop_entry = n, loop_body = {x. \<exists>e. (e, n) \<in> P \<and> (x, e) \<in> (avoid g n)\<^sup>*},
      back_edge_heads = {e. (e, n) \<in> P}\<rparr>"

lemma loop_search_inv:
  assumes "cg_ok g" and "set work \<subseteq> set (cg_nodes g)"
    and "\<And>x y. x \<in> body \<Longrightarrow> (y, x) \<in> avoid g n \<Longrightarrow> y \<in> body \<union> set work"
  shows "\<exists>b. loop_search g n work body = Inr b \<and> body \<union> set work \<subseteq> b \<and>
    b \<subseteq> body \<union> {x. \<exists>w \<in> set work. (x, w) \<in> (avoid g n)\<^sup>*} \<and> (\<forall>x \<in> b. \<forall>y. (y, x) \<in> avoid g n \<longrightarrow> y \<in> b)"
  using assms
proof (induction g n work body rule: loop_search.induct)
  case (2 g n crt work body)
  show ?case
  proof (cases "crt = n")
    case True
    have "y \<in> insert crt body \<union> set work" if "x \<in> insert crt body" "(y, x) \<in> avoid g n" for x y
      using that True 2(5) [of x y] by (auto simp: avoid_def)
    moreover have "set work \<subseteq> set (cg_nodes g)" using 2(4) by simp
    ultimately obtain b where b: "loop_search g n work (insert crt body) = Inr b" "insert crt body \<union> set work \<subseteq> b"
        "b \<subseteq> insert crt body \<union> {x. \<exists>u \<in> set work. (x, u) \<in> (avoid g n)\<^sup>*}"
        "\<forall>x \<in> b. \<forall>y. (y, x) \<in> avoid g n \<longrightarrow> y \<in> b"
      using 2(1) [OF True 2(3)] by blast
    then show ?thesis using True by auto
  next
    case False
    have "crt \<in> keys (in_edges g)" using 2(4) cg_okD(3) [OF 2(3)] by simp
    then obtain v where v: "map_of (in_edges g) crt = Some v" using keys_map_of by metis
    define w where "w = fold (\<lambda>i w. if i \<notin> insert crt body then set_put i w else w) v work"
    have w: "set w = (set v - insert crt body) \<union> set work"
      unfolding w_def by (rule fold_filtered_put)
    have pred: "y \<in> set v \<longleftrightarrow> (y, crt) \<in> avoid g n" for y
      using v False outs_mem_ins [OF 2(3)] by (auto simp: avoid_def call_rel_def ins_def vec_def)
    have nodes: "set w \<subseteq> set (cg_nodes g)"
      using 2(4) call_rel_nodes [OF 2(3)] unfolding w by (auto simp: pred avoid_def)
    have "y \<in> insert crt body \<union> set w" if "x \<in> insert crt body" "(y, x) \<in> avoid g n" for x y
      using that 2(5) [of x y] pred unfolding w by auto
    with nodes obtain b where b: "loop_search g n w (insert crt body) = Inr b" "insert crt body \<union> set w \<subseteq> b"
        "b \<subseteq> insert crt body \<union> {x. \<exists>u \<in> set w. (x, u) \<in> (avoid g n)\<^sup>*}"
        "\<forall>x \<in> b. \<forall>y. (y, x) \<in> avoid g n \<longrightarrow> y \<in> b"
      using 2(2) [OF False v 2(3), folded w_def] by blast
    have "{x. \<exists>u \<in> set w. (x, u) \<in> (avoid g n)\<^sup>*} \<subseteq> {x. \<exists>u \<in> set (crt # work). (x, u) \<in> (avoid g n)\<^sup>*}"
      unfolding w using pred by (auto intro: rtrancl_into_rtrancl)
    moreover have "crt \<in> {x. \<exists>u \<in> set (crt # work). (x, u) \<in> (avoid g n)\<^sup>*}" by auto
    moreover have "loop_search g n (crt # work) body = loop_search g n w (insert crt body)"
      using False v by (simp add: w_def)
    moreover have "body \<union> set (crt # work) \<subseteq> b" using b(2) w by auto
    moreover from calculation(1,2) b(3)
    have "b \<subseteq> body \<union> {x. \<exists>u \<in> set (crt # work). (x, u) \<in> (avoid g n)\<^sup>*}" by blast
    ultimately show ?thesis using b(1,4) by simp
  qed
qed auto

text \<open>A body that is closed is extended by what reaches \<open>e\<close>.\<close>

lemma loop_search_body:
  assumes "cg_ok g" and "e \<in> set (cg_nodes g)" and "\<And>x y. x \<in> body \<Longrightarrow> (y, x) \<in> avoid g n \<Longrightarrow> y \<in> body"
  shows "loop_search g n [e] body = Inr (body \<union> {x. (x, e) \<in> (avoid g n)\<^sup>*})"
proof -
  from loop_search_inv [of g "[e]" body n] assms
  obtain b where b: "loop_search g n [e] body = Inr b" "insert e body \<subseteq> b"
      "b \<subseteq> body \<union> {x. (x, e) \<in> (avoid g n)\<^sup>*}" "\<And>x y. x \<in> b \<Longrightarrow> (y, x) \<in> avoid g n \<Longrightarrow> y \<in> b"
    by auto
  have "x \<in> b" if "(x, e) \<in> (avoid g n)\<^sup>*" for x
    using that by (induction rule: converse_rtrancl_induct) (use b in auto)
  then have "b = body \<union> {x. (x, e) \<in> (avoid g n)\<^sup>*}" using b(2,3) by blast
  then show ?thesis using b(1) by simp
qed

text \<open>The state of the outer loops after the back edges \<open>P\<close>.\<close>

definition loops_inv :: "'t::linorder call_graph \<Rightarrow> 't rel \<Rightarrow> 't loops_state \<Rightarrow> bool" where
  "loops_inv g P st \<longleftrightarrow> (\<exists>ns. distinct ns \<and> set ns = snd ` P \<and> fst st = map (natural_loop g P) ns \<and>
     (\<forall>n. map_of (snd st) n = (if n \<in> set ns then Some (pos ns n) else None)))"

lemma natural_loop_other: "m \<noteq> n \<Longrightarrow> natural_loop g (insert (e, n) P) m = natural_loop g P m"
  by (auto simp: natural_loop_def)

lemma natural_loop_insert:
  "natural_loop g (insert (e, n) P) n = (natural_loop g P n)
     \<lparr>loop_body := loop_body (natural_loop g P n) \<union> {x. (x, e) \<in> (avoid g n)\<^sup>*},
      back_edge_heads := insert e (back_edge_heads (natural_loop g P n))\<rparr>"
  by (auto simp: natural_loop_def)

lemma natural_loop_closed:
  "x \<in> loop_body (natural_loop g P n) \<Longrightarrow> (y, x) \<in> avoid g n \<Longrightarrow> y \<in> loop_body (natural_loop g P n)"
  by (auto simp: natural_loop_def intro: converse_rtrancl_into_rtrancl)

lemma natural_loop_new: "n \<notin> snd ` P \<Longrightarrow> natural_loop g P n = \<lparr>loop_entry = n, loop_body = {}, back_edge_heads = {}\<rparr>"
  by (force simp: natural_loop_def)

lemma map_natural_loop_update:
  assumes "distinct ns" and "n \<in> set ns"
  shows "(map (natural_loop g P) ns)[pos ns n := natural_loop g (insert (e, n) P) n] =
    map (natural_loop g (insert (e, n) P)) ns"
proof (rule nth_equalityI)
  fix i assume "i < length ((map (natural_loop g P) ns)[pos ns n := natural_loop g (insert (e, n) P) n])"
  then have i: "i < length ns" by simp
  show "(map (natural_loop g P) ns)[pos ns n := natural_loop g (insert (e, n) P) n] ! i =
      map (natural_loop g (insert (e, n) P)) ns ! i"
  proof (cases "ns ! i = n")
    case True
    then have "pos ns n = i" using pos_nth assms(1) i by blast
    then show ?thesis using i True by simp
  next
    case False
    then have "i \<noteq> pos ns n" using nth_pos assms(2) by metis
    then show ?thesis using i False by (simp add: natural_loop_other)
  qed
qed simp

lemma loop_edge_inv:
  assumes ok: "cg_ok g" and e: "e \<in> set (cg_nodes g)" and inv: "loops_inv g P st"
  shows "\<exists>st'. loop_edge g dome e n st = Inr st' \<and> loops_inv g (if n \<in> dome then insert (e, n) P else P) st'"
proof (cases "n \<in> dome")
  case True
  obtain loops m where st: "st = (loops, m)" by force
  from inv obtain ns where ns: "distinct ns" "set ns = snd ` P" "loops = map (natural_loop g P) ns"
      "\<And>x. map_of m x = (if x \<in> set ns then Some (pos ns x) else None)"
    by (auto simp: loops_inv_def st)
  define ns' where "ns' = (if n \<in> set ns then ns else ns @ [n])"
  define m' where "m' = (if n \<in> set ns then m else map_put n (length ns) m)"
  have ns': "distinct ns'" "set ns' = snd ` insert (e, n) P" "n \<in> set ns'"
    using ns(1,2) by (auto simp: ns'_def)
  have m': "map_of m' x = (if x \<in> set ns' then Some (pos ns' x) else None)" for x
    using ns(4) by (auto simp: m'_def ns'_def pos_append)
  have len: "pos ns' n < length ns'" using ns'(3) by (rule pos_less_length)
  have at: "map (natural_loop g P) ns' ! pos ns' n = natural_loop g P n"
    using len ns'(3) by (simp add: nth_pos)
  have "loop_edge g dome e n (loops, m) =
      (case loop_search g n [e] (loop_body (natural_loop g P n)) of
         Inl err \<Rightarrow> Inl err
       | Inr b \<Rightarrow> Inr ((map (natural_loop g P) ns')[pos ns' n := (natural_loop g P n)\<lparr>loop_body := b,
             back_edge_heads := insert e (back_edge_heads (natural_loop g P n))\<rparr>], m'))"
  proof (cases "n \<in> set ns")
    case in_ns: True
    then have "ns' = ns" "m' = m" by (simp_all add: ns'_def m'_def)
    then show ?thesis
      using in_ns True ns(3,4) at by (simp add: loop_edge_def Let_def del: loop_search.simps split: sum.split)
  next
    case False
    then have new: "\<lparr>loop_entry = n, loop_body = {}, back_edge_heads = {}\<rparr> = natural_loop g P n"
      using natural_loop_new [of n P g] ns(2) by simp
    have p: "pos ns' n = length ns" using False by (simp add: ns'_def pos_append)
    show ?thesis
      unfolding p using True False ns(3,4) by (simp add: loop_edge_def ns'_def m'_def new nth_append Let_def del: loop_search.simps split: sum.split)
  qed
  also have "\<dots> = Inr (map (natural_loop g (insert (e, n) P)) ns', m')"
    using map_natural_loop_update [OF ns'(1,3)] loop_search_body [OF ok e natural_loop_closed]
    by (simp add: natural_loop_insert del: loop_search.simps)
  finally show ?thesis
    using True ns' m' by (auto simp: st loops_inv_def)
qed (use inv in \<open>auto simp: loop_edge_def split: prod.split\<close>)

lemma loop_edges_inv:
  assumes "cg_ok g" and "e \<in> set (cg_nodes g)" and "loops_inv g P st"
  shows "\<exists>st'. loop_edges g dome e next st = Inr st' \<and> loops_inv g (P \<union> {e} \<times> (set next \<inter> dome)) st'"
  using assms(3)
proof (induction "next" arbitrary: st P)
  case (Cons n ns)
  from loop_edge_inv [OF assms(1,2) Cons.prems, of dome n] obtain st1
    where st1: "loop_edge g dome e n st = Inr st1" "loops_inv g (if n \<in> dome then insert (e, n) P else P) st1"
    by blast
  have "(if n \<in> dome then insert (e, n) P else P) \<union> {e} \<times> (set ns \<inter> dome) = P \<union> {e} \<times> (set (n # ns) \<inter> dome)"
    by auto
  with Cons.IH [OF st1(2)] st1(1) show ?case by simp
qed auto

lemma loop_nodes_inv:
  assumes "cg_ok g" and "set es \<subseteq> set (cg_nodes g)" and "loops_inv g P st"
  shows "\<exists>st'. loop_nodes g dm es st = Inr st' \<and>
    loops_inv g (P \<union> {(e, n). e \<in> set es \<and> (e, n) \<in> call_rel g \<and> n \<in> doms dm e}) st'"
  using assms(2,3)
proof (induction es arbitrary: st P)
  case (Cons e es)
  have e: "e \<in> set (cg_nodes g)" using Cons.prems(1) by simp
  then obtain v where v: "map_of (out_edges g) e = Some v"
    using cg_okD(2) [OF assms(1)] keys_map_of by metis
  then have out: "n \<in> set v \<longleftrightarrow> (e, n) \<in> call_rel g" for n by (simp add: call_rel_def outs_def vec_def)
  from loop_edges_inv [OF assms(1) e Cons.prems(2)] obtain st1
    where st1: "loop_edges g (doms dm e) e v st = Inr st1" "loops_inv g (P \<union> {e} \<times> (set v \<inter> doms dm e)) st1"
    by blast
  have "P \<union> {e} \<times> (set v \<inter> doms dm e) \<union> {(e, n). e \<in> set es \<and> (e, n) \<in> call_rel g \<and> n \<in> doms dm e} =
      P \<union> {(x, n). x \<in> set (e # es) \<and> (x, n) \<in> call_rel g \<and> n \<in> doms dm x}"
    using out by auto
  with Cons.IH [OF _ st1(2)] st1(1) v Cons.prems(1) show ?case by simp
qed auto

text \<open>A node of a natural loop is dominated by the entry.\<close>

lemma natural_loop_dominated:
  assumes "(x, e) \<in> (avoid g n)\<^sup>*" and "dominates (call_rel g) s n e"
  shows "dominates (call_rel g) s n x"
  using assms
proof (induction rule: converse_rtrancl_induct)
  case (step x y)
  then show ?case using dominates_pred [of "call_rel g" s n y x] by (auto simp: avoid_def)
qed

section \<open>Properties\<close>

text \<open>A graph with two nested loops and a node that is not reachable.\<close>

definition sample_loops :: "nat call_graph" where
  "sample_loops = fold (\<lambda>(u, v). cg_calls u v) [(0, 1), (1, 2), (2, 3), (3, 2), (3, 1), (3, 4), (5, 4)] cg_new"

lemma sample_loops_ok: "cg_ok sample_loops"
  unfolding sample_loops_def by (simp add: cg_new_ok cg_calls_ok)

text \<open>
  C3: \<open>dominators\<close> ends on every graph, and then the set of each node holds exactly the nodes that
  every path from the start to it goes through (all nodes, where there is no such path).
\<close>

theorem dominators_exact:
  assumes "cg_ok g" and "s \<in> set (cg_nodes g)"
  shows "\<exists>d. cg_dominators g s [] = Some d \<and>
    (\<forall>n. n \<in> set (cg_nodes g) \<longrightarrow> doms d n = {x \<in> set (cg_nodes g). dominates (call_rel g) s x n})"
  by (rule dominators_correct [OF assms, unfolded Ball_def])

theorem dominators_exact_witness:
  "\<exists>d. cg_dominators sample_loops 0 [] = Some d \<and>
    (\<forall>n. n \<in> set (cg_nodes sample_loops) \<longrightarrow>
       doms d n = {x \<in> set (cg_nodes sample_loops). dominates (call_rel sample_loops) 0 x n})"
  by (rule dominators_exact [OF sample_loops_ok]) code_simp

text \<open>
  C8: \<open>compute_loops\<close> ends without following a null pointer. It returns one loop per target of a
  back edge (an edge whose target dominates its source); its heads are the sources of the back
  edges to its entry, its body the nodes from which a head can be reached without passing through
  the entry, and all of them are dominated by the entry.
\<close>

theorem compute_loops_natural:
  assumes "cg_ok g" and "s \<in> set (cg_nodes g)"
  defines "be \<equiv> {(e, n) \<in> call_rel g. dominates (call_rel g) s n e}"
  shows "\<exists>loops. compute_loops g s = Some (Inr loops) \<and> distinct (map loop_entry loops) \<and>
    loop_entry ` set loops = snd ` be \<and>
    (\<forall>l. l \<in> set loops \<longrightarrow>
       back_edge_heads l = {e. (e, loop_entry l) \<in> be} \<and>
       loop_body l = {x. \<exists>e \<in> back_edge_heads l. (x, e) \<in> (avoid g (loop_entry l))\<^sup>*} \<and>
       (\<forall>x. x \<in> loop_body l \<longrightarrow> dominates (call_rel g) s (loop_entry l) x))"
proof -
  from dominators_correct [OF assms(1,2)] obtain d where d: "cg_dominators g s [] = Some d"
      "\<And>n. n \<in> set (cg_nodes g) \<Longrightarrow> doms d n = {x \<in> set (cg_nodes g). dominates (call_rel g) s x n}"
    by blast
  have be: "{(e, n). e \<in> set (cg_nodes g) \<and> (e, n) \<in> call_rel g \<and> n \<in> doms d e} = be"
    using d(2) call_rel_nodes [OF assms(1)] by (auto simp: be_def)
  have "loops_inv g {} ([], [])" by (simp add: loops_inv_def)
  from loop_nodes_inv [OF assms(1) subset_refl this, of d, unfolded be]
  obtain loops m ns where r: "loop_nodes g d (cg_nodes g) ([], []) = Inr (loops, m)" "distinct ns"
      "set ns = snd ` be" "loops = map (natural_loop g be) ns"
    by (auto simp: loops_inv_def)
  have entry: "loop_entry (natural_loop g be n) = n" for n by (simp add: natural_loop_def)
  then have "map loop_entry loops = ns" "loop_entry ` set loops = set ns"
    by (simp_all add: r(4) comp_def image_image)
  moreover have "back_edge_heads l = {e. (e, loop_entry l) \<in> be} \<and>
       loop_body l = {x. \<exists>e \<in> back_edge_heads l. (x, e) \<in> (avoid g (loop_entry l))\<^sup>*} \<and>
       (\<forall>x. x \<in> loop_body l \<longrightarrow> dominates (call_rel g) s (loop_entry l) x)" if "l \<in> set loops" for l
    using that natural_loop_dominated [of _ _ g _ s] by (auto simp: r(4) natural_loop_def be_def)
  ultimately show ?thesis
    using d(1) r(1,2,3) by (simp add: compute_loops_def)
qed

theorem compute_loops_natural_witness:
  "\<exists>loops. compute_loops sample_loops 0 = Some (Inr loops) \<and> distinct (map loop_entry loops) \<and>
    1 \<in> loop_entry ` set loops"
proof -
  let ?be = "{(e, n) \<in> call_rel sample_loops. dominates (call_rel sample_loops) 0 n e}"
  have s: "0 \<in> set (cg_nodes sample_loops)" by code_simp
  have "1 \<in> set (outs sample_loops 3)" by code_simp
  then have "(3, 1) \<in> call_rel sample_loops" by (simp add: call_rel_def)
  moreover have "dominates (call_rel sample_loops) 0 1 3"
  proof -
    have "set (ins sample_loops 3) = {2}" "set (ins sample_loops 2) = {1, 3}" "set (ins sample_loops 1) = {0, 3}"
      by code_simp+
    then have in_: "(x, 3) \<in> call_rel sample_loops \<longleftrightarrow> x = 2" "(x, 2) \<in> call_rel sample_loops \<longleftrightarrow> x = 1 \<or> x = 3" for x
      using outs_mem_ins [OF sample_loops_ok] by (auto simp: call_rel_def)
    have "walk (call_rel sample_loops) 0 p n \<Longrightarrow> n = 2 \<or> n = 3 \<Longrightarrow> 1 \<in> set p" for p n
      by (induction rule: walk.induct) (auto simp: in_ dest: walk_last)
    then show ?thesis by (auto simp: dominates_def)
  qed
  ultimately have "(3, 1) \<in> ?be" by simp
  then have "1 \<in> snd ` ?be" by force
  with compute_loops_natural [OF sample_loops_ok s] show ?thesis by metis
qed

end
