(* ===== verification/P4_Int.thy ===== *)
theory P4_Int
  imports Prelude
begin

text \<open>
  Arbitrary-precision integers as the front end uses them: the helper functions of
  \<open>lib/gmputil\<close>, the types of the IR and the integer constants (\<open>ir/expression.cpp\<close>,
  \<open>ir/expression.def\<close>). An \<open>mpz_class\<close> is an \<open>int\<close> and the library functions on it are the
  operations of the integers. What the conversions \<open>get_si\<close> and \<open>get_ui\<close> return for a value that
  does not fit is left open: they are the fields of a record, and \<open>gmp_ok\<close> states what the library
  documents.
\<close>

unbundle bit_operations_syntax

section \<open>lib/gmputil\<close>

definition shift_left :: "int \<Rightarrow> nat \<Rightarrow> int" where
  "shift_left v bits = v * 2 ^ bits"

definition shift_right :: "int \<Rightarrow> nat \<Rightarrow> int" where
  "shift_right v bits = v div 2 ^ bits"

text \<open>The last bits of a value, and the rest of the value.\<close>

definition ripBits :: "int \<Rightarrow> nat \<Rightarrow> int \<times> int" where
  "ripBits v bits = (v mod 2 ^ bits, v div 2 ^ bits)"

definition mask_bits :: "nat \<Rightarrow> int" where
  "mask_bits bits = shift_left 1 bits - 1"

definition maskFromSlice :: "nat \<Rightarrow> nat \<Rightarrow> cxx_error + int" where
  "maskFromSlice m l = (if m < l then Inl LogicError else Inr (mask_bits (m + 1) - mask_bits l))"

text \<open>\<open>mpz_scan1\<close> and \<open>mpz_scan0\<close> from bit 0: the position of the first bit that is set, or not set.\<close>

function scan1 :: "int \<Rightarrow> nat option" where
  "scan1 v = (if v = 0 then None else if odd v then Some 0 else map_option Suc (scan1 (v div 2)))"
  by pat_completeness auto
termination by (relation "measure (\<lambda>v. nat \<bar>v\<bar>)") auto

function scan0 :: "int \<Rightarrow> nat option" where
  "scan0 v = (if v = -1 then None else if even v then Some 0 else map_option Suc (scan0 (v div 2)))"
  by pat_completeness auto
termination
proof (relation "measure (\<lambda>v. nat \<bar>v\<bar>)", goal_cases)
  case (2 v)
  then have "v \<noteq> 0" "v \<noteq> -1" by auto
  then show ?case by simp
qed simp

declare scan1.simps [simp del] and scan0.simps [simp del]

record BitRange =
  lowIndex :: nat
  highIndex :: nat
  bits_value :: int

text \<open>
  The first run of set bits of a value that is not negative; the indices of 0 are the largest
  unsigned numbers. A negative value may have no clear bit to end the run.
\<close>

definition findOnes :: "int \<Rightarrow> cxx_error + BitRange" where
  "findOnes v =
     (case scan1 v of
        None \<Rightarrow> Inr \<lparr>lowIndex = 2 ^ 32 - 1, highIndex = 2 ^ 32 - 1, bits_value = 0\<rparr>
      | Some l \<Rightarrow>
          (case scan0 (v div 2 ^ l) of
             None \<Rightarrow> Inl UndefinedBehaviour
           | Some k \<Rightarrow> map_sum id (\<lambda>m. \<lparr>lowIndex = l, highIndex = l + k - 1, bits_value = m\<rparr>)
                         (maskFromSlice (l + k - 1) l)))"

definition digit_value :: "char \<Rightarrow> int option" where
  "digit_value c =
     (let n = of_char c in
      if 48 \<le> n \<and> n \<le> 57 then Some (n - 48)
      else if 97 \<le> n \<and> n \<le> 102 then Some (n - 97 + 10)
      else if 65 \<le> n \<and> n \<le> 70 then Some (n - 65 + 10)
      else None)"

fun cvtInt :: "string \<Rightarrow> int \<Rightarrow> int \<Rightarrow> cxx_error + int" where
  "cvtInt [] base rv = Inr rv"
| "cvtInt (c # s) base rv =
     (if c = CHR ''_'' then cvtInt s base rv
      else case digit_value c of
             None \<Rightarrow> Inl LogicError
           | Some d \<Rightarrow> cvtInt s base (rv * base + d))"

function bitcount_loop :: "int \<Rightarrow> nat" where
  "bitcount_loop v = (if v \<le> 0 then 0 else Suc (bitcount_loop (v AND (v - 1))))"
  by pat_completeness auto
termination
proof (relation "measure nat", goal_cases)
  case (2 v)
  then have "v AND (v - 1) \<le> v - 1" by (simp add: AND_upper2)
  with 2 show ?case by simp
qed simp

declare bitcount_loop.simps [simp del]

definition bitcount :: "int \<Rightarrow> cxx_error + nat" where
  "bitcount v = (if v < 0 then Inl BugCheck else Inr (bitcount_loop v))"

definition ffs :: "int \<Rightarrow> int" where
  "ffs v = (case scan1 v of None \<Rightarrow> -1 | Some i \<Rightarrow> int i)"

function floor_log2_loop :: "int \<Rightarrow> int \<Rightarrow> int" where
  "floor_log2_loop rv v = (if v > 0 then floor_log2_loop (rv + 1) (v div 2) else rv)"
  by pat_completeness auto
termination by (relation "measure (\<lambda>(rv, v). nat v)") auto

declare floor_log2_loop.simps [simp del]

definition floor_log2 :: "int \<Rightarrow> int" where
  "floor_log2 v = floor_log2_loop (-1) v"

section \<open>Types\<close>

text \<open>
  The types of the IR that the modelled passes tell apart. The struct-like types list their
  fields in the order of declaration; \<open>Type_Other\<close> stands for the types that carry no data
  (parsers, controls, tables, actions, methods, match kinds, packages).
\<close>

datatype ptype =
    Type_Bits nat bool
  | Type_InfInt
  | Type_Boolean
  | Type_Varbits nat
  | Type_Enum string "string list"
  | Type_SerEnum string ptype "string list"
  | Type_Error
  | Type_Struct string "(string \<times> ptype) list"
  | Type_Header string "(string \<times> ptype) list"
  | Type_HeaderUnion string "(string \<times> ptype) list"
  | Type_Stack ptype nat
  | Type_Tuple "ptype list"
  | Type_Set ptype
  | Type_Newtype string ptype
  | Type_Extern string
  | Type_Void
  | Type_Unknown
  | Type_Other string

fun width_bits :: "ptype \<Rightarrow> nat" where
  "width_bits (Type_Bits sz isSigned) = sz"
| "width_bits Type_Boolean = 1"
| "width_bits (Type_Struct n fs) = sum_list (map (\<lambda>(f, t). width_bits t) fs)"
| "width_bits (Type_Header n fs) = sum_list (map (\<lambda>(f, t). width_bits t) fs)"
| "width_bits (Type_HeaderUnion n fs) = foldl max 0 (map (\<lambda>(f, t). width_bits t) fs)"
| "width_bits (Type_Tuple ts) = sum_list (map width_bits ts)"
| "width_bits (Type_Set t) = width_bits t"
| "width_bits (Type_Newtype n t) = width_bits t"
| "width_bits _ = 0"

definition struct_fields :: "ptype \<Rightarrow> (string \<times> ptype) list option" where
  "struct_fields t =
     (case t of Type_Struct n fs \<Rightarrow> Some fs | Type_Header n fs \<Rightarrow> Some fs
      | Type_HeaderUnion n fs \<Rightarrow> Some fs | _ \<Rightarrow> None)"

text \<open>
  \<open>Member::lsb\<close>: the fields are passed from the last one on; running out of fields is a bug, and
  the loop reads the first field before it tests for the end.
\<close>

fun lsb_loop :: "string \<Rightarrow> nat \<Rightarrow> (string \<times> ptype) list \<Rightarrow> cxx_error + nat" where
  "lsb_loop member rv [] = Inl BugCheck"
| "lsb_loop member rv ((f, t) # fs) =
     (if f = member then Inr rv else lsb_loop member (rv + width_bits t) fs)"

definition member_lsb :: "ptype \<Rightarrow> string \<Rightarrow> cxx_error + nat" where
  "member_lsb t member =
     (case struct_fields t of
        None \<Rightarrow> Inl UndefinedBehaviour
      | Some [] \<Rightarrow> Inl UndefinedBehaviour
      | Some fs \<Rightarrow> lsb_loop member 0 (rev fs))"

definition member_msb :: "ptype \<Rightarrow> string \<Rightarrow> ptype \<Rightarrow> cxx_error + int" where
  "member_msb t member mt = map_sum id (\<lambda>l. int l + int (width_bits mt) - 1) (member_lsb t member)"

section \<open>Constants\<close>

text \<open>What the compiler reports; it goes on after an error or a warning.\<close>

datatype diag = Err string | Warn string

text \<open>The library's conversions to machine integers.\<close>

record gmp =
  get_si :: "int \<Rightarrow> int"
  get_ui :: "int \<Rightarrow> int"

definition fitsInt :: "int \<Rightarrow> bool" where
  "fitsInt v \<longleftrightarrow> - (2 ^ 31) \<le> v \<and> v < 2 ^ 31"

definition fitsLong :: "int \<Rightarrow> bool" where
  "fitsLong v \<longleftrightarrow> - (2 ^ 63) \<le> v \<and> v < 2 ^ 63"

definition fitsUint :: "int \<Rightarrow> bool" where
  "fitsUint v \<longleftrightarrow> 0 \<le> v \<and> v < 2 ^ 32"

definition fitsUint64 :: "int \<Rightarrow> bool" where
  "fitsUint64 v \<longleftrightarrow> \<bar>v\<bar> < 2 ^ 64"

definition asLong :: "gmp \<Rightarrow> int \<Rightarrow> diag list \<times> int" where
  "asLong G v = (if fitsLong v then [] else [Err ''Value too large for long''], get_si G v)"

definition asInt :: "gmp \<Rightarrow> int \<Rightarrow> diag list \<times> int" where
  "asInt G v = (if fitsInt v then [] else [Err ''Value too large for int''], signed_take_bit 31 (get_si G v))"

definition asUnsigned :: "gmp \<Rightarrow> int \<Rightarrow> diag list \<times> int" where
  "asUnsigned G v =
     (if fitsUint v then [] else [Err ''Value too large for unsigned int''], take_bit 32 (get_ui G v))"

text \<open>
  \<open>mpz_export\<close> writes the words of the magnitude; a value of more than one word is written past the
  end of the result.
\<close>

definition asUint64 :: "int \<Rightarrow> cxx_error + diag list \<times> int" where
  "asUint64 v = (if fitsUint64 v then Inr ([], \<bar>v\<bar>) else Inl UndefinedBehaviour)"

definition gmp_ok :: "gmp \<Rightarrow> bool" where
  "gmp_ok G \<longleftrightarrow> (\<forall>v. fitsLong v \<longrightarrow> get_si G v = v) \<and> (\<forall>v. 0 \<le> v \<and> v < 2 ^ 64 \<longrightarrow> get_ui G v = v)"

definition handleOverflow :: "ptype \<Rightarrow> bool \<Rightarrow> int \<Rightarrow> cxx_error + diag list \<times> int" where
  "handleOverflow t noWarning v =
     (case t of
        Type_InfInt \<Rightarrow> Inr ([], v)
      | Type_Bits width isSigned \<Rightarrow>
          let m = mask_bits width;
              warn = (\<lambda>w. if noWarning then [] else [Warn w]) in
          if isSigned then
            if width = 0 then Inl UndefinedBehaviour
            else
              let hi = shift_left 1 (width - 1) - 1;
                  lo = - shift_left 1 (width - 1) in
              if v < lo \<or> v > hi then
                let v' = v AND m in
                Inr (warn ''signed value does not fit'', if v' > hi then v' - shift_left 1 width else v')
              else Inr ([], v)
          else
            let ds = (if v < 0 then warn ''negative value with unsigned type''
                      else if v AND m \<noteq> v then warn ''value does not fit'' else []);
                v' = v AND m in
            if v' < 0 then Inl BugCheck else Inr (ds, v')
      | _ \<Rightarrow> Inl BugCheck)"

text \<open>The operators of \<open>IR::Constant\<close> that ignore the type of their operands.\<close>

definition const_shl :: "int \<Rightarrow> nat \<Rightarrow> int" where
  "const_shl v shift = v * 2 ^ shift"

definition const_shr :: "int \<Rightarrow> nat \<Rightarrow> int" where
  "const_shr v shift = v div 2 ^ shift"

definition const_and :: "int \<Rightarrow> int \<Rightarrow> int" where
  "const_and v c = v AND c"

definition const_or :: "int \<Rightarrow> int \<Rightarrow> int" where
  "const_or v c = v OR c"

definition const_xor :: "int \<Rightarrow> int \<Rightarrow> int" where
  "const_xor v c = v XOR c"

definition const_sub :: "int \<Rightarrow> int \<Rightarrow> int" where
  "const_sub v c = v - c"

definition const_neg :: "int \<Rightarrow> int" where
  "const_neg v = - v"

definition GetMask :: "nat \<Rightarrow> int" where
  "GetMask width = const_sub (const_shl 1 width) 1"

section \<open>Wrapping\<close>

text \<open>The value a \<open>w\<close>-bit number wraps to.\<close>

definition wrap :: "nat \<Rightarrow> bool \<Rightarrow> int \<Rightarrow> int" where
  "wrap w s v = (if s then signed_take_bit (w - 1) v else take_bit w v)"

definition in_range :: "nat \<Rightarrow> bool \<Rightarrow> int \<Rightarrow> bool" where
  "in_range w s v \<longleftrightarrow> (if s then - (2 ^ (w - 1)) \<le> v \<and> v < 2 ^ (w - 1) else 0 \<le> v \<and> v < 2 ^ w)"

lemma wrap_in_range: "0 < w \<Longrightarrow> in_range w s (wrap w s v)"
  by (simp add: in_range_def wrap_def signed_take_bit_int_greater_eq_minus_exp signed_take_bit_int_less_exp)

lemma wrap_id: "0 < w \<Longrightarrow> in_range w s v \<Longrightarrow> wrap w s v = v"
  by (auto simp: in_range_def wrap_def signed_take_bit_int_eq_self take_bit_int_eq_self split: if_splits)

lemma take_bit_wrap: "0 < w \<Longrightarrow> take_bit w (wrap w s v) = take_bit w v"
  by (cases w) (simp_all add: wrap_def take_bit_signed_take_bit)

lemma wrap_take_bit: "0 < w \<Longrightarrow> wrap w s (take_bit w v) = wrap w s v"
  by (cases w) (simp_all add: wrap_def signed_take_bit_take_bit)

lemma wrap_cong: "0 < w \<Longrightarrow> take_bit w u = take_bit w v \<Longrightarrow> wrap w s u = wrap w s v"
  by (metis wrap_take_bit)

lemma in_range_unique:
  "0 < w \<Longrightarrow> in_range w s u \<Longrightarrow> in_range w s v \<Longrightarrow> take_bit w u = take_bit w v \<Longrightarrow> u = v"
  by (metis wrap_cong wrap_id)

lemma wrap_wrap [simp]: "0 < w \<Longrightarrow> wrap w s (wrap w s v) = wrap w s v"
  by (simp add: wrap_id wrap_in_range)

lemma mask_bits_eq: "mask_bits w = mask w"
  by (simp add: mask_bits_def shift_left_def mask_eq_exp_minus_1)

lemma and_mask_bits: "v AND mask_bits w = take_bit w v"
  by (simp add: mask_bits_eq take_bit_eq_mask)

lemma handleOverflow_wrap:
  assumes "0 < w"
  shows "\<exists>ds. handleOverflow (Type_Bits w s) nw v = Inr (ds, wrap w s v) \<and> (ds = [] \<longleftrightarrow> nw \<or> in_range w s v)"
proof (cases s)
  case False
  then show ?thesis
    by (auto simp: handleOverflow_def Let_def and_mask_bits wrap_def in_range_def take_bit_int_eq_self_iff)
next
  case True
  let ?h = "2 ^ (w - 1) :: int"
  have w: "(2::int) ^ w = 2 * ?h" using assms by (cases w) auto
  show ?thesis
  proof (cases "in_range w s v")
    case in_: True
    then show ?thesis
      using True assms wrap_id [OF assms in_] by (auto simp: handleOverflow_def Let_def shift_left_def in_range_def)
  next
    case False
    define t where "t = take_bit w v"
    define u where "u = (if t > ?h - 1 then t - 2 ^ w else t)"
    have "0 \<le> t" "t < 2 * ?h" using take_bit_int_less_exp [of w v] by (simp_all add: t_def w)
    then have "in_range w s u"
      using True w by (auto simp: in_range_def u_def)
    moreover have "take_bit w u = take_bit w v"
      by (simp add: u_def t_def take_bit_eq_mod mod_diff_eq [symmetric])
    ultimately have "u = wrap w s v"
      by (metis assms in_range_unique take_bit_wrap wrap_in_range)
    then show ?thesis
      using True False assms
      by (auto simp: handleOverflow_def Let_def shift_left_def and_mask_bits in_range_def t_def [symmetric] u_def)
  qed
qed

section \<open>Counting bits\<close>

text \<open>\<open>mpz_popcount\<close> of a value that is not negative.\<close>

function popcount :: "int \<Rightarrow> nat" where
  "popcount v = (if v \<le> 0 then 0 else (if odd v then 1 else 0) + popcount (v div 2))"
  by pat_completeness auto
termination by (relation "measure nat") auto

declare popcount.simps [simp del]

lemma popcount_double: "0 \<le> v \<Longrightarrow> popcount (2 * v) = popcount v"
  by (subst popcount.simps) (simp add: popcount.simps [of v])

lemma popcount_odd: "0 \<le> v \<Longrightarrow> popcount (2 * v + 1) = Suc (popcount v)"
  by (subst popcount.simps) simp

lemma popcount_0 [simp]: "popcount 0 = 0"
  by (simp add: popcount.simps)

lemma popcount_eq_0: "0 \<le> v \<Longrightarrow> popcount v = 0 \<longleftrightarrow> v = 0"
  by (induction v rule: popcount.induct) (subst popcount.simps, auto elim!: evenE)

lemma popcount_1: "0 \<le> v \<Longrightarrow> popcount v = 1 \<Longrightarrow> \<exists>k. scan1 v = Some k \<and> v = 2 ^ k"
proof (induction v rule: popcount.induct)
  case (1 v)
  then have "0 < v" using popcount_0 by (metis less_le zero_neq_one)
  show ?case
  proof (cases "odd v")
    case True
    then have "popcount (v div 2) = 0" using 1(3) \<open>0 < v\<close> by (simp add: popcount.simps [of v])
    then have "v div 2 = 0" using popcount_eq_0 [of "v div 2"] \<open>0 < v\<close> by simp
    then have "v = 1" using \<open>0 < v\<close> by linarith
    then show ?thesis by (simp add: scan1.simps)
  next
    case False
    then have "popcount (v div 2) = 1" using 1(3) \<open>0 < v\<close> by (simp add: popcount.simps [of v])
    then obtain k where k: "scan1 (v div 2) = Some k" "v div 2 = 2 ^ k"
      using 1(1) \<open>0 < v\<close> by auto
    then have "v = 2 ^ Suc k" using False by (auto elim!: evenE)
    moreover have "scan1 v = Some (Suc k)" using False \<open>0 < v\<close> k by (simp add: scan1.simps [of v])
    ultimately show ?thesis by blast
  qed
qed

lemma popcount_le: "0 \<le> v \<Longrightarrow> v < 2 ^ n \<Longrightarrow> popcount v \<le> n"
proof (induction n arbitrary: v)
  case (Suc n)
  then have "popcount (v div 2) \<le> n" by simp
  then show ?case by (subst popcount.simps) simp
qed (simp add: popcount.simps)

lemma popcount_full:
  assumes "0 \<le> v" and "v < 2 ^ w" and "popcount v = w"
  shows "v = 2 ^ w - 1"
  using assms
proof (induction w arbitrary: v)
  case (Suc w)
  have half: "0 \<le> v div 2" "v div 2 < 2 ^ w" using Suc.prems by auto
  have pos: "0 < v" using Suc.prems(1,3) popcount_0 by (metis less_le nat.distinct(1))
  then have "popcount v = (if odd v then 1 else 0) + popcount (v div 2)" by (simp add: popcount.simps [of v])
  with Suc.prems(3) popcount_le [OF half] have "odd v" "popcount (v div 2) = w" by (auto split: if_splits)
  then have "v div 2 = 2 ^ w - 1" using Suc.IH half by blast
  then show ?case using \<open>odd v\<close> by (auto elim!: oddE)
qed simp

text \<open>The loop of \<open>bitcount\<close> that clears the lowest bit counts the bits.\<close>

lemma bitcount_double: "bitcount_loop (2 * v) = bitcount_loop v"
proof (induction v rule: bitcount_loop.induct)
  case (1 v)
  show ?case
  proof (cases "v \<le> 0")
    case True
    then show ?thesis by (simp add: bitcount_loop.simps)
  next
    case False
    have "2 * v AND (2 * v - 1) = 2 * (v AND (v - 1))"
    proof -
      have "(2 * v - 1) div 2 = v - 1" by simp
      then show ?thesis by (simp add: and_int_rec [of "2 * v"])
    qed
    then show ?thesis
      using 1(1) False by (simp add: bitcount_loop.simps [of "2 * v"] bitcount_loop.simps [of v])
  qed
qed

lemma bitcount_popcount: "bitcount_loop v = popcount v"
proof (induction v rule: popcount.induct)
  case (1 v)
  show ?case
  proof (cases "v \<le> 0")
    case True
    then show ?thesis by (simp add: bitcount_loop.simps popcount.simps)
  next
    case False
    show ?thesis
    proof (cases "odd v")
      case True
      then obtain k where k: "v = 2 * k + 1" by (auto elim: oddE)
      have "v AND (v - 1) = 2 * k" by (simp add: k and_int_rec [of "2 * k + 1"])
      then show ?thesis
        using 1 False k by (subst bitcount_loop.simps) (simp add: popcount_odd bitcount_double)
    next
      case even: False
      then obtain k where k: "v = 2 * k" by (auto elim: evenE)
      then show ?thesis
        using 1 False by (simp add: popcount_double bitcount_double)
    qed
  qed
qed

lemma floor_log2_bounds:
  "0 < v \<Longrightarrow> \<exists>k. floor_log2_loop rv v = rv + int k + 1 \<and> 2 ^ k \<le> v \<and> v < 2 ^ (k + 1)"
proof (induction rv v rule: floor_log2_loop.induct)
  case (1 rv v)
  show ?case
  proof (cases "v = 1")
    case True
    then show ?thesis by (auto simp: floor_log2_loop.simps [of _ 1] floor_log2_loop.simps [of _ 0] intro!: exI [of _ 0])
  next
    case False
    then have "0 < v div 2" using 1(2) by linarith
    then obtain k where k: "floor_log2_loop (rv + 1) (v div 2) = rv + 1 + int k + 1"
        "2 ^ k \<le> v div 2" "v div 2 < 2 ^ (k + 1)"
      using 1 by auto
    then have "2 ^ Suc k \<le> v" "v < 2 ^ (Suc k + 1)" by (simp_all add: power_Suc)
    then show ?thesis
      using k(1) 1(2) by (intro exI [of _ "Suc k"]) (simp add: floor_log2_loop.simps [of rv v])
  qed
qed

lemma scan1_bits: "scan1 v = Some k \<Longrightarrow> bit v k \<and> (\<forall>i. i < k \<longrightarrow> \<not> bit v i)"
proof (induction v arbitrary: k rule: scan1.induct)
  case (1 v)
  show ?case
  proof (cases "odd v")
    case True
    then show ?thesis using 1(2) by (auto simp: scan1.simps [of v] bit_0 split: if_splits)
  next
    case False
    then have "v \<noteq> 0" using 1(2) by (auto simp: scan1.simps)
    with False obtain j where j: "scan1 (v div 2) = Some j" "k = Suc j"
      using 1(2) by (auto simp: scan1.simps [of v] split: if_splits)
    from 1(1) [OF \<open>v \<noteq> 0\<close> False j(1)] have "bit (v div 2) j" "\<And>i. i < j \<Longrightarrow> \<not> bit (v div 2) i" by auto
    moreover have "\<not> bit v i" if "i < Suc j" for i
      using that False calculation(2) by (cases i) (auto simp: bit_0 bit_Suc)
    ultimately show ?thesis by (auto simp: j bit_Suc)
  qed
qed

lemma scan1_None: "scan1 v = None \<longleftrightarrow> v = 0"
  by (induction v rule: scan1.induct) (subst scan1.simps, auto elim: evenE)

lemma scan0_bits: "scan0 v = Some k \<Longrightarrow> \<not> bit v k \<and> (\<forall>i. i < k \<longrightarrow> bit v i)"
proof (induction v arbitrary: k rule: scan0.induct)
  case (1 v)
  show ?case
  proof (cases "even v")
    case True
    then show ?thesis using 1(2) by (auto simp: scan0.simps [of v] bit_0 split: if_splits)
  next
    case False
    then have "v \<noteq> -1" using 1(2) by (auto simp: scan0.simps)
    with False obtain j where j: "scan0 (v div 2) = Some j" "k = Suc j"
      using 1(2) by (auto simp: scan0.simps [of v] split: if_splits)
    from 1(1) [OF \<open>v \<noteq> -1\<close> False j(1)] have "\<not> bit (v div 2) j" "\<And>i. i < j \<Longrightarrow> bit (v div 2) i" by auto
    moreover have "bit v i" if "i < Suc j" for i
      using that False calculation(2) by (cases i) (auto simp: bit_0 bit_Suc)
    ultimately show ?thesis by (auto simp: j bit_Suc)
  qed
qed

lemma scan0_nonneg: "0 \<le> v \<Longrightarrow> scan0 v \<noteq> None"
  by (induction v rule: scan0.induct) (subst scan0.simps, auto)

lemma asInt_fits: "gmp_ok G \<Longrightarrow> fitsInt v \<Longrightarrow> asInt G v = ([], v)"
  by (auto simp: asInt_def gmp_ok_def fitsInt_def fitsLong_def signed_take_bit_int_eq_self)

lemma asUnsigned_fits: "gmp_ok G \<Longrightarrow> fitsUint v \<Longrightarrow> asUnsigned G v = ([], v)"
  by (auto simp: asUnsigned_def gmp_ok_def fitsUint_def take_bit_int_eq_self)

section \<open>Properties\<close>

text \<open>
  C39: the value of a constant of a bit type always ends up in the range of the type, congruent to the
  value that was given; a value in the range is kept, and a warning is given exactly for the others
  (unless warnings are off).
\<close>

theorem handleOverflow_exact:
  assumes "0 < w"
  shows "\<exists>ds v'. handleOverflow (Type_Bits w s) noWarning v = Inr (ds, v') \<and>
    (if s then - (2 ^ (w - 1)) \<le> v' \<and> v' < 2 ^ (w - 1) else 0 \<le> v' \<and> v' < 2 ^ w) \<and>
    v' mod 2 ^ w = v mod 2 ^ w \<and> (v' = v \<longleftrightarrow> in_range w s v) \<and> (ds = [] \<longleftrightarrow> noWarning \<or> v' = v)"
proof -
  obtain ds where ds: "handleOverflow (Type_Bits w s) noWarning v = Inr (ds, wrap w s v)"
      "ds = [] \<longleftrightarrow> noWarning \<or> in_range w s v"
    using handleOverflow_wrap [OF assms] by blast
  have "wrap w s v = v \<longleftrightarrow> in_range w s v"
    using wrap_id [OF assms, of s v] wrap_in_range [OF assms, of s v] by auto
  moreover have "wrap w s v mod 2 ^ w = v mod 2 ^ w"
    using take_bit_wrap [OF assms, of s v] by (simp add: take_bit_eq_mod)
  ultimately show ?thesis
    using ds wrap_in_range [OF assms, of s v] by (auto simp: in_range_def)
qed

theorem handleOverflow_exact_witness:
  "\<exists>ds v'. handleOverflow (Type_Bits 8 True) False 200 = Inr (ds, v') \<and> v' mod 256 = 200 \<and> v' \<noteq> 200 \<and> ds \<noteq> []"
proof -
  have "\<not> in_range 8 True 200" by (simp add: in_range_def)
  with handleOverflow_exact [of 8 True False 200] show ?thesis by auto
qed

text \<open>
  C40: the bit scans of \<open>lib/gmputil\<close> are exact: \<open>bitcount\<close> counts the bits of the value, \<open>floor_log2\<close> is
  the integer logarithm, and \<open>findOnes\<close> returns the lowest run of set bits, whose mask is its value.
\<close>

theorem gmputil_scans:
  assumes "0 < v"
  shows "bitcount v = Inr (popcount v) \<and> 0 \<le> floor_log2 v \<and>
    2 ^ nat (floor_log2 v) \<le> v \<and> v < 2 ^ (nat (floor_log2 v) + 1) \<and>
    (\<exists>l h. findOnes v = Inr \<lparr>lowIndex = l, highIndex = h, bits_value = 2 ^ (h + 1) - 2 ^ l\<rparr> \<and> l \<le> h \<and>
       ffs v = int l \<and> (\<forall>i. i \<le> h \<longrightarrow> (bit v i \<longleftrightarrow> l \<le> i)) \<and> \<not> bit v (h + 1))"
proof -
  obtain l where l: "scan1 v = Some l" using scan1_None [of v] assms by auto
  obtain k where k: "scan0 (v div 2 ^ l) = Some k"
    using scan0_nonneg [of "v div 2 ^ l"] assms by (auto simp: pos_imp_zdiv_nonneg_iff)
  have bits: "bit v l" "\<And>i. i < l \<Longrightarrow> \<not> bit v i" using scan1_bits [OF l] by auto
  have shift: "bit (v div 2 ^ l) i \<longleftrightarrow> bit v (l + i)" for i
    by (simp add: bit_drop_bit_eq drop_bit_eq_div [symmetric] add.commute)
  have ones: "\<not> bit v (l + k)" "\<And>i. i < k \<Longrightarrow> bit v (l + i)"
    using scan0_bits [OF k] by (auto simp: shift)
  then have "0 < k" using bits(1) by (metis add_0_right gr0I)
  have "bit v i \<longleftrightarrow> l \<le> i" if "i \<le> l + k - 1" for i
    using that bits(2) [of i] ones(2) [of "i - l"] \<open>0 < k\<close> by (cases "i < l") auto
  moreover have "findOnes v = Inr \<lparr>lowIndex = l, highIndex = l + k - 1, bits_value = 2 ^ (l + k) - 2 ^ l\<rparr>"
    using l k \<open>0 < k\<close> by (simp add: findOnes_def maskFromSlice_def mask_bits_def shift_left_def)
  moreover have "(2::int) ^ (l + k) = 2 * 2 ^ (l + k - Suc 0)" using \<open>0 < k\<close> by (cases k) auto
  moreover have "bitcount v = Inr (popcount v)"
    using assms by (simp add: bitcount_def bitcount_popcount)
  moreover obtain m where "floor_log2 v = int m" "2 ^ m \<le> v" "v < 2 ^ (m + 1)"
    using floor_log2_bounds [OF assms, of "-1"] by (auto simp: floor_log2_def)
  ultimately show ?thesis
    using \<open>0 < k\<close> ones(1) l by (auto simp: ffs_def intro!: exI [of _ l] exI [of _ "l + k - 1"])
qed

theorem gmputil_scans_witness:
  "bitcount 12 = Inr (popcount 12) \<and> 2 ^ nat (floor_log2 12) \<le> (12::int) \<and> findOnes 12 \<noteq> Inl LogicError"
  using gmputil_scans [of 12] by auto

end
