(* ===== verification/P4_Expr.thy ===== *)
theory P4_Expr
  imports P4_Int
begin

text \<open>
  The expressions of the IR (\<open>ir/expression.def\<close>) and their meaning. Every node has an identity,
  under which the type map knows it; a node that a pass creates has identity 0, which no map
  knows. The last section defines the value of an expression: it is the specification of the
  passes that rewrite expressions, and it is undefined (\<open>None\<close>) where the language gives no meaning.
\<close>

section \<open>Expressions\<close>

type_synonym nid = nat

datatype unop = Neg | Cmpl | LNot

datatype binop =
    Mul | Div | Mod | Add | Sub | AddSat | SubSat | Shl | Shr
  | Equ | Neq | Lss | Leq | Grt | Geq
  | BAnd | BOr | BXor | LAnd | LOr | Concat | ArrayIndex | Range | Mask

datatype expr =
    Constant nid ptype int nat
  | BoolLiteral nid bool
  | PathExpression nid ptype string
  | TypeNameExpression nid ptype string
  | Unary nid ptype unop expr
  | Cast nid ptype expr
  | Binary nid ptype binop expr expr
  | Slice nid ptype expr expr expr
  | Mux nid ptype expr expr expr
  | Member nid ptype expr string
  | ListExpression nid ptype "expr list"
  | StructInitializer nid ptype "(string \<times> expr) list"
  | DefaultExpression nid
  | MethodCall nid ptype string "expr list"

fun nid_of :: "expr \<Rightarrow> nid" where
  "nid_of (Constant i t v b) = i"
| "nid_of (BoolLiteral i b) = i"
| "nid_of (PathExpression i t x) = i"
| "nid_of (TypeNameExpression i t x) = i"
| "nid_of (Unary i t op e) = i"
| "nid_of (Cast i t e) = i"
| "nid_of (Binary i t op l r) = i"
| "nid_of (Slice i t e0 e1 e2) = i"
| "nid_of (Mux i t e0 e1 e2) = i"
| "nid_of (Member i t e f) = i"
| "nid_of (ListExpression i t es) = i"
| "nid_of (StructInitializer i t fs) = i"
| "nid_of (DefaultExpression i) = i"
| "nid_of (MethodCall i t m es) = i"

fun type_of :: "expr \<Rightarrow> ptype" where
  "type_of (Constant i t v b) = t"
| "type_of (BoolLiteral i b) = Type_Boolean"
| "type_of (PathExpression i t x) = t"
| "type_of (TypeNameExpression i t x) = t"
| "type_of (Unary i t op e) = t"
| "type_of (Cast i t e) = t"
| "type_of (Binary i t op l r) = t"
| "type_of (Slice i t e0 e1 e2) = t"
| "type_of (Mux i t e0 e1 e2) = t"
| "type_of (Member i t e f) = t"
| "type_of (ListExpression i t es) = t"
| "type_of (StructInitializer i t fs) = t"
| "type_of (DefaultExpression i) = Type_Unknown"
| "type_of (MethodCall i t m es) = t"

definition is_relation :: "binop \<Rightarrow> bool" where
  "is_relation op \<longleftrightarrow> op \<in> {Equ, Neq, Lss, Leq, Grt, Geq}"

text \<open>
  The constructors of the operations find the type of a new node from its operands.
\<close>

definition mk_Unary :: "unop \<Rightarrow> expr \<Rightarrow> expr" where
  "mk_Unary op e = Unary 0 (type_of e) op e"

definition binary_type :: "binop \<Rightarrow> expr \<Rightarrow> expr \<Rightarrow> ptype" where
  "binary_type op l r =
     (if is_relation op then Type_Boolean
      else if op = Concat then
        (case (type_of l, type_of r) of
           (Type_Bits lw s, Type_Bits rw _) \<Rightarrow> Type_Bits (lw + rw) s
         | _ \<Rightarrow> if type_of l = type_of r then type_of l else Type_Unknown)
      else if op = ArrayIndex then
        (case type_of l of
           Type_Stack t n \<Rightarrow> t
         | _ \<Rightarrow> if type_of l = type_of r then type_of l else Type_Unknown)
      else if type_of l = type_of r then
        (if op = Range \<or> op = Mask then (if type_of l = Type_Unknown then Type_Unknown else Type_Set (type_of l))
         else type_of l)
      else if op = Shl \<or> op = Shr then type_of l
      else Type_Unknown)"

definition mk_Binary :: "binop \<Rightarrow> expr \<Rightarrow> expr \<Rightarrow> expr" where
  "mk_Binary op l r = Binary 0 (binary_type op l r) op l r"

text \<open>\<open>new IR::Constant(int)\<close> and \<open>new IR::Slice(e, hi, lo)\<close>.\<close>

definition inf_const :: "int \<Rightarrow> expr" where
  "inf_const v = Constant 0 Type_InfInt v 10"

definition mk_Slice :: "expr \<Rightarrow> int \<Rightarrow> int \<Rightarrow> expr" where
  "mk_Slice e hi lo = Slice 0 (Type_Bits (nat (hi - lo + 1)) False) e (inf_const hi) (inf_const lo)"

section \<open>Results of a pass\<close>

text \<open>A pass fails with an error of the C++ code, or returns what it reported and its result.\<close>

type_synonym 'a res = "cxx_error + diag list \<times> 'a"

definition ok :: "'a \<Rightarrow> 'a res" where
  "ok x = Inr ([], x)"

definition report :: "diag \<Rightarrow> 'a \<Rightarrow> 'a res" where
  "report d x = Inr ([d], x)"

definition bind_res :: "'a res \<Rightarrow> ('a \<Rightarrow> 'b res) \<Rightarrow> 'b res" where
  "bind_res m f =
     (case m of Inl e \<Rightarrow> Inl e
      | Inr (ds, x) \<Rightarrow> (case f x of Inl e \<Rightarrow> Inl e | Inr (ds', y) \<Rightarrow> Inr (ds @ ds', y)))"

lemma bind_res_Inr:
  "bind_res m f = Inr (ds, y) \<longleftrightarrow> (\<exists>d1 x d2. m = Inr (d1, x) \<and> f x = Inr (d2, y) \<and> ds = d1 @ d2)"
  by (auto simp: bind_res_def split: sum.splits)

lemma ok_Inr [simp]: "ok x = Inr (ds, y) \<longleftrightarrow> ds = [] \<and> y = x"
  by (auto simp: ok_def)

lemma report_Inr [simp]: "report d x = Inr (ds, y) \<longleftrightarrow> ds = [d] \<and> y = x"
  by (auto simp: report_def)

lemma bind_res_ok [simp]: "bind_res (ok x) f = f x"
  by (auto simp: bind_res_def ok_def split: sum.split)

text \<open>\<open>new IR::Constant(type, value, base, noWarning)\<close>.\<close>

definition mk_Constant :: "ptype \<Rightarrow> int \<Rightarrow> nat \<Rightarrow> bool \<Rightarrow> expr res" where
  "mk_Constant t v b noWarning =
     (case handleOverflow t noWarning v of
        Inl e \<Rightarrow> Inl e
      | Inr (ds, v') \<Rightarrow> Inr (ds, Constant 0 t v' b))"

section \<open>The meaning of expressions\<close>

datatype val =
    VBits nat bool int
  | VInt int
  | VBool bool
  | VEnum string string
  | VList "val list"
  | VStruct "(string \<times> val) list"

text \<open>The values of the variables, and of calls (taken to be pure).\<close>

record env =
  var :: "string \<Rightarrow> val option"
  call :: "string \<Rightarrow> val list \<Rightarrow> val option"

definition const_val :: "ptype \<Rightarrow> int \<Rightarrow> val option" where
  "const_val t v =
     (case t of
        Type_InfInt \<Rightarrow> Some (VInt v)
      | Type_Bits w s \<Rightarrow> if 0 < w \<and> in_range w s v then Some (VBits w s v) else None
      | _ \<Rightarrow> None)"

lemma const_val_Some:
  "const_val t v = Some x \<longleftrightarrow>
     t = Type_InfInt \<and> x = VInt v \<or> (\<exists>w s. t = Type_Bits w s \<and> 0 < w \<and> in_range w s v \<and> x = VBits w s v)"
  by (auto simp: const_val_def split: ptype.splits if_splits)

definition unop_val :: "unop \<Rightarrow> val \<Rightarrow> val option" where
  "unop_val op v =
     (case (op, v) of
        (Neg, VBits w s a) \<Rightarrow> Some (VBits w s (wrap w s (- a)))
      | (Neg, VInt a) \<Rightarrow> Some (VInt (- a))
      | (Cmpl, VBits w s a) \<Rightarrow> Some (VBits w s (wrap w s (NOT a)))
      | (LNot, VBool b) \<Rightarrow> Some (VBool (\<not> b))
      | _ \<Rightarrow> None)"

text \<open>The operations on integers before wrapping; division is defined for positive divisors only.\<close>

definition arith :: "binop \<Rightarrow> int \<Rightarrow> int \<Rightarrow> int option" where
  "arith op a b =
     (case op of
        Add \<Rightarrow> Some (a + b) | Sub \<Rightarrow> Some (a - b) | Mul \<Rightarrow> Some (a * b)
      | BAnd \<Rightarrow> Some (a AND b) | BOr \<Rightarrow> Some (a OR b) | BXor \<Rightarrow> Some (a XOR b)
      | Div \<Rightarrow> if 0 \<le> a \<and> 0 < b then Some (a div b) else None
      | Mod \<Rightarrow> if 0 \<le> a \<and> 0 < b then Some (a mod b) else None
      | _ \<Rightarrow> None)"

definition saturate :: "nat \<Rightarrow> bool \<Rightarrow> int \<Rightarrow> int" where
  "saturate w s v =
     (if s then max (- (2 ^ (w - 1))) (min (2 ^ (w - 1) - 1) v) else max 0 (min (2 ^ w - 1) v))"

definition relation :: "binop \<Rightarrow> int \<Rightarrow> int \<Rightarrow> bool option" where
  "relation op a b =
     (case op of
        Equ \<Rightarrow> Some (a = b) | Neq \<Rightarrow> Some (a \<noteq> b) | Lss \<Rightarrow> Some (a < b)
      | Leq \<Rightarrow> Some (a \<le> b) | Grt \<Rightarrow> Some (a > b) | Geq \<Rightarrow> Some (a \<ge> b) | _ \<Rightarrow> None)"

text \<open>The number a shift or slice takes its amount from.\<close>

fun int_of_val :: "val \<Rightarrow> int option" where
  "int_of_val (VInt v) = Some v"
| "int_of_val (VBits w s v) = Some v"
| "int_of_val _ = None"

definition shift_val :: "binop \<Rightarrow> val \<Rightarrow> nat \<Rightarrow> val option" where
  "shift_val op v k =
     (case v of
        VBits w s a \<Rightarrow> Some (VBits w s (if op = Shl then wrap w s (a * 2 ^ k) else a div 2 ^ k))
      | VInt a \<Rightarrow> Some (VInt (if op = Shl then a * 2 ^ k else a div 2 ^ k))
      | _ \<Rightarrow> None)"

definition concat_val :: "val \<Rightarrow> val \<Rightarrow> val option" where
  "concat_val u v =
     (case (u, v) of
        (VBits w s a, VBits w' False b) \<Rightarrow> Some (VBits (w + w') s (wrap (w + w') s (a * 2 ^ w' + b)))
      | _ \<Rightarrow> None)"

definition bits_val :: "binop \<Rightarrow> nat \<Rightarrow> bool \<Rightarrow> int \<Rightarrow> int \<Rightarrow> val option" where
  "bits_val op w s a b =
     (if is_relation op then map_option VBool (relation op a b)
      else if op = AddSat then Some (VBits w s (saturate w s (a + b)))
      else if op = SubSat then Some (VBits w s (saturate w s (a - b)))
      else map_option (\<lambda>v. VBits w s (wrap w s v)) (arith op a b))"

definition int_val :: "binop \<Rightarrow> int \<Rightarrow> int \<Rightarrow> val option" where
  "int_val op a b =
     (if is_relation op then map_option VBool (relation op a b) else map_option VInt (arith op a b))"

definition eq_val :: "binop \<Rightarrow> val \<Rightarrow> val \<Rightarrow> val option" where
  "eq_val op u v = (if op = Equ then Some (VBool (u = v)) else if op = Neq then Some (VBool (u \<noteq> v)) else None)"

text \<open>Values that have the same type.\<close>

fun same_kind :: "val \<Rightarrow> val \<Rightarrow> bool" where
  "same_kind (VBits w s a) (VBits w' s' b) \<longleftrightarrow> w = w' \<and> s = s'"
| "same_kind (VInt a) (VInt b) \<longleftrightarrow> True"
| "same_kind (VBool a) (VBool b) \<longleftrightarrow> True"
| "same_kind (VEnum t a) (VEnum t' b) \<longleftrightarrow> t = t'"
| "same_kind (VList us) (VList vs) \<longleftrightarrow> list_all2 same_kind us vs"
| "same_kind _ _ \<longleftrightarrow> False"

definition binop_val :: "binop \<Rightarrow> val \<Rightarrow> val \<Rightarrow> val option" where
  "binop_val op u v =
     (if op = Shl \<or> op = Shr then
        (case int_of_val v of None \<Rightarrow> None | Some k \<Rightarrow> if 0 \<le> k then shift_val op u (nat k) else None)
      else if op = Concat then concat_val u v
      else
        case (u, v) of
          (VBits w s a, VBits w' s' b) \<Rightarrow> if w = w' \<and> s = s' then bits_val op w s a b else None
        | (VInt a, VInt b) \<Rightarrow> int_val op a b
        | _ \<Rightarrow> if same_kind u v then eq_val op u v else None)"

definition slice_val :: "val \<Rightarrow> int \<Rightarrow> int \<Rightarrow> val option" where
  "slice_val v h l =
     (case v of
        VBits w s a \<Rightarrow>
          if 0 \<le> l \<and> l \<le> h \<and> h < int w \<and> w < 2 ^ 31
          then Some (VBits (nat (h - l + 1)) False (take_bit (nat (h - l + 1)) (a div 2 ^ nat l))) else None
      | _ \<Rightarrow> None)"

definition cast_val :: "ptype \<Rightarrow> val \<Rightarrow> val option" where
  "cast_val t v =
     (case (t, v) of
        (Type_Bits w s, VBits w' s' a) \<Rightarrow> if 0 < w then Some (VBits w s (wrap w s a)) else None
      | (Type_Bits w s, VInt a) \<Rightarrow> if 0 < w then Some (VBits w s (wrap w s a)) else None
      | (Type_Bits w s, VBool b) \<Rightarrow> if w = 1 \<and> \<not> s then Some (VBits 1 False (if b then 1 else 0)) else None
      | (Type_Boolean, VBits w s a) \<Rightarrow> if w = 1 \<and> \<not> s then Some (VBool (a = 1)) else None
      | (Type_Boolean, VInt a) \<Rightarrow> if a = 0 \<or> a = 1 then Some (VBool (a = 1)) else None
      | (Type_Boolean, VBool b) \<Rightarrow> Some (VBool b)
      | _ \<Rightarrow> None)"

text \<open>
  The field of a struct value; a list stands for a struct whose fields it gives in order, or for the
  elements of a header stack.
\<close>

definition member_val :: "ptype \<Rightarrow> string \<Rightarrow> val \<Rightarrow> val option" where
  "member_val t f v =
     (case v of
        VStruct fs \<Rightarrow> map_of fs f
      | VList vs \<Rightarrow>
          (case t of
             Type_Stack et n \<Rightarrow> if f = ''size'' then Some (VBits 32 False (take_bit 32 (int n))) else None
           | _ \<Rightarrow>
               (case struct_fields t of
                  None \<Rightarrow> None
                | Some fs \<Rightarrow> map_of (zip (map fst fs) vs) f))
      | _ \<Rightarrow> None)"

text \<open>
  The types of values. What a variable, a field or a call returns must have the type the node is
  annotated with, otherwise the expression has no value.
\<close>

definition list_type :: "ptype \<Rightarrow> nat \<Rightarrow> bool" where
  "list_type t n =
     (case t of Type_Stack et m \<Rightarrow> n = m | Type_Tuple ts \<Rightarrow> n = length ts | _ \<Rightarrow> struct_fields t \<noteq> None)"

definition enum_type :: "ptype \<Rightarrow> string \<Rightarrow> string \<Rightarrow> bool" where
  "enum_type t n f = (case t of Type_Enum m ms \<Rightarrow> m = n \<and> f \<in> set ms | _ \<Rightarrow> False)"

fun has_type :: "val \<Rightarrow> ptype \<Rightarrow> bool" where
  "has_type (VBits w s a) t \<longleftrightarrow> t = Type_Bits w s"
| "has_type (VInt a) t \<longleftrightarrow> t = Type_InfInt"
| "has_type (VBool b) t \<longleftrightarrow> t = Type_Boolean"
| "has_type (VEnum n f) t \<longleftrightarrow> enum_type t n f"
| "has_type (VList vs) t \<longleftrightarrow> list_type t (length vs)"
| "has_type (VStruct fs) t \<longleftrightarrow> struct_fields t \<noteq> None"

lemma not_composite [simp]:
  "struct_fields (Type_Bits w s) = None" "struct_fields Type_InfInt = None" "struct_fields Type_Boolean = None"
  "\<not> list_type (Type_Bits w s) n" "\<not> list_type Type_InfInt n" "\<not> list_type Type_Boolean n"
  "\<not> enum_type (Type_Bits w s) m f" "\<not> enum_type Type_InfInt m f" "\<not> enum_type Type_Boolean m f"
  by (simp_all add: struct_fields_def list_type_def enum_type_def)

definition typed_val :: "ptype \<Rightarrow> val \<Rightarrow> val option" where
  "typed_val t v = (if has_type v t then Some v else None)"

definition is_type_name :: "expr \<Rightarrow> bool" where
  "is_type_name e = (case e of TypeNameExpression i t x \<Rightarrow> True | _ \<Rightarrow> False)"

definition enum_val :: "ptype \<Rightarrow> string \<Rightarrow> val option" where
  "enum_val t f = (case t of Type_Enum n ms \<Rightarrow> if f \<in> set ms then Some (VEnum n f) else None | _ \<Rightarrow> None)"

fun eval :: "env \<Rightarrow> expr \<Rightarrow> val option"
  and evals :: "env \<Rightarrow> expr list \<Rightarrow> val list option"
  and eval_fields :: "env \<Rightarrow> (string \<times> expr) list \<Rightarrow> (string \<times> val) list option" where
  "eval E (Constant i t v b) = const_val t v"
| "eval E (BoolLiteral i b) = Some (VBool b)"
| "eval E (PathExpression i t x) = Option.bind (var E x) (typed_val t)"
| "eval E (TypeNameExpression i t x) = None"
| "eval E (Unary i t op e) = Option.bind (eval E e) (unop_val op)"
| "eval E (Cast i t e) = Option.bind (eval E e) (cast_val t)"
| "eval E (Binary i t op l r) =
     (if op = LAnd then
        (case eval E l of
           Some (VBool False) \<Rightarrow> Some (VBool False)
         | Some (VBool True) \<Rightarrow> (case eval E r of Some (VBool b) \<Rightarrow> Some (VBool b) | _ \<Rightarrow> None)
         | _ \<Rightarrow> None)
      else if op = LOr then
        (case eval E l of
           Some (VBool True) \<Rightarrow> Some (VBool True)
         | Some (VBool False) \<Rightarrow> (case eval E r of Some (VBool b) \<Rightarrow> Some (VBool b) | _ \<Rightarrow> None)
         | _ \<Rightarrow> None)
      else Option.bind (eval E l) (\<lambda>u. Option.bind (eval E r) (binop_val op u)))"
| "eval E (Slice i t e0 e1 e2) =
     Option.bind (eval E e0) (\<lambda>v. Option.bind (Option.bind (eval E e1) int_of_val)
       (\<lambda>h. Option.bind (Option.bind (eval E e2) int_of_val) (slice_val v h)))"
| "eval E (Mux i t e0 e1 e2) =
     (case eval E e0 of Some (VBool True) \<Rightarrow> eval E e1 | Some (VBool False) \<Rightarrow> eval E e2 | _ \<Rightarrow> None)"
| "eval E (Member i t e f) =
     (if is_type_name e then enum_val t f else Option.bind (eval E e) (\<lambda>v. Option.bind (member_val (type_of e) f v) (typed_val t)))"
| "eval E (ListExpression i t es) = map_option VList (evals E es)"
| "eval E (StructInitializer i t fs) = map_option VStruct (eval_fields E fs)"
| "eval E (DefaultExpression i) = None"
| "eval E (MethodCall i t m es) = Option.bind (evals E es) (\<lambda>vs. Option.bind (call E m vs) (typed_val t))"
| "evals E [] = Some []"
| "evals E (e # es) = Option.bind (eval E e) (\<lambda>v. map_option ((#) v) (evals E es))"
| "eval_fields E [] = Some []"
| "eval_fields E ((f, e) # fs) = Option.bind (eval E e) (\<lambda>v. map_option ((#) (f, v)) (eval_fields E fs))"


text \<open>The values that occur: numbers of a bit type are in its range.\<close>

fun val_ok :: "val \<Rightarrow> bool" where
  "val_ok (VBits w s a) \<longleftrightarrow> 0 < w \<and> in_range w s a"
| "val_ok (VList vs) \<longleftrightarrow> list_all val_ok vs"
| "val_ok (VStruct fs) \<longleftrightarrow> list_all (\<lambda>(f, v). val_ok v) fs"
| "val_ok _ \<longleftrightarrow> True"

definition env_ok :: "env \<Rightarrow> bool" where
  "env_ok E \<longleftrightarrow> (\<forall>x v. var E x = Some v \<longrightarrow> val_ok v) \<and>
     (\<forall>m vs v. list_all val_ok vs \<longrightarrow> call E m vs = Some v \<longrightarrow> val_ok v)"

lemma saturate_in_range: "0 < w \<Longrightarrow> in_range w s (saturate w s v)"
  by (auto simp: saturate_def in_range_def max_def min_def)

lemma div_in_range:
  assumes "in_range w s a"
  shows "in_range w s (a div 2 ^ k)"
proof (cases "0 \<le> a")
  case True
  then have "0 \<le> a div 2 ^ k" "a div 2 ^ k \<le> a"
    using zdiv_mono2 [of a 1 "2 ^ k"] by (simp_all add: pos_imp_zdiv_nonneg_iff)
  then show ?thesis using assms by (auto simp: in_range_def intro: order_trans)
next
  case False
  then have "a \<le> a div 2 ^ k" "a div 2 ^ k < 0"
    using zdiv_mono2_neg [of a 1 "2 ^ k"] by (simp_all add: pos_imp_zdiv_neg_iff)
  moreover have "0 < (2 ^ (w - 1) :: int)" by simp
  ultimately show ?thesis using assms False by (cases s) (auto simp: in_range_def)
qed

lemma bits_val_ok: "0 < w \<Longrightarrow> bits_val op w s a b = Some v \<Longrightarrow> val_ok v"
  by (auto simp: bits_val_def wrap_in_range saturate_in_range split: if_splits)

lemma binop_val_ok: "val_ok u \<Longrightarrow> val_ok v \<Longrightarrow> binop_val op u v = Some x \<Longrightarrow> val_ok x"
  by (auto simp: binop_val_def shift_val_def concat_val_def int_val_def eq_val_def
      bits_val_ok wrap_in_range div_in_range split: if_splits option.splits val.splits bool.splits)

lemma unop_val_ok: "val_ok u \<Longrightarrow> unop_val op u = Some x \<Longrightarrow> val_ok x"
  by (auto simp: unop_val_def wrap_in_range split: unop.splits val.splits)

lemma in_range_bool: "in_range (Suc 0) False (if b then 1 else 0)"
  by (simp add: in_range_def)

lemma cast_val_ok: "cast_val t u = Some x \<Longrightarrow> val_ok x"
  by (auto simp: cast_val_def wrap_in_range in_range_bool in_range_bool [of True, simplified] in_range_bool [of False, simplified] split: ptype.splits val.splits if_splits)

lemma slice_val_ok: "slice_val u h l = Some x \<Longrightarrow> val_ok x"
  by (auto simp: slice_val_def in_range_def split: val.splits if_splits)

lemma in_range_take_bit: "in_range w False (take_bit w x)"
  by (simp add: in_range_def)

lemma member_val_ok: "val_ok u \<Longrightarrow> member_val t f u = Some x \<Longrightarrow> val_ok x"
  by (cases t; cases u)
    (auto simp: member_val_def list_all_iff in_range_take_bit dest!: map_of_SomeD set_zip_rightD split: option.splits if_splits)

lemma const_val_ok: "const_val t v = Some x \<Longrightarrow> val_ok x"
  by (auto simp: const_val_Some)

lemma eval_ok:
  assumes "env_ok E"
  shows "eval E e = Some v \<Longrightarrow> val_ok v"
    and "evals E es = Some vs \<Longrightarrow> list_all val_ok vs"
    and "eval_fields E fs = Some ws \<Longrightarrow> list_all (\<lambda>(f, v). val_ok v) ws"
  using assms
proof (induction E e and E es and E fs arbitrary: v and vs and ws rule: eval_evals_eval_fields.induct)
  case (7 E i t op l r)
  show ?case
  proof (cases "op = LAnd \<or> op = LOr")
    case True
    then show ?thesis
      using "7.prems"(1) by (auto split: option.splits val.splits bool.splits)
  next
    case False
    then obtain u w where uw: "eval E l = Some u" "eval E r = Some w" "binop_val op u w = Some v"
      using "7.prems"(1) by (auto simp: bind_eq_Some_conv)
    have "val_ok u" "val_ok w"
      using "7.IH"(5) [OF _ _ uw(1)] "7.IH"(6) [OF _ _ uw(1,2)] False "7.prems"(2) by auto
    then show ?thesis using uw(3) by (rule binop_val_ok)
  qed
next
  case (9 E i t e0 e1 e2)
  then show ?case by (auto split: option.splits val.splits bool.splits)
next
  case (10 E i t e f)
  then show ?case
    by (auto simp: bind_eq_Some_conv enum_val_def typed_val_def split: ptype.splits if_splits dest: member_val_ok)
next
  case (8 E i t e0 e1 e2)
  then show ?case by (auto simp: bind_eq_Some_conv dest: slice_val_ok)
qed (auto simp: env_ok_def bind_eq_Some_conv typed_val_def split: if_splits dest: const_val_ok unop_val_ok cast_val_ok)


lemma evals_length: "evals E es = Some vs \<Longrightarrow> length vs = length es"
  by (induction es arbitrary: vs) (auto simp: bind_eq_Some_conv)

section \<open>Typing\<close>

definition type_ok :: "ptype \<Rightarrow> bool" where
  "type_ok t = (case t of Type_Bits w s \<Rightarrow> 0 < w | _ \<Rightarrow> True)"

definition numeric :: "ptype \<Rightarrow> bool" where
  "numeric t = (case t of Type_Bits w s \<Rightarrow> 0 < w | Type_InfInt \<Rightarrow> True | _ \<Rightarrow> False)"

definition is_bits :: "ptype \<Rightarrow> bool" where
  "is_bits t = (case t of Type_Bits w s \<Rightarrow> 0 < w | _ \<Rightarrow> False)"

definition unop_ty :: "unop \<Rightarrow> ptype \<Rightarrow> ptype option" where
  "unop_ty op t =
     (case op of
        Neg \<Rightarrow> if numeric t then Some t else None
      | Cmpl \<Rightarrow> if is_bits t then Some t else None
      | LNot \<Rightarrow> if t = Type_Boolean then Some t else None)"

definition binop_ty :: "binop \<Rightarrow> ptype \<Rightarrow> ptype \<Rightarrow> ptype option" where
  "binop_ty op a b =
     (if op \<in> {LAnd, LOr} then if a = Type_Boolean \<and> b = Type_Boolean then Some Type_Boolean else None
      else if op \<in> {Shl, Shr} then if numeric a \<and> numeric b then Some a else None
      else if op = Concat then
        (case (a, b) of
           (Type_Bits w s, Type_Bits w' False) \<Rightarrow> if 0 < w \<and> 0 < w' then Some (Type_Bits (w + w') s) else None
         | _ \<Rightarrow> None)
      else if op \<in> {Equ, Neq} then if a = b then Some Type_Boolean else None
      else if op \<in> {Lss, Leq, Grt, Geq} then if a = b \<and> numeric a then Some Type_Boolean else None
      else if op \<in> {AddSat, SubSat} then if a = b \<and> is_bits a then Some a else None
      else if op \<in> {Add, Sub, Mul, Div, Mod, BAnd, BOr, BXor} then if a = b \<and> numeric a then Some a else None
      else None)"

text \<open>The bounds of a slice are constants.\<close>

definition bound_of :: "expr \<Rightarrow> int option" where
  "bound_of e = (case e of Constant i t v b \<Rightarrow> if const_val t v \<noteq> None then Some v else None | _ \<Rightarrow> None)"

definition slice_ty :: "ptype \<Rightarrow> int \<Rightarrow> int \<Rightarrow> ptype option" where
  "slice_ty t h l =
     (case t of
        Type_Bits w s \<Rightarrow>
          if 0 \<le> l \<and> l \<le> h \<and> h < int w \<and> w < 2 ^ 31 then Some (Type_Bits (nat (h - l + 1)) False) else None
      | _ \<Rightarrow> None)"

lemma bound_of_Some: "bound_of e = Some v \<longleftrightarrow> (\<exists>i t b. e = Constant i t v b \<and> const_val t v \<noteq> None)"
  by (cases e) (auto simp: bound_of_def)

lemma bound_of_eval: "bound_of e = Some v \<Longrightarrow> Option.bind (eval E e) int_of_val = Some v"
  by (auto simp: bound_of_Some bind_eq_Some_conv const_val_Some)

lemma slice_ty_Some:
  "slice_ty t h l = Some t' \<longleftrightarrow>
     (\<exists>w s. t = Type_Bits w s \<and> 0 \<le> l \<and> l \<le> h \<and> h < int w \<and> w < 2 ^ 31 \<and> t' = Type_Bits (nat (h - l + 1)) False)"
  by (auto simp: slice_ty_def split: ptype.splits)

text \<open>
  The type of an expression, found from its parts; \<open>None\<close> where it is not well typed. The
  annotation of an operation plays no role here.
\<close>

fun ty :: "expr \<Rightarrow> ptype option"
  and tys :: "expr list \<Rightarrow> bool"
  and ty_fields :: "(string \<times> expr) list \<Rightarrow> bool" where
  "ty (Constant i t v b) = (if const_val t v \<noteq> None then Some t else None)"
| "ty (BoolLiteral i b) = Some Type_Boolean"
| "ty (PathExpression i t x) = (if type_ok t then Some t else None)"
| "ty (TypeNameExpression i t x) = None"
| "ty (Unary i t op e) = Option.bind (ty e) (unop_ty op)"
| "ty (Cast i t e) = (if ty e \<noteq> None \<and> type_ok t then Some t else None)"
| "ty (Binary i t op l r) = Option.bind (ty l) (\<lambda>a. Option.bind (ty r) (binop_ty op a))"
| "ty (Slice i t e0 e1 e2) =
     Option.bind (ty e0) (\<lambda>t0. Option.bind (bound_of e1) (\<lambda>h. Option.bind (bound_of e2) (slice_ty t0 h)))"
| "ty (Mux i t e0 e1 e2) =
     (if ty e0 = Some Type_Boolean \<and> ty e1 = ty e2 then ty e1 else None)"
| "ty (Member i t e f) = (if (is_type_name e \<or> ty e \<noteq> None) \<and> type_ok t then Some t else None)"
| "ty (ListExpression i t es) = (if tys es \<and> list_type t (length es) then Some t else None)"
| "ty (StructInitializer i t fs) = (if ty_fields fs \<and> struct_fields t \<noteq> None then Some t else None)"
| "ty (DefaultExpression i) = None"
| "ty (MethodCall i t m es) = (if tys es \<and> type_ok t then Some t else None)"
| "tys [] = True"
| "tys (e # es) = (ty e \<noteq> None \<and> tys es)"
| "ty_fields [] = True"
| "ty_fields ((f, e) # fs) = (ty e \<noteq> None \<and> ty_fields fs)"

lemma binop_ty_ok: "type_ok a \<Longrightarrow> binop_ty op a b = Some t \<Longrightarrow> type_ok t"
  by (auto simp: binop_ty_def type_ok_def split: if_splits ptype.splits bool.splits)

lemma unop_ty_ok: "type_ok a \<Longrightarrow> unop_ty op a = Some t \<Longrightarrow> type_ok t"
  by (auto simp: unop_ty_def split: unop.splits if_splits)

lemma ty_ok: "ty e = Some t \<Longrightarrow> type_ok t"
proof (induction e arbitrary: t)
  case (Constant i t' v b)
  then show ?case by (auto simp: const_val_Some type_ok_def split: if_splits)
next
  case (Slice i t' e0 e1 e2)
  then show ?case
    by (auto simp: type_ok_def bind_eq_Some_conv slice_ty_Some)
next
  case (Unary i t' op e)
  then show ?case by (auto simp: bind_eq_Some_conv intro: unop_ty_ok)
next
  case (Binary i t' op l r)
  then show ?case by (auto simp: bind_eq_Some_conv intro: binop_ty_ok)
qed (auto simp: type_ok_def split: if_splits ptype.splits)

lemma binop_val_type:
  assumes "binop_val op u v = Some x" and "has_type u a" and "has_type v b" and "binop_ty op a b = Some t"
  shows "has_type x t"
  using assms
  by (cases op; cases u; cases v)
    (auto simp: binop_val_def binop_ty_def shift_val_def concat_val_def bits_val_def int_val_def eq_val_def
      is_relation_def numeric_def split: if_splits option.splits ptype.splits bool.splits)

lemma unop_val_type: "unop_val op u = Some x \<Longrightarrow> has_type u a \<Longrightarrow> unop_ty op a = Some t \<Longrightarrow> has_type x t"
  by (auto simp: unop_val_def unop_ty_def split: unop.splits val.splits if_splits)

lemma cast_val_type: "cast_val t u = Some x \<Longrightarrow> has_type x t"
  by (auto simp: cast_val_def split: ptype.splits val.splits if_splits)

text \<open>A value has the type of its expression.\<close>

lemma eval_type: "eval E e = Some v \<Longrightarrow> ty e = Some t \<Longrightarrow> has_type v t"
proof (induction e arbitrary: v t)
  case (Constant i t' v' b)
  then show ?case by (auto simp: const_val_Some split: if_splits)
next
  case (Unary i t' op e)
  then show ?case by (auto simp: bind_eq_Some_conv intro: unop_val_type)
next
  case (Cast i t' e)
  then show ?case by (auto simp: bind_eq_Some_conv cast_val_type split: if_splits)
next
  case (Binary i t' op l r)
  show ?case
  proof (cases "op = LAnd \<or> op = LOr")
    case True
    then show ?thesis
      using Binary.prems by (auto simp: bind_eq_Some_conv binop_ty_def split: if_splits option.splits val.splits bool.splits)
  next
    case False
    then obtain a b x y where "eval E l = Some x" "eval E r = Some y" "binop_val op x y = Some v"
        "ty l = Some a" "ty r = Some b" "binop_ty op a b = Some t"
      using Binary.prems by (auto simp: bind_eq_Some_conv)
    then show ?thesis using Binary.IH binop_val_type by blast
  qed
next
  case (Slice i t' e0 e1 e2)
  then obtain t0 h l where t: "bound_of e1 = Some h" "bound_of e2 = Some l" "slice_ty t0 h l = Some t"
    by (auto simp: bind_eq_Some_conv)
  then obtain x where "slice_val x h l = Some v"
    using Slice.prems(1) bound_of_eval [OF t(1), of E] bound_of_eval [OF t(2), of E]
    by (auto simp: bind_eq_Some_conv)
  then show ?case using t(3) by (auto simp: slice_val_def slice_ty_Some split: val.splits if_splits)
next
  case (Mux i t' e0 e1 e2)
  then show ?case by (auto split: option.splits val.splits bool.splits if_splits)
next
  case (Member i t' e f)
  then show ?case
    by (auto simp: bind_eq_Some_conv typed_val_def enum_val_def enum_type_def split: if_splits ptype.splits)
qed (auto simp: bind_eq_Some_conv typed_val_def evals_length split: if_splits)

end
