(* ===== verification/P4_Pass.thy ===== *)
theory P4_Pass
  imports P4_Expr
begin

text \<open>
  What the passes over expressions share: the identity of rebuilt nodes, reports, annotations, and
  characterisations of the evaluation of compound nodes.
\<close>

unbundle bit_operations_syntax

section \<open>The traversal\<close>

text \<open>The identity of a node whose children were rewritten.\<close>

definition kept :: "bool \<Rightarrow> nid \<Rightarrow> nid" where
  "kept same i = (if same then i else 0)"

lemma kept_simps [simp]: "kept True i = i" "kept False i = 0"
  by (simp_all add: kept_def)

section \<open>Reports\<close>

definition quiet :: "diag list \<Rightarrow> bool" where
  "quiet ds \<longleftrightarrow> (\<forall>m. Err m \<notin> set ds)"

lemma quiet_append [simp]: "quiet (ds @ ds') \<longleftrightarrow> quiet ds \<and> quiet ds'"
  by (auto simp: quiet_def)

lemma quiet_Nil [simp]: "quiet []"
  by (simp add: quiet_def)

lemma asInt_quiet: "gmp_ok G \<Longrightarrow> asInt G v = (ds, k) \<Longrightarrow> quiet ds \<Longrightarrow> k = v"
  using asInt_fits [of G v] by (auto simp: asInt_def quiet_def split: if_splits)

lemma bind_res_Inr0 [simp]: "bind_res (Inr ([], x)) f = f x"
  by (auto simp: bind_res_def split: sum.split)

lemma bind_res_total: "m = Inr (ds, x) \<Longrightarrow> \<exists>d y. f x = Inr (d, y) \<Longrightarrow> \<exists>d y. bind_res m f = Inr (d, y)"
  by (auto simp: bind_res_def)

lemma bind_res_ok_total: "\<exists>ds x. m = Inr (ds, x) \<Longrightarrow> \<exists>d y. bind_res m (\<lambda>x. ok (f x)) = Inr (d, y)"
  by (auto simp: bind_res_def ok_def)

text \<open>Conversions that meet what the library documents, on a 64-bit machine.\<close>

definition gmp64 :: gmp where
  "gmp64 = \<lparr>get_si = \<lambda>v. signed_take_bit 63 v, get_ui = \<lambda>v. take_bit 64 \<bar>v\<bar>\<rparr>"

lemma gmp64_ok: "gmp_ok gmp64"
  by (auto simp: gmp_ok_def gmp64_def fitsLong_def signed_take_bit_int_eq_self take_bit_int_eq_self)

section \<open>Annotations\<close>

text \<open>An annotation is right when it is the type the rules give.\<close>

definition ann :: "expr \<Rightarrow> bool" where
  "ann e \<longleftrightarrow> ty e = Some (type_of e)"

text \<open>Type checking has annotated every node.\<close>

fun annotated :: "expr \<Rightarrow> bool"
  and annotated_list :: "expr list \<Rightarrow> bool"
  and annotated_fields :: "(string \<times> expr) list \<Rightarrow> bool" where
  "annotated (Unary i t op e) \<longleftrightarrow> ann (Unary i t op e) \<and> annotated e"
| "annotated (Cast i t e) \<longleftrightarrow> ann (Cast i t e) \<and> annotated e"
| "annotated (Binary i t op l r) \<longleftrightarrow> ann (Binary i t op l r) \<and> annotated l \<and> annotated r"
| "annotated (Slice i t e0 e1 e2) \<longleftrightarrow> ann (Slice i t e0 e1 e2) \<and> annotated e0"
| "annotated (Mux i t e0 e1 e2) \<longleftrightarrow> ann (Mux i t e0 e1 e2) \<and> annotated e0 \<and> annotated e1 \<and> annotated e2"
| "annotated (Member i t e f) \<longleftrightarrow> ann (Member i t e f) \<and> (is_type_name e \<or> annotated e)"
| "annotated (ListExpression i t es) \<longleftrightarrow> ann (ListExpression i t es) \<and> annotated_list es"
| "annotated (StructInitializer i t fs) \<longleftrightarrow> ann (StructInitializer i t fs) \<and> annotated_fields fs"
| "annotated (MethodCall i t m es) \<longleftrightarrow> ann (MethodCall i t m es) \<and> annotated_list es"
| "annotated e \<longleftrightarrow> ann e"
| "annotated_list [] \<longleftrightarrow> True"
| "annotated_list (e # es) \<longleftrightarrow> annotated e \<and> annotated_list es"
| "annotated_fields [] \<longleftrightarrow> True"
| "annotated_fields ((f, e) # fs) \<longleftrightarrow> annotated e \<and> annotated_fields fs"

lemma annotated_ann: "annotated e \<Longrightarrow> ann e"
  by (cases e) auto

section \<open>Evaluation of compound nodes\<close>

lemma eval_LAnd:
  "eval E (Binary i t LAnd l r) = Some v \<longleftrightarrow>
     eval E l = Some (VBool False) \<and> v = VBool False \<or>
     eval E l = Some (VBool True) \<and> (\<exists>b. eval E r = Some (VBool b) \<and> v = VBool b)"
  by (cases "eval E r") (auto split: option.split val.split bool.split)

lemma eval_LOr:
  "eval E (Binary i t LOr l r) = Some v \<longleftrightarrow>
     eval E l = Some (VBool True) \<and> v = VBool True \<or>
     eval E l = Some (VBool False) \<and> (\<exists>b. eval E r = Some (VBool b) \<and> v = VBool b)"
  by (cases "eval E r") (auto split: option.split val.split bool.split)

lemma eval_strict:
  "op \<noteq> LAnd \<Longrightarrow> op \<noteq> LOr \<Longrightarrow>
     eval E (Binary i t op l r) = Some v \<longleftrightarrow>
       (\<exists>a b. eval E l = Some a \<and> eval E r = Some b \<and> binop_val op a b = Some v)"
  by (simp add: bind_eq_Some_conv)

lemma eval_Binary_mono:
  assumes "\<And>v. eval E l = Some v \<Longrightarrow> eval E l' = Some v" and "\<And>v. eval E r = Some v \<Longrightarrow> eval E r' = Some v"
    and "eval E (Binary i t op l r) = Some v"
  shows "eval E (Binary k t op l' r') = Some v"
proof -
  consider "op = LAnd" | "op = LOr" | "op \<noteq> LAnd" "op \<noteq> LOr" by blast
  then show ?thesis
    by cases (use assms in \<open>simp add: eval_LAnd eval_LOr eval_strict del: eval.simps; blast\<close>)+
qed

lemma eval_Mux:
  "eval E (Mux i t e0 e1 e2) = Some v \<longleftrightarrow>
     eval E e0 = Some (VBool True) \<and> eval E e1 = Some v \<or> eval E e0 = Some (VBool False) \<and> eval E e2 = Some v"
  by (auto split: option.split val.split bool.split)

section \<open>Numbers of a type\<close>

definition num_val :: "ptype \<Rightarrow> int \<Rightarrow> val" where
  "num_val t a = (case t of Type_Bits w s \<Rightarrow> VBits w s a | _ \<Rightarrow> VInt a)"

definition norm :: "ptype \<Rightarrow> int \<Rightarrow> int" where
  "norm t a = (case t of Type_Bits w s \<Rightarrow> wrap w s a | _ \<Rightarrow> a)"

definition fits :: "ptype \<Rightarrow> int \<Rightarrow> bool" where
  "fits t a = (case t of Type_Bits w s \<Rightarrow> 0 < w \<and> in_range w s a | _ \<Rightarrow> True)"

abbreviation arith_ops :: "binop set" where
  "arith_ops \<equiv> {Add, Sub, Mul, Div, Mod, BAnd, BOr, BXor}"

lemma numeric_cases: "numeric t \<longleftrightarrow> t = Type_InfInt \<or> (\<exists>w s. t = Type_Bits w s \<and> 0 < w)"
  by (auto simp: numeric_def split: ptype.splits)

lemma norm_fits: "fits t a \<Longrightarrow> norm t a = a"
  by (auto simp: fits_def norm_def wrap_id split: ptype.splits)

lemma num_val_inject: "num_val t a = num_val t b \<longleftrightarrow> a = b"
  by (auto simp: num_val_def split: ptype.splits)

lemma num_val_of_type:
  assumes "numeric t" and "has_type v t" and "val_ok v"
  shows "\<exists>a. v = num_val t a \<and> fits t a"
  using assms by (cases v) (auto simp: numeric_cases num_val_def fits_def)

lemma eval_numeric:
  assumes "env_ok E" and "eval E e = Some v" and "ty e = Some t" and "numeric t"
  shows "\<exists>a. v = num_val t a \<and> fits t a"
  using assms eval_type eval_ok(1) num_val_of_type by blast

lemma binop_num_val:
  "numeric t \<Longrightarrow> op \<in> arith_ops \<Longrightarrow>
     binop_val op (num_val t a) (num_val t b) = map_option (\<lambda>c. num_val t (norm t c)) (arith op a b)"
  by (auto simp: numeric_cases num_val_def norm_def binop_val_def bits_val_def int_val_def is_relation_def)

lemma relation_num_val:
  "numeric t \<Longrightarrow> is_relation op \<Longrightarrow> binop_val op (num_val t a) (num_val t b) = map_option VBool (relation op a b)"
  by (auto simp: numeric_cases num_val_def binop_val_def bits_val_def int_val_def is_relation_def)

lemma shift_num_val:
  "numeric t \<Longrightarrow> op \<in> {Shl, Shr} \<Longrightarrow>
     shift_val op (num_val t a) k = Some (num_val t (if op = Shl then norm t (a * 2 ^ k) else a div 2 ^ k))"
  by (auto simp: numeric_cases num_val_def norm_def shift_val_def)

lemma int_of_num_val: "numeric t \<Longrightarrow> int_of_val (num_val t a) = Some a"
  by (auto simp: numeric_cases num_val_def)

lemma unop_num_val:
  "numeric t \<Longrightarrow> unop_val Neg (num_val t a) = Some (num_val t (norm t (- a)))"
  "is_bits t \<Longrightarrow> unop_val Cmpl (num_val t a) = Some (num_val t (norm t (NOT a)))"
  by (auto simp: numeric_cases is_bits_def num_val_def norm_def unop_val_def split: ptype.splits)

lemma eval_constant: "ty (Constant i t v b) = Some t' \<Longrightarrow> eval E (Constant i t v b) = Some (num_val t v) \<and> t' = t \<and> numeric t \<and> fits t v"
  by (auto simp: const_val_Some num_val_def fits_def numeric_cases split: if_splits)

lemma bit_wrap: "0 < w \<Longrightarrow> n < w \<Longrightarrow> bit (wrap w s x) n \<longleftrightarrow> bit x n"
  using arg_cong [OF take_bit_wrap [of w s x], of "\<lambda>y. bit y n"] by (simp add: bit_take_bit_iff)

lemma wrap_bit_cong: "0 < w \<Longrightarrow> (\<And>n. n < w \<Longrightarrow> bit x n \<longleftrightarrow> bit y n) \<Longrightarrow> wrap w s x = wrap w s y"
  by (rule wrap_cong) (auto intro!: bit_eqI simp: bit_take_bit_iff)

lemma norm_bitwise:
  assumes "is_bits t"
  shows "norm t (norm t (NOT a) AND norm t (NOT b)) = norm t (NOT (norm t (a OR b)))"
    "norm t (norm t (NOT a) OR norm t (NOT b)) = norm t (NOT (norm t (a AND b)))"
    "norm t (norm t (NOT a) XOR norm t (NOT b)) = norm t (a XOR b)"
    "norm t (norm t (NOT a) XOR b) = norm t (NOT (norm t (a XOR b)))"
    "norm t (a XOR norm t (NOT b)) = norm t (NOT (norm t (a XOR b)))"
    "norm t (NOT (norm t (NOT a))) = norm t a"
  using assms
  by (auto simp: is_bits_def norm_def bit_wrap bit_simps intro!: wrap_bit_cong split: ptype.splits)

lemma norm_add: "numeric t \<Longrightarrow> norm t (a + norm t b) = norm t (a + b)"
  by (auto simp: numeric_cases norm_def intro!: wrap_cong)
     (metis take_bit_add take_bit_wrap)

lemma mk_Constant_numeric:
  assumes "numeric T"
  shows "\<exists>ds. mk_Constant T v b nw = Inr (ds, Constant 0 T (norm T v) b)"
  using assms handleOverflow_wrap [of _ _ nw v]
  by (auto simp: numeric_cases mk_Constant_def norm_def handleOverflow_def [of Type_InfInt])
     (metis (no_types, lifting) old.prod.case sum.case(2))

lemma ty_Constant_norm: "numeric T \<Longrightarrow> ty (Constant i T (norm T v) b) = Some T"
  by (auto simp: numeric_cases norm_def const_val_def wrap_in_range)

end
