(* ===== verification/Strength_Reduction.thy ===== *)
theory Strength_Reduction
  imports P4_Pass
begin

text \<open>
  Strength reduction (\<open>frontends/p4/strengthReduction.cpp\<close>), one definition per visitor method,
  and the slices of \<open>ir/expression.cpp\<close>. The pass is a \<open>Transform\<close>: it rewrites the children of a
  node first, gives the node a new identity when one of them changed, and then calls the method of
  its class. The main results are that it preserves the value of an expression, and that the one
  exception, a slice whose upper end is the lowest bit shifted in, is a miscompilation.
\<close>

section \<open>Helper methods\<close>

definition isOne :: "expr \<Rightarrow> bool" where
  "isOne e = (case e of Constant i t v b \<Rightarrow> v = 1 | _ \<Rightarrow> False)"

definition isZero :: "expr \<Rightarrow> bool" where
  "isZero e = (case e of Constant i t v b \<Rightarrow> v = 0 | _ \<Rightarrow> False)"

definition isTrue :: "expr \<Rightarrow> bool" where
  "isTrue e = (case e of BoolLiteral i b \<Rightarrow> b | _ \<Rightarrow> False)"

definition isFalse :: "expr \<Rightarrow> bool" where
  "isFalse e = (case e of BoolLiteral i b \<Rightarrow> \<not> b | _ \<Rightarrow> False)"

text \<open>The logarithm of a constant that is a power of two.\<close>

definition isPowerOf2 :: "expr \<Rightarrow> nat option" where
  "isPowerOf2 e =
     (case e of
        Constant i t v b \<Rightarrow> if v \<le> 0 then None else if popcount v \<noteq> 1 then None else scan1 v
      | _ \<Rightarrow> None)"

definition isAllOnes :: "expr \<Rightarrow> bool" where
  "isAllOnes e =
     (case e of Constant i t v b \<Rightarrow> if v \<le> 0 then False else popcount v = width_bits t | _ \<Rightarrow> False)"

section \<open>Visitor methods\<close>

text \<open>
  The methods get the identity, the type and the operands of the node; where they return the node
  itself it is put together again.
\<close>

definition sr_Cmpl :: "nid \<Rightarrow> ptype \<Rightarrow> expr \<Rightarrow> expr" where
  "sr_Cmpl i t e = (case e of Unary j t' Cmpl a \<Rightarrow> a | _ \<Rightarrow> Unary i t Cmpl e)"

definition sr_BAnd :: "nid \<Rightarrow> ptype \<Rightarrow> expr \<Rightarrow> expr \<Rightarrow> expr" where
  "sr_BAnd i t l r =
     (if isZero l then l
      else if isZero r then r
      else if isAllOnes l then r
      else if isAllOnes r then l
      else case (l, r) of
             (Unary _ _ Cmpl a, Unary _ _ Cmpl b) \<Rightarrow> mk_Unary Cmpl (mk_Binary BOr a b)
           | _ \<Rightarrow> Binary i t BAnd l r)"

definition sr_BOr :: "nid \<Rightarrow> ptype \<Rightarrow> expr \<Rightarrow> expr \<Rightarrow> expr" where
  "sr_BOr i t l r =
     (if isZero l then r
      else if isZero r then l
      else case (l, r) of
             (Unary _ _ Cmpl a, Unary _ _ Cmpl b) \<Rightarrow> mk_Unary Cmpl (mk_Binary BAnd a b)
           | _ \<Rightarrow> Binary i t BOr l r)"

definition strip_Cmpl :: "expr \<Rightarrow> bool \<times> expr" where
  "strip_Cmpl e = (case e of Unary _ _ Cmpl a \<Rightarrow> (True, a) | _ \<Rightarrow> (False, e))"

definition sr_BXor :: "nid \<Rightarrow> ptype \<Rightarrow> expr \<Rightarrow> expr \<Rightarrow> expr" where
  "sr_BXor i t l r =
     (if isZero l then r
      else if isZero r then l
      else
        let (cl, l') = strip_Cmpl l;
            (cr, r') = strip_Cmpl r;
            e = Binary (if cl \<or> cr then 0 else i) t BXor l' r'
        in if cl \<noteq> cr then mk_Unary Cmpl e else e)"

definition sr_LAnd :: "nid \<Rightarrow> ptype \<Rightarrow> expr \<Rightarrow> expr \<Rightarrow> expr" where
  "sr_LAnd i t l r =
     (if isFalse l then l else if isTrue l then r else if isTrue r then l else Binary i t LAnd l r)"

definition sr_LOr :: "nid \<Rightarrow> ptype \<Rightarrow> expr \<Rightarrow> expr \<Rightarrow> expr" where
  "sr_LOr i t l r =
     (if isFalse l then r else if isTrue l then l else if isFalse r then l else Binary i t LOr l r)"

definition sr_LNot :: "nid \<Rightarrow> ptype \<Rightarrow> expr \<Rightarrow> expr" where
  "sr_LNot i t e =
     (case e of
        Binary _ _ Equ l r \<Rightarrow> mk_Binary Neq l r
      | Binary _ _ Neq l r \<Rightarrow> mk_Binary Equ l r
      | Binary _ _ Leq l r \<Rightarrow> mk_Binary Grt l r
      | Binary _ _ Geq l r \<Rightarrow> mk_Binary Lss l r
      | Binary _ _ Lss l r \<Rightarrow> mk_Binary Geq l r
      | Binary _ _ Grt l r \<Rightarrow> mk_Binary Leq l r
      | _ \<Rightarrow> Unary i t LNot e)"

definition sr_Sub :: "nid \<Rightarrow> ptype \<Rightarrow> expr \<Rightarrow> expr \<Rightarrow> expr res" where
  "sr_Sub i t l r =
     (if isZero r then ok l
      else if isZero l then ok (mk_Unary Neg r)
      else case r of
             Constant _ ct v b \<Rightarrow> bind_res (mk_Constant ct (- v) b True) (\<lambda>neg. ok (mk_Binary Add l neg))
           | _ \<Rightarrow> ok (Binary i t Sub l r))"

definition sr_Add :: "nid \<Rightarrow> ptype \<Rightarrow> expr \<Rightarrow> expr \<Rightarrow> expr" where
  "sr_Add i t l r = (if isZero r then l else if isZero l then r else Binary i t Add l r)"

definition sr_Shl :: "nid \<Rightarrow> ptype \<Rightarrow> expr \<Rightarrow> expr \<Rightarrow> expr" where
  "sr_Shl i t l r = (if isZero r \<or> isZero l then l else Binary i t Shl l r)"

definition sr_Shr :: "nid \<Rightarrow> ptype \<Rightarrow> expr \<Rightarrow> expr \<Rightarrow> expr" where
  "sr_Shr i t l r = (if isZero r \<or> isZero l then l else Binary i t Shr l r)"

definition sr_Mul :: "nid \<Rightarrow> ptype \<Rightarrow> expr \<Rightarrow> expr \<Rightarrow> expr" where
  "sr_Mul i t l r =
     (if isZero l then l
      else if isZero r then r
      else if isOne l then r
      else if isOne r then l
      else case isPowerOf2 l of
             Some k \<Rightarrow> mk_Binary Shl r (inf_const (int k))
           | None \<Rightarrow>
               (case isPowerOf2 r of
                  Some k \<Rightarrow> mk_Binary Shl l (inf_const (int k))
                | None \<Rightarrow> Binary i t Mul l r))"

definition sr_Div :: "nid \<Rightarrow> ptype \<Rightarrow> expr \<Rightarrow> expr \<Rightarrow> expr res" where
  "sr_Div i t l r =
     (if isZero r then report (Err ''Division by zero'') (Binary i t Div l r)
      else if isZero l then ok l
      else if isOne r then ok l
      else case isPowerOf2 r of
             Some k \<Rightarrow> ok (mk_Binary Shr l (inf_const (int k)))
           | None \<Rightarrow> ok (Binary i t Div l r))"

definition sr_Mod :: "nid \<Rightarrow> ptype \<Rightarrow> expr \<Rightarrow> expr \<Rightarrow> expr res" where
  "sr_Mod i t l r =
     (if isZero r then report (Err ''Modulo by zero'') (Binary i t Mod l r)
      else if isZero l then ok l
      else case isPowerOf2 r of
             Some k \<Rightarrow>
               bind_res (mk_Constant (type_of r) (2 ^ k - 1) 10 False) (\<lambda>amt. ok (mk_Binary BAnd l amt))
           | None \<Rightarrow> ok (Binary i t Mod l r))"

section \<open>Slices\<close>

text \<open>\<open>Slice::getH\<close> and \<open>Slice::getL\<close> dereference the bound as a constant.\<close>

definition get_bound :: "gmp \<Rightarrow> expr \<Rightarrow> int res" where
  "get_bound G e = (case e of Constant i t v b \<Rightarrow> Inr (asUnsigned G v) | _ \<Rightarrow> Inl UndefinedBehaviour)"

text \<open>The shift a slice is taken of: the amount (negative for a left shift) and the operand.\<close>

definition slice_shift :: "gmp \<Rightarrow> expr \<Rightarrow> (int \<times> expr) option res" where
  "slice_shift G e0 =
     (case e0 of
        Binary _ _ Shr l (Constant _ _ v _) \<Rightarrow> (case asInt G v of (ds, k) \<Rightarrow> Inr (ds, Some (k, l)))
      | Binary _ _ Shl l (Constant _ _ v _) \<Rightarrow> (case asInt G v of (ds, k) \<Rightarrow> Inr (ds, Some (- k, l)))
      | _ \<Rightarrow> ok None)"

text \<open>The loop over concatenations.\<close>

fun slice_concat :: "gmp \<Rightarrow> nid \<Rightarrow> ptype \<Rightarrow> expr \<Rightarrow> expr \<Rightarrow> expr \<Rightarrow> expr res" where
  "slice_concat G i t (Binary j ct Concat l r) e1 e2 =
     (let rwidth = int (width_bits (type_of r)) in
      bind_res (get_bound G e2) (\<lambda>lo.
        if lo \<ge> rwidth then
          bind_res (get_bound G e1) (\<lambda>hi.
            slice_concat G 0 t l (inf_const (take_bit 32 (hi - rwidth))) (inf_const (take_bit 32 (lo - rwidth))))
        else
          bind_res (get_bound G e1) (\<lambda>hi.
            if hi < rwidth then slice_concat G 0 t r e1 e2
            else
              ok (Binary 0 t Concat (mk_Slice l (signed_take_bit 31 (hi - rwidth)) 0)
                    (mk_Slice r (rwidth - 1) (signed_take_bit 31 lo))))))"
| "slice_concat G i t e0 e1 e2 = ok (Slice i t e0 e1 e2)"

text \<open>The sums of bounds and shift amounts are sums of machine integers, undefined when they overflow.\<close>

definition sr_Slice :: "gmp \<Rightarrow> nid \<Rightarrow> ptype \<Rightarrow> expr \<Rightarrow> expr \<Rightarrow> expr \<Rightarrow> expr res" where
  "sr_Slice G i t e0 e1 e2 =
     bind_res (slice_shift G e0) (\<lambda>sh.
       case sh of
         None \<Rightarrow> slice_concat G i t e0 e1 e2
       | Some (shift_amt, shift_of) \<Rightarrow>
           (case type_of shift_of of
              Type_Bits w False \<Rightarrow>
                bind_res (get_bound G e1) (\<lambda>uh. bind_res (get_bound G e2) (\<lambda>ul.
                  let hi = signed_take_bit 31 uh;
                      lo = signed_take_bit 31 ul;
                      inside = (lo + shift_amt \<ge> 0 \<and> hi + shift_amt < int w) in
                  if \<not> fitsInt (hi + shift_amt) \<or> \<not> fitsInt (lo + shift_amt) then Inl UndefinedBehaviour
                  else if hi + shift_amt \<le> 0 then
                    mk_Constant (Type_Bits (nat (hi - lo + 1)) False) 0 10 False
                  else if lo + shift_amt < 0 then
                    bind_res (mk_Constant (Type_Bits (nat (- (lo + shift_amt))) False) 0 10 False) (\<lambda>z.
                      ok (Binary 0 t Concat
                           (Slice 0 t shift_of (inf_const (hi + shift_amt)) (inf_const 0)) z))
                  else if inside then
                    slice_concat G 0 t shift_of (inf_const (hi + shift_amt)) (inf_const (lo + shift_amt))
                  else slice_concat G i t e0 e1 e2))
            | _ \<Rightarrow> ok (Slice i t e0 e1 e2)))"

text \<open>\<open>Slice::make\<close>: the bits \<open>lo\<close> to \<open>hi\<close> of an expression, with slices of slices and of constants folded.\<close>

definition Slice_make :: "gmp \<Rightarrow> expr \<Rightarrow> nat \<Rightarrow> nat \<Rightarrow> expr res" where
  "Slice_make G e lo hi =
     (case e of
        Constant i t v b \<Rightarrow>
          if 32 \<le> hi - lo + 1 then Inl UndefinedBehaviour
          else ok (Constant 0 (Type_Bits (hi - lo + 1) False) (const_and (const_shr v lo) (2 ^ (hi - lo + 1) - 1)) 10)
      | _ \<Rightarrow>
          let w = width_bits (type_of e) in
          if w \<noteq> 0 \<and> lo \<ge> w then mk_Constant (Type_Bits (hi - lo + 1) False) 0 10 False
          else
            let hi = (if w \<noteq> 0 \<and> hi \<ge> w then w - 1 else hi) in
            if w \<noteq> 0 \<and> lo = 0 \<and> hi = w - 1 then ok e
            else
              case e of
                Slice j t e0 e1 e2 \<Rightarrow>
                  bind_res (get_bound G e2) (\<lambda>l. bind_res (get_bound G e1) (\<lambda>h.
                    if int hi + l \<le> h then ok (mk_Slice e0 (int hi + l) (int lo + l)) else Inl BugCheck))
              | _ \<Rightarrow> ok (mk_Slice e (int hi) (int lo)))"

section \<open>The pass\<close>

definition sr_unary :: "nid \<Rightarrow> ptype \<Rightarrow> unop \<Rightarrow> expr \<Rightarrow> expr" where
  "sr_unary i t op e =
     (case op of Cmpl \<Rightarrow> sr_Cmpl i t e | LNot \<Rightarrow> sr_LNot i t e | Neg \<Rightarrow> Unary i t Neg e)"

definition sr_binary :: "nid \<Rightarrow> ptype \<Rightarrow> binop \<Rightarrow> expr \<Rightarrow> expr \<Rightarrow> expr res" where
  "sr_binary i t op l r =
     (case op of
        BAnd \<Rightarrow> ok (sr_BAnd i t l r) | BOr \<Rightarrow> ok (sr_BOr i t l r) | BXor \<Rightarrow> ok (sr_BXor i t l r)
      | LAnd \<Rightarrow> ok (sr_LAnd i t l r) | LOr \<Rightarrow> ok (sr_LOr i t l r)
      | Sub \<Rightarrow> sr_Sub i t l r | Add \<Rightarrow> ok (sr_Add i t l r)
      | Shl \<Rightarrow> ok (sr_Shl i t l r) | Shr \<Rightarrow> ok (sr_Shr i t l r)
      | Mul \<Rightarrow> ok (sr_Mul i t l r) | Div \<Rightarrow> sr_Div i t l r | Mod \<Rightarrow> sr_Mod i t l r
      | _ \<Rightarrow> ok (Binary i t op l r))"

fun sr :: "gmp \<Rightarrow> expr \<Rightarrow> expr res"
  and sr_list :: "gmp \<Rightarrow> expr list \<Rightarrow> expr list res"
  and sr_fields :: "gmp \<Rightarrow> (string \<times> expr) list \<Rightarrow> (string \<times> expr) list res" where
  "sr G (Unary i t op e) = bind_res (sr G e) (\<lambda>e'. ok (sr_unary (kept (e' = e) i) t op e'))"
| "sr G (Cast i t e) = bind_res (sr G e) (\<lambda>e'. ok (Cast (kept (e' = e) i) t e'))"
| "sr G (Binary i t op l r) =
     bind_res (sr G l) (\<lambda>l'. bind_res (sr G r) (\<lambda>r'. sr_binary (kept (l' = l \<and> r' = r) i) t op l' r'))"
| "sr G (Slice i t e0 e1 e2) =
     bind_res (sr G e0) (\<lambda>e0'. bind_res (sr G e1) (\<lambda>e1'. bind_res (sr G e2) (\<lambda>e2'.
       sr_Slice G (kept (e0' = e0 \<and> e1' = e1 \<and> e2' = e2) i) t e0' e1' e2')))"
| "sr G (Mux i t e0 e1 e2) =
     bind_res (sr G e0) (\<lambda>e0'. bind_res (sr G e1) (\<lambda>e1'. bind_res (sr G e2) (\<lambda>e2'.
       ok (Mux (kept (e0' = e0 \<and> e1' = e1 \<and> e2' = e2) i) t e0' e1' e2'))))"
| "sr G (Member i t e f) = bind_res (sr G e) (\<lambda>e'. ok (Member (kept (e' = e) i) t e' f))"
| "sr G (ListExpression i t es) = bind_res (sr_list G es) (\<lambda>es'. ok (ListExpression (kept (es' = es) i) t es'))"
| "sr G (StructInitializer i t fs) =
     bind_res (sr_fields G fs) (\<lambda>fs'. ok (StructInitializer (kept (fs' = fs) i) t fs'))"
| "sr G (MethodCall i t m es) = bind_res (sr_list G es) (\<lambda>es'. ok (MethodCall (kept (es' = es) i) t m es'))"
| "sr G e = ok e"
| "sr_list G [] = ok []"
| "sr_list G (e # es) = bind_res (sr G e) (\<lambda>e'. bind_res (sr_list G es) (\<lambda>es'. ok (e' # es')))"
| "sr_fields G [] = ok []"
| "sr_fields G ((f, e) # fs) = bind_res (sr G e) (\<lambda>e'. bind_res (sr_fields G fs) (\<lambda>fs'. ok ((f, e') # fs')))"

section \<open>Simulation\<close>

text \<open>
  Annotations. Where the pass splits a slice of a left shift it leaves the old type on the slice
  that remains; the annotations of all other nodes are right, and nothing reads the annotation of the
  left operand of a concatenation or of the operand of a slice.
\<close>

definition annx :: "expr \<Rightarrow> bool" where
  "annx e \<longleftrightarrow> ann e \<or> (case e of Slice i t e0 e1 e2 \<Rightarrow> True | _ \<Rightarrow> False)"

fun ann_in :: "expr \<Rightarrow> bool"
  and ann_list :: "expr list \<Rightarrow> bool"
  and ann_fields :: "(string \<times> expr) list \<Rightarrow> bool" where
  "ann_in (Unary i t op e) \<longleftrightarrow> ann e \<and> ann_in e"
| "ann_in (Cast i t e) \<longleftrightarrow> ann e \<and> ann_in e"
| "ann_in (Binary i t op l r) \<longleftrightarrow> (if op = Concat then annx l else ann l) \<and> ann r \<and> ann_in l \<and> ann_in r"
| "ann_in (Slice i t e0 e1 e2) \<longleftrightarrow> annx e0 \<and> ann_in e0"
| "ann_in (Mux i t e0 e1 e2) \<longleftrightarrow> ann e0 \<and> ann e1 \<and> ann e2 \<and> ann_in e0 \<and> ann_in e1 \<and> ann_in e2"
| "ann_in (Member i t e f) \<longleftrightarrow> is_type_name e \<or> ann e \<and> ann_in e"
| "ann_in (ListExpression i t es) \<longleftrightarrow> ann_list es"
| "ann_in (StructInitializer i t fs) \<longleftrightarrow> ann_fields fs"
| "ann_in (MethodCall i t m es) \<longleftrightarrow> ann_list es"
| "ann_in _ \<longleftrightarrow> True"
| "ann_list [] \<longleftrightarrow> True"
| "ann_list (e # es) \<longleftrightarrow> ann e \<and> ann_in e \<and> ann_list es"
| "ann_fields [] \<longleftrightarrow> True"
| "ann_fields ((f, e) # fs) \<longleftrightarrow> ann e \<and> ann_in e \<and> ann_fields fs"

text \<open>
  A well typed expression is rewritten to one of the same type, with the annotations the pass
  relies on, and of the same value wherever it has one.
\<close>

definition simulates :: "expr \<Rightarrow> expr \<Rightarrow> bool" where
  "simulates e e' \<longleftrightarrow> (\<forall>T. ty e = Some T \<and> ann_in e \<and> ann e \<longrightarrow>
     ty e' = Some T \<and> ann_in e' \<and> ann e' \<and> (\<forall>E v. env_ok E \<and> eval E e = Some v \<longrightarrow> eval E e' = Some v))"

lemma ann_annx: "ann e \<Longrightarrow> annx e"
  by (simp add: annx_def)

lemma simulatesI:
  assumes "\<And>T. ty e = Some T \<Longrightarrow> ann_in e \<Longrightarrow> ann e \<Longrightarrow> ty e' = Some T \<and> ann_in e' \<and> ann e'"
    and "\<And>T E v. ty e = Some T \<Longrightarrow> ann_in e \<Longrightarrow> ann e \<Longrightarrow> env_ok E \<Longrightarrow> eval E e = Some v \<Longrightarrow> eval E e' = Some v"
  shows "simulates e e'"
  using assms by (simp add: simulates_def)

lemma simulatesD:
  assumes "simulates e e'" and "ty e = Some T" and "ann_in e" and "ann e"
  shows "ty e' = Some T" "ann_in e'" "ann e'" "env_ok E \<Longrightarrow> eval E e = Some v \<Longrightarrow> eval E e' = Some v"
  using assms by (auto simp: simulates_def)

lemma simulates_assume:
  assumes "\<And>T. ty e = Some T \<Longrightarrow> ann_in e \<Longrightarrow> ann e \<Longrightarrow> simulates e e'"
  shows "simulates e e'"
  using assms by (simp add: simulates_def)

lemma simulates_refl [simp]: "simulates e e"
  by (simp add: simulates_def)

lemma simulates_trans: "simulates a b \<Longrightarrow> simulates b c \<Longrightarrow> simulates a c"
  by (simp add: simulates_def)

text \<open>Operations on numbers: the operands and the result have one type.\<close>

lemma arith_tyE:
  assumes "ty (Binary i t op l r) = Some T" and "op \<in> arith_ops"
  shows "ty l = Some T" "ty r = Some T" "numeric T"
  using assms by (auto simp: bind_eq_Some_conv binop_ty_def split: if_splits)

lemma arith_evalE:
  assumes "env_ok E" and "eval E (Binary i t op l r) = Some v" and "ty (Binary i t op l r) = Some T" and "op \<in> arith_ops"
  obtains a b c where "eval E l = Some (num_val T a)" "eval E r = Some (num_val T b)" "fits T a" "fits T b"
    "arith op a b = Some c" "v = num_val T (norm T c)"
proof -
  note t = arith_tyE [OF assms(3,4)]
  obtain x y where xy: "eval E l = Some x" "eval E r = Some y" "binop_val op x y = Some v"
    using assms(2,4) by (auto simp: bind_eq_Some_conv)
  obtain a b where "x = num_val T a" "fits T a" "y = num_val T b" "fits T b"
    using eval_numeric [OF assms(1) xy(1) t(1,3)] eval_numeric [OF assms(1) xy(2) t(2,3)] by blast
  with xy t assms(4) that show ?thesis by (auto simp: binop_num_val)
qed

lemma eval_arithI:
  assumes "eval E l = Some (num_val T a)" "eval E r = Some (num_val T b)" "numeric T" "op \<in> arith_ops"
  shows "eval E (Binary i t op l r) = map_option (\<lambda>c. num_val T (norm T c)) (arith op a b)"
  using assms binop_num_val [OF assms(3,4)] by auto

text \<open>The constants the methods look for.\<close>

lemma isZero_eval: "isZero e \<Longrightarrow> ty e = Some T \<Longrightarrow> eval E e = Some (num_val T 0)"
  by (cases e) (auto simp: isZero_def dest: eval_constant simp del: ty.simps eval.simps)

lemma isOne_eval: "isOne e \<Longrightarrow> ty e = Some T \<Longrightarrow> eval E e = Some (num_val T 1)"
  by (cases e) (auto simp: isOne_def dest: eval_constant simp del: ty.simps eval.simps)

lemma isPowerOf2_eval:
  assumes "isPowerOf2 e = Some k" and "ty e = Some T"
  shows "eval E e = Some (num_val T (2 ^ k)) \<and> fits T (2 ^ k) \<and> type_of e = T"
proof -
  from assms(1) obtain i t v b where e: "e = Constant i t v b" "0 < v" "popcount v = 1" "scan1 v = Some k"
    by (cases e) (auto simp: isPowerOf2_def split: if_splits)
  then have "v = 2 ^ k" using popcount_1 [of v] by auto
  then show ?thesis using eval_constant [of i t v b T E] assms(2) e(1) by simp
qed

lemma isAllOnes_eval:
  assumes "isAllOnes e" and "ty e = Some T"
  shows "\<exists>w. T = Type_Bits w False \<and> eval E e = Some (num_val T (2 ^ w - 1))"
proof -
  from assms(1) obtain i t v b where e: "e = Constant i t v b" "0 < v" "popcount v = width_bits t"
    by (cases e) (auto simp: isAllOnes_def split: if_splits)
  then have c: "eval E e = Some (num_val T v)" "numeric T" "fits T v" "T = t"
    using eval_constant [of i t v b T E] assms(2) by auto
  have "popcount v \<noteq> 0" using e(2) popcount_eq_0 [of v] by simp
  with e(3) c(2,4) obtain w s where w: "T = Type_Bits w s" "popcount v = w" "0 < w" by (auto simp: numeric_cases)
  have "\<not> s"
  proof
    assume s
    then have "v < 2 ^ (w - 1)" using c(3) w(1) by (simp add: fits_def in_range_def)
    then have "popcount v \<le> w - 1" using e(2) by (intro popcount_le) auto
    then show False using w(2,3) by simp
  qed
  then have "v < 2 ^ w" using c(3) w(1) by (simp add: fits_def in_range_def)
  then have "v = 2 ^ w - 1" using popcount_full [of v w] e(2) w(2) by simp
  then show ?thesis using c(1) w(1) \<open>\<not> s\<close> by simp
qed

lemma fits_0: "numeric T \<Longrightarrow> fits T 0"
  by (auto simp: numeric_cases fits_def in_range_def)

lemma fits_smaller: "fits T a \<Longrightarrow> 0 \<le> b \<Longrightarrow> b \<le> a \<Longrightarrow> fits T b"
  by (auto simp: fits_def in_range_def split: ptype.splits)

lemma norm_0 [simp]: "numeric T \<Longrightarrow> norm T 0 = 0"
  by (simp add: fits_0 norm_fits)

text \<open>An operation that can be replaced by another expression of its type.\<close>

lemma sim_arith:
  assumes "op \<in> arith_ops"
    and "\<And>T. ty l = Some T \<Longrightarrow> ty r = Some T \<Longrightarrow> numeric T \<Longrightarrow> ann l \<Longrightarrow> ann r \<Longrightarrow> ann_in l \<Longrightarrow> ann_in r \<Longrightarrow>
      ty e = Some T \<and> ann e \<and> ann_in e"
    and "\<And>T E a b c. ty l = Some T \<Longrightarrow> ty r = Some T \<Longrightarrow> numeric T \<Longrightarrow> env_ok E \<Longrightarrow> eval E l = Some (num_val T a) \<Longrightarrow>
      eval E r = Some (num_val T b) \<Longrightarrow> fits T a \<Longrightarrow> fits T b \<Longrightarrow> arith op a b = Some c \<Longrightarrow>
      eval E e = Some (num_val T (norm T c))"
  shows "simulates (Binary i t op l r) e"
proof (rule simulatesI)
  fix T assume t: "ty (Binary i t op l r) = Some T" and "ann_in (Binary i t op l r)"
  then show "ty e = Some T \<and> ann_in e \<and> ann e"
    using arith_tyE [OF t assms(1)] assms(1,2) by auto
next
  fix T E v
  assume t: "ty (Binary i t op l r) = Some T" and "env_ok E" "eval E (Binary i t op l r) = Some v"
  then obtain a b c where *: "eval E l = Some (num_val T a)" "eval E r = Some (num_val T b)" "fits T a" "fits T b"
      "arith op a b = Some c" "v = num_val T (norm T c)"
    using arith_evalE assms(1) by metis
  then show "eval E e = Some v" using assms(3) [OF arith_tyE [OF t assms(1)]] \<open>env_ok E\<close> by blast
qed

lemma sim_left:
  assumes "op \<in> arith_ops"
    and "\<And>T E a b c. ty l = Some T \<Longrightarrow> ty r = Some T \<Longrightarrow> numeric T \<Longrightarrow> eval E l = Some (num_val T a) \<Longrightarrow>
      eval E r = Some (num_val T b) \<Longrightarrow> fits T a \<Longrightarrow> fits T b \<Longrightarrow> arith op a b = Some c \<Longrightarrow> norm T c = a"
  shows "simulates (Binary i t op l r) l"
  by (rule sim_arith [OF assms(1)]) (use assms(2) in auto)

lemma sim_right:
  assumes "op \<in> arith_ops"
    and "\<And>T E a b c. ty l = Some T \<Longrightarrow> ty r = Some T \<Longrightarrow> numeric T \<Longrightarrow> eval E l = Some (num_val T a) \<Longrightarrow>
      eval E r = Some (num_val T b) \<Longrightarrow> fits T a \<Longrightarrow> fits T b \<Longrightarrow> arith op a b = Some c \<Longrightarrow> norm T c = b"
  shows "simulates (Binary i t op l r) r"
  by (rule sim_arith [OF assms(1)]) (use assms(2) in auto)

section \<open>The methods preserve values\<close>

lemma isZero_num: "isZero e \<Longrightarrow> ty e = Some T \<Longrightarrow> eval E e = Some (num_val T a) \<Longrightarrow> a = 0"
  using isZero_eval [of e T E] by (simp add: num_val_inject)

lemma isOne_num: "isOne e \<Longrightarrow> ty e = Some T \<Longrightarrow> eval E e = Some (num_val T a) \<Longrightarrow> a = 1"
  using isOne_eval [of e T E] by (simp add: num_val_inject)

lemma isPowerOf2_num: "isPowerOf2 e = Some k \<Longrightarrow> ty e = Some T \<Longrightarrow> eval E e = Some (num_val T a) \<Longrightarrow> a = 2 ^ k"
  using isPowerOf2_eval [of e k T E] by (simp add: num_val_inject)

lemma isAllOnes_num:
  assumes "isAllOnes e" "ty e = Some T" "eval E e = Some (num_val T a)" "fits T b"
  shows "a AND b = b \<and> b AND a = b"
proof -
  from isAllOnes_eval [OF assms(1,2), of E] assms(3) obtain w where w: "T = Type_Bits w False" "a = 2 ^ w - 1"
    by (auto simp: num_val_inject)
  then have "0 \<le> b" "b < 2 ^ w" using assms(4) by (auto simp: fits_def in_range_def)
  then have "take_bit w b = b" by (simp add: take_bit_int_eq_self)
  then show ?thesis using w by (simp add: and.commute take_bit_eq_mask mask_eq_exp_minus_1)
qed

lemma arith_simps:
  "arith Add a b = Some (a + b)" "arith Sub a b = Some (a - b)" "arith Mul a b = Some (a * b)"
  "arith BAnd a b = Some (a AND b)" "arith BOr a b = Some (a OR b)" "arith BXor a b = Some (a XOR b)"
  "arith Div a b = (if 0 \<le> a \<and> 0 < b then Some (a div b) else None)"
  "arith Mod a b = (if 0 \<le> a \<and> 0 < b then Some (a mod b) else None)"
  by (simp_all add: arith_def)

lemma ann_mk_Unary: "ann e \<Longrightarrow> ty e = Some T \<Longrightarrow> unop_ty op T = Some T \<Longrightarrow> ann (mk_Unary op e)"
  by (simp add: ann_def mk_Unary_def)

lemma ann_mk_Binary:
  "ann l \<Longrightarrow> ann r \<Longrightarrow> ty l = Some T \<Longrightarrow> ty r = Some T \<Longrightarrow> numeric T \<Longrightarrow> op \<in> arith_ops \<Longrightarrow>
     ty (mk_Binary op l r) = Some T \<and> ann (mk_Binary op l r)"
  by (auto simp: ann_def mk_Binary_def binary_type_def binop_ty_def is_relation_def)

lemma sim_Add: "simulates (Binary i t Add l r) (sr_Add i t l r)"
  by (auto simp: sr_Add_def arith_simps norm_fits intro!: sim_left sim_right dest: isZero_num)

text \<open>The complement of a well typed operand.\<close>

lemma Cmpl_tyE: "ty (Unary i t Cmpl e) = Some T \<Longrightarrow> ty e = Some T \<and> is_bits T"
  by (auto simp: bind_eq_Some_conv unop_ty_def split: if_splits)

lemma is_bits_numeric: "is_bits T \<Longrightarrow> numeric T"
  by (auto simp: is_bits_def numeric_def split: ptype.splits)

lemma Cmpl_evalE:
  assumes "env_ok E" and "eval E (Unary i t Cmpl e) = Some (num_val T a)" and "ty (Unary i t Cmpl e) = Some T"
  obtains b where "eval E e = Some (num_val T b)" "a = norm T (NOT b)" "fits T b"
proof -
  from assms(2) obtain x where x: "eval E e = Some x" "unop_val Cmpl x = Some (num_val T a)"
    by (auto simp: bind_eq_Some_conv)
  note T = Cmpl_tyE [OF assms(3)]
  obtain b where "x = num_val T b" "fits T b"
    using eval_numeric [OF assms(1) x(1)] T is_bits_numeric by blast
  with x T that show ?thesis by (auto simp: unop_num_val num_val_inject)
qed

lemma eval_mk_Cmpl: "eval E e = Some (num_val T b) \<Longrightarrow> is_bits T \<Longrightarrow> eval E (mk_Unary Cmpl e) = Some (num_val T (norm T (NOT b)))"
  by (simp add: mk_Unary_def unop_num_val)

lemma sim_De_Morgan:
  assumes "op \<in> {BAnd, BOr}"
  shows "simulates (Binary i t op (Unary j t1 Cmpl a) (Unary k t2 Cmpl b))
    (mk_Unary Cmpl (mk_Binary (if op = BAnd then BOr else BAnd) a b))" (is "simulates (Binary _ _ _ ?l ?r) (mk_Unary Cmpl ?e)")
proof (rule sim_arith)
  fix T assume T: "ty ?l = Some T" "ty ?r = Some T" "numeric T" "ann ?l" "ann ?r" "ann_in ?l" "ann_in ?r"
  then have "ty ?e = Some T" "ann ?e" "is_bits T"
    using ann_mk_Binary [of a b T] Cmpl_tyE [OF T(1)] Cmpl_tyE [OF T(2)] assms by auto
  then show "ty (mk_Unary Cmpl ?e) = Some T \<and> ann (mk_Unary Cmpl ?e) \<and> ann_in (mk_Unary Cmpl ?e)"
    using T(6,7) by (auto simp: mk_Unary_def ann_def mk_Binary_def unop_ty_def)
next
  fix T E x y c
  assume T: "ty ?l = Some T" "ty ?r = Some T" "numeric T" and E: "env_ok E" "eval E ?l = Some (num_val T x)"
    "eval E ?r = Some (num_val T y)" and c: "arith op x y = Some c"
  obtain u where u: "eval E a = Some (num_val T u)" "x = norm T (NOT u)" using Cmpl_evalE [OF E(1,2) T(1)] by metis
  obtain v where v: "eval E b = Some (num_val T v)" "y = norm T (NOT v)" using Cmpl_evalE [OF E(1,3) T(2)] by metis
  have bits: "is_bits T" using Cmpl_tyE [OF T(1)] by simp
  have "eval E ?e = Some (num_val T (norm T (if op = BAnd then u OR v else u AND v)))"
    using eval_arithI [OF u(1) v(1) T(3)] assms by (auto simp: mk_Binary_def arith_simps)
  from eval_mk_Cmpl [OF this bits] show "eval E (mk_Unary Cmpl ?e) = Some (num_val T (norm T c))"
    using c assms u(2) v(2) norm_bitwise(1,2) [OF bits] by (auto simp: arith_simps)
qed (use assms in auto)

lemma sim_BAnd: "simulates (Binary i t BAnd l r) (sr_BAnd i t l r)"
proof -
  consider "isZero l" | "\<not> isZero l" "isZero r" | "\<not> isZero l" "\<not> isZero r" "isAllOnes l"
    | "\<not> isZero l" "\<not> isZero r" "\<not> isAllOnes l" "isAllOnes r"
    | (rest) "\<not> isZero l" "\<not> isZero r" "\<not> isAllOnes l" "\<not> isAllOnes r" by blast
  then show ?thesis
  proof cases
    case rest
    then show ?thesis
      using sim_De_Morgan [of BAnd] by (auto simp: sr_BAnd_def split: expr.split unop.split)
  qed (auto simp: sr_BAnd_def arith_simps norm_fits intro!: sim_left sim_right dest: isZero_num isAllOnes_num)
qed

lemma sim_BOr: "simulates (Binary i t BOr l r) (sr_BOr i t l r)"
proof -
  consider "isZero l" | "\<not> isZero l" "isZero r" | (rest) "\<not> isZero l" "\<not> isZero r" by blast
  then show ?thesis
  proof cases
    case rest
    then show ?thesis
      using sim_De_Morgan [of BOr] by (auto simp: sr_BOr_def split: expr.split unop.split)
  qed (auto simp: sr_BOr_def arith_simps norm_fits intro!: sim_left sim_right dest: isZero_num)
qed

lemma strip_Cmpl_cases:
  obtains (cmpl) j t a where "e = Unary j t Cmpl a" "strip_Cmpl e = (True, a)"
  | (other) "strip_Cmpl e = (False, e)"
proof (cases e)
  case (Unary j t op a)
  then show ?thesis using that by (cases op) (auto simp: strip_Cmpl_def)
qed (use that in \<open>auto simp: strip_Cmpl_def\<close>)

lemma strip_Cmpl_eval:
  assumes "strip_Cmpl e = (c, e')" "ty e = Some T" "numeric T" "env_ok E" "eval E e = Some (num_val T a)" "fits T a"
  shows "\<exists>b. eval E e' = Some (num_val T b) \<and> a = (if c then norm T (NOT b) else b) \<and> (c \<longrightarrow> is_bits T)"
proof (cases e rule: strip_Cmpl_cases)
  case (cmpl j t b)
  then show ?thesis
    using Cmpl_evalE [of E j t b T a] Cmpl_tyE [of j t b T] assms by auto
qed (use assms in auto)

lemma strip_Cmpl_ty:
  "strip_Cmpl e = (c, e') \<Longrightarrow> ty e = Some T \<Longrightarrow> ann e \<Longrightarrow> ann_in e \<Longrightarrow> ty e' = Some T \<and> ann e' \<and> ann_in e' \<and> (c \<longrightarrow> is_bits T)"
  by (cases e rule: strip_Cmpl_cases) (auto dest: Cmpl_tyE simp del: ty.simps)

lemma sim_BXor: "simulates (Binary i t BXor l r) (sr_BXor i t l r)"
proof -
  consider "isZero l" | "\<not> isZero l" "isZero r" | (rest) "\<not> isZero l" "\<not> isZero r" by blast
  then show ?thesis
  proof cases
    case rest
    obtain cl l' where l: "strip_Cmpl l = (cl, l')" by force
    obtain cr r' where r: "strip_Cmpl r = (cr, r')" by force
    let ?e = "Binary (if cl \<or> cr then 0 else i) t BXor l' r'"
    have res: "sr_BXor i t l r = (if cl \<noteq> cr then mk_Unary Cmpl ?e else ?e)"
      using rest by (simp add: sr_BXor_def l r)
    show ?thesis
      unfolding res
    proof (rule simulatesI)
      fix T assume t: "ty (Binary i t BXor l r) = Some T" "ann_in (Binary i t BXor l r)" "ann (Binary i t BXor l r)"
      note T = arith_tyE [OF t(1)]
      have "ty l' = Some T" "ann l'" "ann_in l'" "ty r' = Some T" "ann r'" "ann_in r'" "cl \<noteq> cr \<longrightarrow> is_bits T"
        using strip_Cmpl_ty [OF l] strip_Cmpl_ty [OF r] T t(2) by auto
      moreover have "numeric T" using T(3) by simp
      ultimately show "ty (if cl \<noteq> cr then mk_Unary Cmpl ?e else ?e) = Some T \<and>
          ann_in (if cl \<noteq> cr then mk_Unary Cmpl ?e else ?e) \<and> ann (if cl \<noteq> cr then mk_Unary Cmpl ?e else ?e)"
        using t(1,3) by (auto simp: mk_Unary_def ann_def binop_ty_def unop_ty_def)
    next
      fix T E v assume t: "ty (Binary i t BXor l r) = Some T" and E: "env_ok E" "eval E (Binary i t BXor l r) = Some v"
      note T = arith_tyE [OF t, simplified]
      obtain a b where ab: "eval E l = Some (num_val T a)" "eval E r = Some (num_val T b)" "fits T a" "fits T b"
          "v = num_val T (norm T (a XOR b))"
        by (rule arith_evalE [OF E t]) (auto simp: arith_simps)
      obtain x where x: "eval E l' = Some (num_val T x)" "a = (if cl then norm T (NOT x) else x)" "cl \<longrightarrow> is_bits T"
        using strip_Cmpl_eval [OF l T(1,3) E(1) ab(1,3)] by blast
      obtain y where y: "eval E r' = Some (num_val T y)" "b = (if cr then norm T (NOT y) else y)" "cr \<longrightarrow> is_bits T"
        using strip_Cmpl_eval [OF r T(2,3) E(1) ab(2,4)] by blast
      have "eval E ?e = Some (num_val T (norm T (x XOR y)))"
        using eval_arithI [OF x(1) y(1) T(3)] by (simp add: arith_simps del: eval.simps)
      then show "eval E (if cl \<noteq> cr then mk_Unary Cmpl ?e else ?e) = Some v"
        using ab(5) x(2,3) y(2,3) norm_bitwise(3-5) [of T] eval_mk_Cmpl [of E ?e T] by (auto simp del: eval.simps)
    qed
  qed (auto simp: sr_BXor_def arith_simps norm_fits intro!: sim_left sim_right dest: isZero_num)
qed

lemma sim_Mul: "simulates (Binary i t Mul l r) (sr_Mul i t l r)"
proof -
  have shl: "simulates (Binary i t Mul l r) (mk_Binary Shl e (inf_const (int k)))"
    if "e = l \<and> isPowerOf2 r = Some k \<or> e = r \<and> isPowerOf2 l = Some k" for e k
  proof (rule sim_arith)
    fix T assume "ty l = Some T" "ty r = Some T" "numeric T" "ann l" "ann r" "ann_in l" "ann_in r"
    then show "ty (mk_Binary Shl e (inf_const (int k))) = Some T \<and> ann (mk_Binary Shl e (inf_const (int k))) \<and>
        ann_in (mk_Binary Shl e (inf_const (int k)))"
      using that by (auto simp: mk_Binary_def binary_type_def is_relation_def inf_const_def ann_def binop_ty_def
          const_val_def numeric_def)
  next
    fix T E a b c
    assume T: "ty l = Some T" "ty r = Some T" "numeric T" and E: "eval E l = Some (num_val T a)"
      "eval E r = Some (num_val T b)" and c: "arith Mul a b = Some c"
    have "\<exists>x. eval E e = Some (num_val T x) \<and> c = x * 2 ^ k"
      using that c isPowerOf2_num [OF _ T(1) E(1)] isPowerOf2_num [OF _ T(2) E(2)] E by (auto simp: arith_simps)
    then show "eval E (mk_Binary Shl e (inf_const (int k))) = Some (num_val T (norm T c))"
      using T(3) by (auto simp: mk_Binary_def inf_const_def const_val_def binop_val_def shift_num_val)
  qed simp
  consider "isZero l" | "\<not> isZero l" "isZero r" | "\<not> isZero l" "\<not> isZero r" "isOne l"
    | "\<not> isZero l" "\<not> isZero r" "\<not> isOne l" "isOne r" | (rest) "\<not> isZero l" "\<not> isZero r" "\<not> isOne l" "\<not> isOne r"
    by blast
  then show ?thesis
  proof cases
    case rest
    then show ?thesis using shl by (auto simp: sr_Mul_def split: option.split)
  qed (auto simp: sr_Mul_def arith_simps norm_fits intro!: sim_left sim_right dest: isZero_num isOne_num)
qed

lemma sim_Div: "sr_Div i t l r = Inr (ds, e) \<Longrightarrow> simulates (Binary i t Div l r) e"
proof -
  have shr: "simulates (Binary i t Div l r) (mk_Binary Shr l (inf_const (int k)))" if k: "isPowerOf2 r = Some k" for k
  proof (rule sim_arith)
    fix T assume "ty l = Some T" "ty r = Some T" "numeric T" "ann l" "ann r" "ann_in l" "ann_in r"
    then show "ty (mk_Binary Shr l (inf_const (int k))) = Some T \<and> ann (mk_Binary Shr l (inf_const (int k))) \<and>
        ann_in (mk_Binary Shr l (inf_const (int k)))"
      by (auto simp: mk_Binary_def binary_type_def is_relation_def inf_const_def ann_def binop_ty_def
          const_val_def numeric_def)
  next
    fix T E a b c
    assume T: "ty l = Some T" "ty r = Some T" "numeric T" and E: "eval E l = Some (num_val T a)"
      "eval E r = Some (num_val T b)" "fits T a" and c: "arith Div a b = Some c"
    have "b = 2 ^ k" using isPowerOf2_num [OF k T(2) E(2)] .
    then have c: "c = a div 2 ^ k" using c by (auto simp: arith_simps split: if_splits)
    then have "fits T c" using E(3) by (auto simp: fits_def div_in_range split: ptype.splits)
    then show "eval E (mk_Binary Shr l (inf_const (int k))) = Some (num_val T (norm T c))"
      using T(3) E(1) c by (auto simp: mk_Binary_def inf_const_def const_val_def binop_val_def shift_num_val norm_fits)
  qed simp
  assume "sr_Div i t l r = Inr (ds, e)"
  then show ?thesis
    using shr by (auto simp: sr_Div_def arith_simps norm_fits split: if_splits option.splits
        intro!: sim_left dest: isZero_num isOne_num)
qed

text \<open>A constant built for a numeric type.\<close>

lemma sim_Sub: "sr_Sub i t l r = Inr (ds, e) \<Longrightarrow> simulates (Binary i t Sub l r) e"
proof -
  have neg: "simulates (Binary i t Sub l r) (mk_Unary Neg r)" if "isZero l"
  proof (rule sim_arith)
    fix T E a b c
    assume "ty l = Some T" "numeric T" "eval E l = Some (num_val T a)" "eval E r = Some (num_val T b)" "arith Sub a b = Some c"
    then show "eval E (mk_Unary Neg r) = Some (num_val T (norm T c))"
      using isZero_num [OF that, of T E a] by (simp add: mk_Unary_def arith_simps unop_num_val)
  qed (auto simp: mk_Unary_def ann_def unop_ty_def)
  have add: "simulates (Binary i t Sub l r) (mk_Binary Add l n)"
    if r: "r = Constant j ct v b" and n: "mk_Constant ct (- v) b True = Inr (ds', n)" for j ct v b n ds'
  proof (rule sim_arith)
    fix T assume T: "ty l = Some T" "ty r = Some T" "numeric T" "ann l" "ann r" "ann_in l"
    then have "n = Constant 0 T (norm T (- v)) b"
      using r n mk_Constant_numeric [of T "- v" b True] eval_constant [of j ct v b T] by auto
    then have "ty n = Some T" "ann n" "ann_in n"
      using ty_Constant_norm [OF T(3), of 0 "- v" b] by (simp_all add: ann_def)
    then show "ty (mk_Binary Add l n) = Some T \<and> ann (mk_Binary Add l n) \<and> ann_in (mk_Binary Add l n)"
      using ann_mk_Binary [of l n T Add] T by (simp add: mk_Binary_def)
  next
    fix T E x y c
    assume T: "ty l = Some T" "ty r = Some T" "numeric T" and E: "eval E l = Some (num_val T x)" "eval E r = Some (num_val T y)"
      and c: "arith Sub x y = Some c"
    have *: "n = Constant 0 T (norm T (- v)) b" "y = v"
      using T r n mk_Constant_numeric [of T "- v" b True] eval_constant [of j ct v b T E] E(2) by (auto simp: num_val_inject)
    then have "eval E n = Some (num_val T (norm T (- v)))"
      using eval_constant [OF ty_Constant_norm [OF T(3), of 0 "- v" b], of E] by simp
    from eval_arithI [OF E(1) this T(3), of Add] show "eval E (mk_Binary Add l n) = Some (num_val T (norm T c))"
      using c *(2) norm_add [OF T(3), of x "- v"] by (simp add: mk_Binary_def arith_simps)
  qed simp
  assume res: "sr_Sub i t l r = Inr (ds, e)"
  consider "isZero r" | "\<not> isZero r" "isZero l" | (rest) "\<not> isZero r" "\<not> isZero l" by blast
  then show ?thesis
  proof cases
    case rest
    then show ?thesis using res add by (cases r) (auto simp: sr_Sub_def bind_res_Inr)
  qed (use res neg in \<open>auto simp: sr_Sub_def arith_simps norm_fits intro!: sim_left dest: isZero_num\<close>)
qed

lemma sim_Mod: "sr_Mod i t l r = Inr (ds, e) \<Longrightarrow> simulates (Binary i t Mod l r) e"
proof -
  have and_: "simulates (Binary i t Mod l r) (mk_Binary BAnd l n)"
    if k: "isPowerOf2 r = Some k" and n: "mk_Constant (type_of r) (2 ^ k - 1) 10 False = Inr (ds', n)" for k n ds'
  proof -
    have mask: "n = Constant 0 T (2 ^ k - 1) 10 \<and> ty n = Some T" if "ty r = Some T" "numeric T" for T
    proof -
      have "fits T (2 ^ k)" "type_of r = T" using isPowerOf2_eval [OF k that(1)] by auto
      then have "fits T (2 ^ k - 1)"
        using fits_smaller [of T "2 ^ k" "2 ^ k - 1"] by simp
      then show ?thesis
        using n mk_Constant_numeric [OF that(2), of "2 ^ k - 1" 10 False] ty_Constant_norm [OF that(2), of 0 "2 ^ k - 1" 10]
          \<open>type_of r = T\<close> by (auto simp: norm_fits)
    qed
    show ?thesis
    proof (rule sim_arith)
      fix T assume T: "ty l = Some T" "ty r = Some T" "numeric T" "ann l" "ann r" "ann_in l"
      then show "ty (mk_Binary BAnd l n) = Some T \<and> ann (mk_Binary BAnd l n) \<and> ann_in (mk_Binary BAnd l n)"
        using ann_mk_Binary [of l n T BAnd] mask [OF T(2,3)] by (auto simp: ann_def mk_Binary_def simp del: ty.simps(1))
    next
      fix T E x y c
      assume T: "ty l = Some T" "ty r = Some T" "numeric T" and E: "eval E l = Some (num_val T x)" "eval E r = Some (num_val T y)"
        and c: "arith Mod x y = Some c"
      have m: "eval E n = Some (num_val T (2 ^ k - 1))"
        using mask [OF T(2,3)] eval_constant by blast
      have "c = x AND (2 ^ k - 1)"
        using c isPowerOf2_num [OF k T(2) E(2)]
        by (auto simp: arith_simps take_bit_eq_mask [symmetric] mask_eq_exp_minus_1 [symmetric] take_bit_eq_mod split: if_splits)
      then show "eval E (mk_Binary BAnd l n) = Some (num_val T (norm T c))"
        using eval_arithI [OF E(1) m T(3), of BAnd] by (simp add: mk_Binary_def arith_simps)
    qed simp
  qed
  assume "sr_Mod i t l r = Inr (ds, e)"
  then show ?thesis
    using and_ by (auto simp: sr_Mod_def arith_simps norm_fits bind_res_Inr split: if_splits option.splits
        intro!: sim_left dest: isZero_num)
qed

text \<open>Shifts by zero and of zero.\<close>

lemma sim_shift:
  assumes "isZero r \<or> isZero l" and "op \<in> {Shl, Shr}"
  shows "simulates (Binary i t op l r) l"
proof (rule simulatesI)
  fix T assume t: "ty (Binary i t op l r) = Some T" and "ann_in (Binary i t op l r)"
  then show "ty l = Some T \<and> ann_in l \<and> ann l"
    using assms(2) by (auto simp: bind_eq_Some_conv binop_ty_def split: if_splits)
next
  fix T E v
  assume "ty (Binary i t op l r) = Some T" "env_ok E" "eval E (Binary i t op l r) = Some v"
  then obtain x y S where *: "ty l = Some T" "numeric T" "ty r = Some S" "numeric S"
      "eval E l = Some x" "eval E r = Some y" "binop_val op x y = Some v"
    using assms(2) by (auto simp: bind_eq_Some_conv binop_ty_def split: if_splits)
  obtain a b where ab: "x = num_val T a" "fits T a" "y = num_val S b"
    using eval_numeric [OF \<open>env_ok E\<close> *(5,1,2)] eval_numeric [OF \<open>env_ok E\<close> *(6,3,4)] by blast
  have v: "v = num_val T (if op = Shl then norm T (a * 2 ^ nat b) else a div 2 ^ nat b)"
    using * ab assms(2) by (auto simp: binop_val_def int_of_num_val shift_num_val split: if_splits)
  have "a = 0 \<or> b = 0"
    using assms(1) isZero_num [of l T E a] isZero_num [of r S E b] * ab by auto
  then show "eval E l = Some v" using * ab v by (auto simp: norm_fits)
qed

text \<open>The Boolean operations.\<close>

lemma isTrue_eval: "isTrue e \<Longrightarrow> eval E e = Some (VBool True)"
  and isFalse_eval: "isFalse e \<Longrightarrow> eval E e = Some (VBool False)"
  by (cases e; simp add: isTrue_def isFalse_def)+

lemma sim_bool:
  assumes "op \<in> {LAnd, LOr}" and "e = l \<or> e = r"
    and "\<And>E v. eval E (Binary i t op l r) = Some v \<Longrightarrow> eval E e = Some v"
  shows "simulates (Binary i t op l r) e"
  using assms
  by (auto simp: simulates_def bind_eq_Some_conv binop_ty_def simp del: eval.simps split: if_splits)

lemma eval_bool_type: "eval E e = Some v \<Longrightarrow> ty e = Some Type_Boolean \<Longrightarrow> \<exists>b. v = VBool b"
  using eval_type [of E e v Type_Boolean] by (cases v) auto

lemma not_isTrue_isFalse: "isTrue e \<Longrightarrow> \<not> isFalse e"
  by (cases e) (auto simp: isTrue_def isFalse_def)

lemma sim_LAnd: "simulates (Binary i t LAnd l r) (sr_LAnd i t l r)"
  using isTrue_eval isFalse_eval not_isTrue_isFalse
  by (auto simp: sr_LAnd_def intro!: sim_bool split: option.splits val.splits bool.splits)

lemma sim_LOr: "simulates (Binary i t LOr l r) (sr_LOr i t l r)"
  using isTrue_eval isFalse_eval not_isTrue_isFalse
  by (auto simp: sr_LOr_def intro!: sim_bool split: option.splits val.splits bool.splits)

text \<open>The negated relations.\<close>

fun negated :: "binop \<Rightarrow> binop" where
  "negated Equ = Neq" | "negated Neq = Equ" | "negated Leq = Grt" | "negated Grt = Leq"
| "negated Geq = Lss" | "negated Lss = Geq" | "negated op = op"

lemma is_relation_negated: "is_relation op \<Longrightarrow> is_relation (negated op)"
  by (auto simp: is_relation_def)

lemma is_relation_not: "is_relation op \<Longrightarrow> op \<notin> {LAnd, LOr, Shl, Shr, Concat}"
  by (auto simp: is_relation_def)

lemma relation_negated: "is_relation op \<Longrightarrow> relation (negated op) a b = map_option Not (relation op a b)"
  by (auto simp: is_relation_def relation_def)

lemma eq_val_negated:
  "is_relation op \<Longrightarrow> eq_val op x y = Some (VBool b) \<Longrightarrow> eq_val (negated op) x y = Some (VBool (\<not> b))"
  by (auto simp: is_relation_def eq_val_def)

lemma binop_ty_negated: "is_relation op \<Longrightarrow> binop_ty (negated op) a c = binop_ty op a c"
  by (cases op; simp add: is_relation_def binop_ty_def)

lemma binop_val_negated:
  assumes "is_relation op" and "binop_val op x y = Some (VBool b)"
  shows "binop_val (negated op) x y = Some (VBool (\<not> b))"
  using assms is_relation_not [OF assms(1)] is_relation_not [OF is_relation_negated [OF assms(1)]]
    relation_negated [OF assms(1)] eq_val_negated [OF assms(1), of x y b] is_relation_negated [OF assms(1)]
  by (cases x; cases y) (auto simp: binop_val_def bits_val_def int_val_def split: if_splits)
lemma LNot_val: "unop_val LNot u = Some v \<longleftrightarrow> (\<exists>b. u = VBool b \<and> v = VBool (\<not> b))"
  by (cases u) (auto simp: unop_val_def)

lemma sim_negated:
  assumes "is_relation op"
  shows "simulates (Unary i t LNot (Binary j t' op l r)) (mk_Binary (negated op) l r)"
proof (rule simulatesI)
  fix T assume T: "ty (Unary i t LNot (Binary j t' op l r)) = Some T" "ann_in (Unary i t LNot (Binary j t' op l r))"
  then have "ty (Binary 0 Type_Boolean (negated op) l r) = Some T" "T = Type_Boolean"
    using binop_ty_negated [OF assms] by (auto simp: bind_eq_Some_conv unop_ty_def split: if_splits)
  moreover have "ann l" "ann r" "ann_in l" "ann_in r" using T(2) is_relation_not [OF assms] by (auto split: if_splits)
  ultimately show "ty (mk_Binary (negated op) l r) = Some T \<and> ann_in (mk_Binary (negated op) l r) \<and> ann (mk_Binary (negated op) l r)"
    using is_relation_negated [OF assms] by (simp add: mk_Binary_def ann_def binary_type_def annx_def)
next
  fix T E v assume "eval E (Unary i t LNot (Binary j t' op l r)) = Some v"
  then obtain x y b where "eval E l = Some x" "eval E r = Some y" "binop_val op x y = Some (VBool b)" "v = VBool (\<not> b)"
    using is_relation_not [OF assms] by (auto simp: bind_eq_Some_conv LNot_val)
  then show "eval E (mk_Binary (negated op) l r) = Some v"
    using binop_val_negated [OF assms] is_relation_not [OF is_relation_negated [OF assms]] by (simp add: mk_Binary_def)
qed

lemma sim_LNot: "simulates (Unary i t LNot e) (sr_LNot i t e)"
proof (cases e)
  case (Binary j t' op l r)
  then show ?thesis using sim_negated [of op i t j t' l r] by (cases op) (simp_all add: sr_LNot_def is_relation_def)
qed (simp_all add: sr_LNot_def)

lemma sim_Cmpl: "simulates (Unary i t Cmpl e) (sr_Cmpl i t e)"
proof (cases e)
  case (Unary j t' op a)
  show ?thesis
  proof (cases "op = Cmpl")
    case True
    have "simulates (Unary i t Cmpl (Unary j t' Cmpl a)) a"
    proof (rule simulatesI)
      fix T assume "ty (Unary i t Cmpl (Unary j t' Cmpl a)) = Some T" "ann_in (Unary i t Cmpl (Unary j t' Cmpl a))"
      then show "ty a = Some T \<and> ann_in a \<and> ann a"
        using Cmpl_tyE [of i t "Unary j t' Cmpl a" T] Cmpl_tyE [of j t' a T] by simp
    next
      fix T E v
      assume t: "ty (Unary i t Cmpl (Unary j t' Cmpl a)) = Some T" and E: "env_ok E"
        and v: "eval E (Unary i t Cmpl (Unary j t' Cmpl a)) = Some v"
      have t': "ty (Unary j t' Cmpl a) = Some T" "is_bits T" using Cmpl_tyE [OF t] by auto
      obtain x where x: "v = num_val T x" using eval_numeric [OF E v t] t'(2) is_bits_numeric by blast
      obtain y where y: "eval E (Unary j t' Cmpl a) = Some (num_val T y)" "x = norm T (NOT y)"
        using Cmpl_evalE [OF E v [unfolded x] t] by metis
      obtain z where "eval E a = Some (num_val T z)" "y = norm T (NOT z)" "fits T z"
        using Cmpl_evalE [OF E y(1) t'(1)] by metis
      then show "eval E a = Some v"
        using norm_bitwise(6) [OF t'(2), of z] by (simp add: x y(2) norm_fits)
    qed
    then show ?thesis using True Unary by (simp add: sr_Cmpl_def)
  next
    case False
    then show ?thesis using Unary by (cases op) (simp_all add: sr_Cmpl_def)
  qed
qed (simp_all add: sr_Cmpl_def)

section \<open>Slices preserve values\<close>

lemma Slice_ty:
  "ty (Slice i t e0 e1 e2) = Some T \<longleftrightarrow>
     (\<exists>w s h l. ty e0 = Some (Type_Bits w s) \<and> bound_of e1 = Some h \<and> bound_of e2 = Some l \<and>
        0 \<le> l \<and> l \<le> h \<and> h < int w \<and> w < 2 ^ 31 \<and> T = Type_Bits (nat (h - l + 1)) False)"
  by (auto simp: bind_eq_Some_conv slice_ty_Some)

lemma eval_bits:
  assumes "env_ok E" and "eval E e = Some v" and "ty e = Some (Type_Bits w s)"
  shows "\<exists>a. v = VBits w s a \<and> in_range w s a \<and> 0 < w"
  using eval_type [OF assms(2,3)] eval_ok(1) [OF assms(1,2)] by (cases v) auto

lemma eval_Slice:
  assumes "bound_of e1 = Some h" and "bound_of e2 = Some l"
  shows "eval E (Slice i t e0 e1 e2) = Option.bind (eval E e0) (\<lambda>v. slice_val v h l)"
  using bound_of_eval [OF assms(1), of E] bound_of_eval [OF assms(2), of E] by (cases "eval E e0") auto

lemma bound_of_inf [simp]: "bound_of (inf_const v) = Some v"
  by (simp add: bound_of_def inf_const_def const_val_def)

text \<open>The bits of a slice and of a concatenation.\<close>

lemma slice_bits_eq:
  assumes "\<And>k. k < n \<Longrightarrow> bit x (l + k) \<longleftrightarrow> bit y (m + k)"
  shows "take_bit n (x div 2 ^ l) = take_bit n (y div (2 ^ m :: int))"
  using assms by (intro bit_eqI) (auto simp: bit_take_bit_iff drop_bit_eq_div [symmetric] bit_drop_bit_eq)

lemma bit_concat:
  assumes "0 \<le> b" and "b < 2 ^ w"
  shows "bit (a * 2 ^ w + b :: int) n \<longleftrightarrow> (if n < w then bit b n else bit a (n - w))"
proof -
  have "a * 2 ^ w + b = concat_bit w b a"
    using assms by (simp add: concat_bit_eq push_bit_eq_mult take_bit_int_eq_self)
  then show ?thesis by (simp add: bit_concat_bit_iff)
qed

lemma concat_val_bits: "concat_val (VBits w s a) (VBits w' False b) = Some (VBits (w + w') s (wrap (w + w') s (a * 2 ^ w' + b)))"
  by (simp add: concat_val_def)

text \<open>Simulation of a slice by an expression, once the types are known.\<close>

lemma sim_sliceI:
  assumes "ty e0 = Some (Type_Bits w s)" and "bound_of e1 = Some h" and "bound_of e2 = Some l"
    and "0 \<le> l" "l \<le> h" "h < int w" "w < 2 ^ 31"
    and "ann_in (Slice i t e0 e1 e2) \<Longrightarrow> ann (Slice i t e0 e1 e2) \<Longrightarrow>
      ty e = Some (Type_Bits (nat (h - l + 1)) False) \<and> ann_in e \<and> ann e"
    and "\<And>E a. env_ok E \<Longrightarrow> eval E e0 = Some (VBits w s a) \<Longrightarrow> in_range w s a \<Longrightarrow>
      eval E e = Some (VBits (nat (h - l + 1)) False (take_bit (nat (h - l + 1)) (a div 2 ^ nat l)))"
  shows "simulates (Slice i t e0 e1 e2) e"
proof (rule simulatesI)
  fix T assume "ty (Slice i t e0 e1 e2) = Some T" "ann_in (Slice i t e0 e1 e2)" "ann (Slice i t e0 e1 e2)"
  moreover from this(1) have "T = Type_Bits (nat (h - l + 1)) False" using assms(2,3) by (auto simp: Slice_ty simp del: ty.simps)
  ultimately show "ty e = Some T \<and> ann_in e \<and> ann e" using assms(8) by simp
next
  fix T E v assume E: "env_ok E" "eval E (Slice i t e0 e1 e2) = Some v"
  then obtain x where x: "eval E e0 = Some x" "slice_val x h l = Some v"
    unfolding eval_Slice [OF assms(2,3)] by (auto simp: bind_eq_Some_conv)
  obtain a where "x = VBits w s a" "in_range w s a" using eval_bits [OF E(1) x(1) assms(1)] by blast
  then show "eval E e = Some v"
    using assms(9) [OF E(1), of a] x by (auto simp: slice_val_def split: if_splits)
qed

lemma concat_ty_Some:
  "binop_ty Concat a b = Some T \<longleftrightarrow>
     (\<exists>w s w'. a = Type_Bits w s \<and> b = Type_Bits w' False \<and> 0 < w \<and> 0 < w' \<and> T = Type_Bits (w + w') s)"
  by (cases a; cases b) (auto simp: binop_ty_def split: bool.splits if_splits)

lemma concat_tyE:
  assumes "ty (Binary j ct Concat l r) = Some (Type_Bits w s)"
  obtains w1 w2 where "ty l = Some (Type_Bits w1 s)" "ty r = Some (Type_Bits w2 False)" "w = w1 + w2" "0 < w1" "0 < w2"
  using assms by (auto simp: bind_eq_Some_conv concat_ty_Some)

lemma concat_evalE:
  assumes "env_ok E" and "eval E (Binary j ct Concat l r) = Some (VBits w s x)"
    and "ty l = Some (Type_Bits w1 s)" and "ty r = Some (Type_Bits w2 False)"
  obtains a b where "eval E l = Some (VBits w1 s a)" "in_range w1 s a" "eval E r = Some (VBits w2 False b)"
    "0 \<le> b" "b < 2 ^ w2" "x = wrap (w1 + w2) s (a * 2 ^ w2 + b)"
proof -
  obtain u v where uv: "eval E l = Some u" "eval E r = Some v" "binop_val Concat u v = Some (VBits w s x)"
    using assms(2) by (auto simp: bind_eq_Some_conv)
  obtain a b where "u = VBits w1 s a" "in_range w1 s a" "v = VBits w2 False b" "in_range w2 False b"
    using eval_bits [OF assms(1) uv(1) assms(3)] eval_bits [OF assms(1) uv(2) assms(4)] by blast
  with uv that show ?thesis by (auto simp: binop_val_def concat_val_bits in_range_def)
qed

text \<open>The three cases of the loop: the left operand, the right operand, or a part of both.\<close>

lemma sim_slice_left:
  assumes "ty l = Some (Type_Bits w1 s)" and "ty r = Some (Type_Bits w2 False)" and "0 < w1" and "0 < w2"
    and "bound_of e1 = Some h" and "bound_of e2 = Some lo"
    and "int w2 \<le> lo" "lo \<le> h" "h < int (w1 + w2)" "w1 + w2 < 2 ^ 31"
  shows "simulates (Slice i t (Binary j ct Concat l r) e1 e2)
    (Slice k t l (inf_const (h - int w2)) (inf_const (lo - int w2)))" (is "simulates _ ?e")
proof (rule sim_sliceI [OF _ assms(5,6)])
  show "ty (Binary j ct Concat l r) = Some (Type_Bits (w1 + w2) s)"
    using assms(1-4) by (simp add: concat_ty_Some)
  have t: "ty ?e = Some (Type_Bits (nat (h - lo + 1)) False)"
    using assms by (auto simp: Slice_ty simp del: ty.simps)
  assume "ann_in (Slice i t (Binary j ct Concat l r) e1 e2)" "ann (Slice i t (Binary j ct Concat l r) e1 e2)"
  moreover have "ty (Slice i t (Binary j ct Concat l r) e1 e2) = Some (Type_Bits (nat (h - lo + 1)) False)"
    using assms \<open>ty (Binary j ct Concat l r) = _\<close> by (auto simp: Slice_ty simp del: ty.simps)
  ultimately show "ty ?e = Some (Type_Bits (nat (h - lo + 1)) False) \<and> ann_in ?e \<and> ann ?e"
    using t by (auto simp: ann_def simp del: ty.simps)
next
  fix E x assume E: "env_ok E" "eval E (Binary j ct Concat l r) = Some (VBits (w1 + w2) s x)"
  obtain a b where ab: "eval E l = Some (VBits w1 s a)" "0 \<le> b" "b < 2 ^ w2" "x = wrap (w1 + w2) s (a * 2 ^ w2 + b)"
    using concat_evalE [OF E assms(1,2)] by metis
  have "take_bit (nat (h - lo + 1)) (x div 2 ^ nat lo) = take_bit (nat (h - lo + 1)) (a div 2 ^ nat (lo - int w2))"
    using assms(3,4,7-9) ab(2-4) by (intro slice_bits_eq) (auto simp: bit_wrap bit_concat intro!: arg_cong [where f = "bit a"])
  moreover have "slice_val (VBits w1 s a) (h - int w2) (lo - int w2) =
      Some (VBits (nat (h - lo + 1)) False (take_bit (nat (h - lo + 1)) (a div 2 ^ nat (lo - int w2))))"
    using assms(7-10) by (simp add: slice_val_def)
  ultimately show "eval E ?e = Some (VBits (nat (h - lo + 1)) False (take_bit (nat (h - lo + 1)) (x div 2 ^ nat lo)))"
    by (simp add: eval_Slice ab(1) del: eval.simps)
qed (use assms in auto)

lemma sim_slice_right:
  assumes "ty l = Some (Type_Bits w1 s)" and "ty r = Some (Type_Bits w2 False)" and "0 < w1" and "0 < w2"
    and "bound_of e1 = Some h" and "bound_of e2 = Some lo"
    and "0 \<le> lo" "lo \<le> h" "h < int w2" "w1 + w2 < 2 ^ 31"
  shows "simulates (Slice i t (Binary j ct Concat l r) e1 e2) (Slice k t r e1 e2)" (is "simulates _ ?e")
proof (rule sim_sliceI [OF _ assms(5,6)])
  show "ty (Binary j ct Concat l r) = Some (Type_Bits (w1 + w2) s)"
    using assms(1-4) by (simp add: concat_ty_Some)
  have t: "ty ?e = Some (Type_Bits (nat (h - lo + 1)) False)"
    using assms by (auto simp: Slice_ty simp del: ty.simps)
  assume "ann_in (Slice i t (Binary j ct Concat l r) e1 e2)" "ann (Slice i t (Binary j ct Concat l r) e1 e2)"
  moreover have "ty (Slice i t (Binary j ct Concat l r) e1 e2) = Some (Type_Bits (nat (h - lo + 1)) False)"
    using assms \<open>ty (Binary j ct Concat l r) = _\<close> by (auto simp: Slice_ty simp del: ty.simps)
  ultimately show "ty ?e = Some (Type_Bits (nat (h - lo + 1)) False) \<and> ann_in ?e \<and> ann ?e"
    using t by (auto simp: ann_def ann_annx annx_def simp del: ty.simps)
next
  fix E x assume E: "env_ok E" "eval E (Binary j ct Concat l r) = Some (VBits (w1 + w2) s x)"
  obtain a b where ab: "eval E r = Some (VBits w2 False b)" "0 \<le> b" "b < 2 ^ w2" "x = wrap (w1 + w2) s (a * 2 ^ w2 + b)"
    using concat_evalE [OF E assms(1,2)] by metis
  have "take_bit (nat (h - lo + 1)) (x div 2 ^ nat lo) = take_bit (nat (h - lo + 1)) (b div 2 ^ nat lo)"
    using assms(3,4,7-9) ab(2-4) by (intro slice_bits_eq) (auto simp: bit_wrap bit_concat)
  moreover have "slice_val (VBits w2 False b) h lo =
      Some (VBits (nat (h - lo + 1)) False (take_bit (nat (h - lo + 1)) (b div 2 ^ nat lo)))"
    using assms(7-10) by (simp add: slice_val_def)
  ultimately show "eval E ?e = Some (VBits (nat (h - lo + 1)) False (take_bit (nat (h - lo + 1)) (x div 2 ^ nat lo)))"
    by (simp add: eval_Slice [OF assms(5,6)] ab(1) del: eval.simps)
qed (use assms in auto)

lemma sim_slice_both:
  assumes "ty l = Some (Type_Bits w1 s)" and "ty r = Some (Type_Bits w2 False)" and "0 < w1" and "0 < w2"
    and "bound_of e1 = Some h" and "bound_of e2 = Some lo"
    and "0 \<le> lo" "lo < int w2" "int w2 \<le> h" "h < int (w1 + w2)" "w1 + w2 < 2 ^ 31"
  shows "simulates (Slice i t (Binary j ct Concat l r) e1 e2)
    (Binary 0 t Concat (mk_Slice l (h - int w2) 0) (mk_Slice r (int w2 - 1) lo))" (is "simulates _ (Binary 0 t Concat ?l ?r)")
proof (rule sim_sliceI [OF _ assms(5,6)])
  let ?n1 = "nat (h - int w2 + 1)" and ?n2 = "nat (int w2 - lo)"
  show c: "ty (Binary j ct Concat l r) = Some (Type_Bits (w1 + w2) s)"
    using assms(1-4) by (simp add: concat_ty_Some)
  have tl: "ty ?l = Some (Type_Bits ?n1 False)"
    using assms by (auto simp: mk_Slice_def Slice_ty simp del: ty.simps)
  have tr: "ty ?r = Some (Type_Bits ?n2 False)"
    using assms by (auto simp: mk_Slice_def Slice_ty simp del: ty.simps)
  have n: "?n1 + ?n2 = nat (h - lo + 1)" "0 < ?n1" "0 < ?n2" using assms(7-9) by auto
  then have t: "ty (Binary 0 t Concat ?l ?r) = Some (Type_Bits (nat (h - lo + 1)) False)"
    using tl tr by (auto simp: concat_ty_Some)
  assume *: "ann_in (Slice i t (Binary j ct Concat l r) e1 e2)" "ann (Slice i t (Binary j ct Concat l r) e1 e2)"
  have "ty (Slice i t (Binary j ct Concat l r) e1 e2) = Some (Type_Bits (nat (h - lo + 1)) False)"
    using assms c by (auto simp: Slice_ty simp del: ty.simps)
  with * have "t = Type_Bits (nat (h - lo + 1)) False" "annx l" "ann r" "ann_in l" "ann_in r"
    by (auto simp: ann_def simp del: ty.simps)
  moreover have "ann ?r" using tr by (simp add: ann_def mk_Slice_def del: ty.simps)
  moreover have "annx ?l" "ann_in ?l" "ann_in ?r"
    using calculation(2-5) by (auto simp: annx_def mk_Slice_def)
  ultimately show "ty (Binary 0 t Concat ?l ?r) = Some (Type_Bits (nat (h - lo + 1)) False) \<and>
      ann_in (Binary 0 t Concat ?l ?r) \<and> ann (Binary 0 t Concat ?l ?r)"
    using t by (simp add: ann_def del: ty.simps)
next
  let ?n1 = "nat (h - int w2 + 1)" and ?n2 = "nat (int w2 - lo)"
  fix E x assume E: "env_ok E" "eval E (Binary j ct Concat l r) = Some (VBits (w1 + w2) s x)"
  obtain a b where ab: "eval E l = Some (VBits w1 s a)" "eval E r = Some (VBits w2 False b)" "0 \<le> b" "b < 2 ^ w2"
      "x = wrap (w1 + w2) s (a * 2 ^ w2 + b)"
    using concat_evalE [OF E assms(1,2)] by metis
  have n: "?n1 + ?n2 = nat (h - lo + 1)" using assms(7-9) by auto
  have "eval E ?l = Some (VBits ?n1 False (take_bit ?n1 a))"
    using assms(9-11) by (simp add: mk_Slice_def eval_Slice ab(1) slice_val_def del: eval.simps)
  moreover have "eval E ?r = Some (VBits ?n2 False (take_bit ?n2 (b div 2 ^ nat lo)))"
    using assms(7,8,11) by (simp add: mk_Slice_def eval_Slice ab(2) slice_val_def del: eval.simps)
  moreover have idx: "\<not> n < ?n2 \<Longrightarrow> n - ?n2 = nat lo + n - w2" for n using assms(7,8) by linarith
  moreover have "take_bit (?n1 + ?n2) (take_bit ?n1 a * 2 ^ ?n2 + take_bit ?n2 (b div 2 ^ nat lo)) =
      take_bit (nat (h - lo + 1)) (x div 2 ^ nat lo)"
    unfolding n using assms(3,4,7-10) ab(3-5)
    by (intro bit_eqI) (auto simp: bit_take_bit_iff bit_concat drop_bit_eq_div [symmetric] bit_drop_bit_eq bit_wrap idx)
  ultimately show "eval E (Binary 0 t Concat ?l ?r) =
      Some (VBits (nat (h - lo + 1)) False (take_bit (nat (h - lo + 1)) (x div 2 ^ nat lo)))"
    using n by (simp add: binop_val_def concat_val_bits wrap_def)
qed (use assms in auto)

text \<open>The bounds are read back as they are.\<close>

lemma get_bound_of:
  assumes "gmp_ok G" and "bound_of e = Some v" and "0 \<le> v" and "v < 2 ^ 31"
  shows "get_bound G e = Inr ([], v)"
proof -
  obtain i t b where "e = Constant i t v b" using assms(2) by (auto simp: bound_of_Some)
  moreover have "fitsUint v" using assms(3,4) by (simp add: fitsUint_def)
  ultimately show ?thesis using asUnsigned_fits [OF assms(1)] by (simp add: get_bound_def)
qed

lemma take_31: "0 \<le> (v::int) \<Longrightarrow> v < 2 ^ 31 \<Longrightarrow> take_bit 32 v = v"
  and signed_31: "- (2 ^ 31) \<le> (v::int) \<Longrightarrow> v < 2 ^ 31 \<Longrightarrow> signed_take_bit 31 v = v"
  by (auto simp: take_bit_int_eq_self signed_take_bit_int_eq_self)

lemma slice_concat_step:
  assumes "gmp_ok G" "bound_of e1 = Some h" "bound_of e2 = Some lo" "0 \<le> lo" "lo \<le> h" "h < 2 ^ 31"
    and "type_of r = Type_Bits w2 False" and "int w2 < 2 ^ 31"
  shows "slice_concat G i t (Binary j ct Concat l r) e1 e2 =
    (if int w2 \<le> lo then slice_concat G 0 t l (inf_const (h - int w2)) (inf_const (lo - int w2))
     else if h < int w2 then slice_concat G 0 t r e1 e2
     else ok (Binary 0 t Concat (mk_Slice l (h - int w2) 0) (mk_Slice r (int w2 - 1) lo)))"
  using assms get_bound_of [OF assms(1,2)] get_bound_of [OF assms(1,3)]
  by (simp add: take_31 signed_31 Let_def)

lemma slice_concat_other: "(\<And>j ct l r. e0 \<noteq> Binary j ct Concat l r) \<Longrightarrow> slice_concat G i t e0 e1 e2 = ok (Slice i t e0 e1 e2)"
  by (cases "(G, i, t, e0, e1, e2)" rule: slice_concat.cases) auto

text \<open>The loop ends with an expression that simulates the slice.\<close>

lemma slice_concat_sim:
  assumes "gmp_ok G" and "ty e0 = Some (Type_Bits w s)" and "bound_of e1 = Some h" and "bound_of e2 = Some lo"
    and "0 \<le> lo" "lo \<le> h" "h < int w" "w < 2 ^ 31" and "ann_in e0"
  shows "\<exists>e. slice_concat G i t e0 e1 e2 = ok e \<and> simulates (Slice i t e0 e1 e2) e"
  using assms(2-9)
proof (induction e0 arbitrary: i w s e1 e2 h lo)
  case (Binary j ct op l r)
  show ?case
  proof (cases "op = Concat")
    case True
    obtain w1 w2 where c: "ty l = Some (Type_Bits w1 s)" "ty r = Some (Type_Bits w2 False)" "w = w1 + w2" "0 < w1" "0 < w2"
      using concat_tyE Binary.prems(1) True by metis
    have ann: "ann_in l" "ann_in r" "ann r" using Binary.prems(8) True by auto
    then have tr: "type_of r = Type_Bits w2 False" using c(2) by (simp add: ann_def)
    note pre = Binary.prems(2-7)
    have step: "slice_concat G i t (Binary j ct op l r) e1 e2 =
        (if int w2 \<le> lo then slice_concat G 0 t l (inf_const (h - int w2)) (inf_const (lo - int w2))
         else if h < int w2 then slice_concat G 0 t r e1 e2
         else ok (Binary 0 t Concat (mk_Slice l (h - int w2) 0) (mk_Slice r (int w2 - 1) lo)))"
      unfolding True using pre c(3) by (intro slice_concat_step [OF assms(1)]) (auto simp: tr)
    consider (left) "int w2 \<le> lo" | (right) "\<not> int w2 \<le> lo" "h < int w2" | (both) "\<not> int w2 \<le> lo" "\<not> h < int w2" by blast
    then show ?thesis
    proof cases
      case left
      let ?e = "Slice 0 t l (inf_const (h - int w2)) (inf_const (lo - int w2))"
      obtain e where "slice_concat G 0 t l (inf_const (h - int w2)) (inf_const (lo - int w2)) = ok e" "simulates ?e e"
        using Binary.IH(1) [OF c(1) bound_of_inf bound_of_inf, of "lo - int w2" "h - int w2" 0] left pre c(3) ann(1) by auto
      moreover have "simulates (Slice i t (Binary j ct Concat l r) e1 e2) ?e"
        using left pre c by (intro sim_slice_left) auto
      ultimately show ?thesis using left step True simulates_trans by auto
    next
      case right
      obtain e where "slice_concat G 0 t r e1 e2 = ok e" "simulates (Slice 0 t r e1 e2) e"
        using Binary.IH(2) [OF c(2) pre(1-4), of 0] right pre(5,6) c(3) ann(2) by auto
      moreover have "simulates (Slice i t (Binary j ct Concat l r) e1 e2) (Slice 0 t r e1 e2)"
        using right pre c by (intro sim_slice_right) auto
      ultimately show ?thesis using right step True simulates_trans by auto
    next
      case both
      have "simulates (Slice i t (Binary j ct Concat l r) e1 e2)
          (Binary 0 t Concat (mk_Slice l (h - int w2) 0) (mk_Slice r (int w2 - 1) lo))"
        using both pre c by (intro sim_slice_both) auto
      then show ?thesis using both step True by auto
    qed
  next
    case False
    then show ?thesis by (auto simp: slice_concat_other)
  qed
qed (auto simp: slice_concat_other)

text \<open>
  What the shift methods rely on: a slice of a shift by a constant. The bit \<open>n\<close> of the shifted value is
  the bit \<open>n + k\<close> of the operand, for the amount \<open>k\<close> (negative for a left shift).
\<close>

definition shifted_by :: "expr \<Rightarrow> int \<Rightarrow> expr \<Rightarrow> nat \<Rightarrow> bool" where
  "shifted_by e0 k e w \<longleftrightarrow> (\<forall>E x. env_ok E \<longrightarrow> eval E e0 = Some (VBits w False x) \<longrightarrow>
     (\<exists>a. eval E e = Some (VBits w False a) \<and> 0 \<le> a \<and> a < 2 ^ w \<and>
        (\<forall>n < w. bit x n \<longleftrightarrow> 0 \<le> int n + k \<and> bit a (nat (int n + k)))))"

lemma slice_shift_cases:
  obtains (none) "slice_shift G e0 = ok None"
  | (shift) j ct op l i t v b ds k where "e0 = Binary j ct op l (Constant i t v b)" "op = Shl \<or> op = Shr"
      "asInt G v = (ds, k)" "slice_shift G e0 = Inr (ds, Some (if op = Shl then - k else k, l))"
proof (cases e0)
  case (Binary j ct op l r)
  show ?thesis
  proof (cases r)
    case (Constant i t v b)
    obtain ds k where "asInt G v = (ds, k)" by force
    then show ?thesis
      using that Binary Constant by (cases op) (auto simp: slice_shift_def)
  qed (use none Binary in \<open>cases op; simp add: slice_shift_def\<close>)+
qed (use none in \<open>simp_all add: slice_shift_def\<close>)

lemma shifted_by_shift:
  assumes "ty l = Some (Type_Bits w False)" and "op = Shl \<or> op = Shr" and "ty (Constant i t v b) = Some S"
  shows "shifted_by (Binary j ct op l (Constant i t v b)) (if op = Shl then - v else v) l w"
  unfolding shifted_by_def
proof (intro allI impI)
  fix E x assume E: "env_ok E" "eval E (Binary j ct op l (Constant i t v b)) = Some (VBits w False x)"
  have c: "eval E (Constant i t v b) = Some (num_val t v)" "numeric t" using eval_constant [OF assms(3), of E] by auto
  obtain u where u: "eval E l = Some u" "binop_val op u (num_val t v) = Some (VBits w False x)"
    using E(2) assms(2) c(1) by (auto simp: bind_eq_Some_conv simp del: eval.simps(1))
  obtain a where a: "u = VBits w False a" "in_range w False a" "0 < w" using eval_bits [OF E(1) u(1) assms(1)] by blast
  have "0 \<le> v" and x: "x = (if op = Shl then take_bit w (a * 2 ^ nat v) else a div 2 ^ nat v)"
    using u(2) assms(2) a by (auto simp: binop_val_def int_of_num_val [OF c(2)] shift_val_def wrap_def split: if_splits)
  have "bit x n \<longleftrightarrow> 0 \<le> int n + (if op = Shl then - v else v) \<and> bit a (nat (int n + (if op = Shl then - v else v)))"
    if "n < w" for n
    using that assms(2) \<open>0 \<le> v\<close> unfolding x
    by (auto simp: bit_take_bit_iff push_bit_eq_mult [symmetric] bit_push_bit_iff drop_bit_eq_div [symmetric] bit_drop_bit_eq
        nat_add_distrib nat_diff_distrib add.commute)
  then show "\<exists>a. eval E l = Some (VBits w False a) \<and> 0 \<le> a \<and> a < 2 ^ w \<and>
      (\<forall>n < w. bit x n \<longleftrightarrow> 0 \<le> int n + (if op = Shl then - v else v) \<and> bit a (nat (int n + (if op = Shl then - v else v))))"
    using u(1) a by (auto simp: in_range_def)
qed

text \<open>A slice of zeros, a slice that reaches below the operand, and a slice inside the operand.\<close>

lemma sim_shift_zero:
  assumes "shifted_by e0 k e w" and "ty e0 = Some (Type_Bits w False)"
    and "bound_of e1 = Some h" and "bound_of e2 = Some l" and "0 \<le> l" "l \<le> h" "h < int w" "w < 2 ^ 31" and "h + k < 0"
  shows "simulates (Slice i t e0 e1 e2) (Constant 0 (Type_Bits (nat (h - l + 1)) False) 0 10)"
proof (rule sim_sliceI [OF assms(2-8)])
  show "ty (Constant 0 (Type_Bits (nat (h - l + 1)) False) 0 10) = Some (Type_Bits (nat (h - l + 1)) False) \<and>
      ann_in (Constant 0 (Type_Bits (nat (h - l + 1)) False) 0 10) \<and> ann (Constant 0 (Type_Bits (nat (h - l + 1)) False) 0 10)"
    using assms(6) by (simp add: const_val_def in_range_def ann_def)
next
  fix E x assume "env_ok E" "eval E e0 = Some (VBits w False x)"
  then have "\<not> bit x n" if "int n \<le> h" for n
    using that assms(1,7,9) unfolding shifted_by_def by fastforce
  then have "take_bit (nat (h - l + 1)) (x div 2 ^ nat l) = 0"
    using assms(5,6) by (intro bit_eqI) (auto simp: bit_take_bit_iff drop_bit_eq_div [symmetric] bit_drop_bit_eq)
  then show "eval E (Constant 0 (Type_Bits (nat (h - l + 1)) False) 0 10) =
      Some (VBits (nat (h - l + 1)) False (take_bit (nat (h - l + 1)) (x div 2 ^ nat l)))"
    using assms(6) by (simp add: const_val_def in_range_def)
qed

lemma sim_shift_below:
  assumes "shifted_by e0 k e w" and "ty e0 = Some (Type_Bits w False)"
    and "bound_of e1 = Some h" and "bound_of e2 = Some l" and "0 \<le> l" "l \<le> h" "h < int w" "w < 2 ^ 31"
    and "0 < h + k" "l + k < 0" and "ty e = Some (Type_Bits w False)" and "ann e" and "ann_in e"
  shows "simulates (Slice i t e0 e1 e2)
    (Binary 0 t Concat (Slice 0 t e (inf_const (h + k)) (inf_const 0)) (Constant 0 (Type_Bits (nat (- (l + k))) False) 0 10))"
    (is "simulates _ (Binary 0 t Concat ?s ?z)")
proof (rule sim_sliceI [OF assms(2-8)])
  let ?n = "nat (h + k + 1)" and ?m = "nat (- (l + k))"
  have s: "ty ?s = Some (Type_Bits ?n False)" using assms by (auto simp: Slice_ty simp del: ty.simps)
  have z: "ty ?z = Some (Type_Bits ?m False)" using assms(10) by (simp add: const_val_def in_range_def)
  have nm: "?n + ?m = nat (h - l + 1)" "0 < ?n" "0 < ?m" using assms(9,10) by auto
  then have c: "ty (Binary 0 t Concat ?s ?z) = Some (Type_Bits (nat (h - l + 1)) False)"
    using s z by (auto simp: concat_ty_Some simp del: ty.simps(1,8))
  assume "ann (Slice i t e0 e1 e2)"
  moreover have "ty (Slice i t e0 e1 e2) = Some (Type_Bits (nat (h - l + 1)) False)"
    using assms(2-8) by (auto simp: Slice_ty simp del: ty.simps)
  ultimately have "t = Type_Bits (nat (h - l + 1)) False" by (simp add: ann_def del: ty.simps)
  moreover have "ann ?z" using z by (simp add: ann_def del: ty.simps)
  ultimately show "ty (Binary 0 t Concat ?s ?z) = Some (Type_Bits (nat (h - l + 1)) False) \<and>
      ann_in (Binary 0 t Concat ?s ?z) \<and> ann (Binary 0 t Concat ?s ?z)"
    using c assms(12,13) by (simp add: ann_def annx_def del: ty.simps)
next
  let ?n = "nat (h + k + 1)" and ?m = "nat (- (l + k))"
  fix E x assume "env_ok E" "eval E e0 = Some (VBits w False x)"
  then obtain a where a: "eval E e = Some (VBits w False a)"
      "\<And>n. n < w \<Longrightarrow> bit x n \<longleftrightarrow> 0 \<le> int n + k \<and> bit a (nat (int n + k))"
    using assms(1) unfolding shifted_by_def by blast
  have nm: "?n + ?m = nat (h - l + 1)" using assms(9,10) by auto
  have "eval E ?s = Some (VBits ?n False (take_bit ?n a))"
    using assms(5-10) a(1) by (simp add: eval_Slice slice_val_def del: eval.simps)
  moreover have "eval E ?z = Some (VBits ?m False 0)" using assms(10) by (simp add: const_val_def in_range_def)
  moreover have "take_bit (?n + ?m) (take_bit ?n a * 2 ^ ?m + 0) = take_bit (nat (h - l + 1)) (x div 2 ^ nat l)"
    unfolding nm
  proof (rule bit_eqI)
    fix n
    have "bit (x div 2 ^ nat l) n \<longleftrightarrow> \<not> n < ?m \<and> bit a (n - ?m)" if "n < nat (h - l + 1)"
    proof -
      have q: "nat l + n < w" "int (nat l + n) + k = int n - int ?m" using that assms(5-10) by auto
      have "bit x (nat l + n) \<longleftrightarrow> 0 \<le> int n - int ?m \<and> bit a (nat (int n - int ?m))"
        using a(2) [OF q(1)] unfolding q(2) .
      moreover have "0 \<le> int n - int ?m \<longleftrightarrow> \<not> n < ?m" by linarith
      moreover have "nat (int n - int ?m) = n - ?m" by linarith
      ultimately show ?thesis by (simp add: drop_bit_eq_div [symmetric] bit_drop_bit_eq)
    qed
    moreover have "n - ?m < ?n" if "n < nat (h - l + 1)" using that nm assms(9) by linarith
    ultimately show "bit (take_bit (nat (h - l + 1)) (take_bit ?n a * 2 ^ ?m + 0)) n \<longleftrightarrow>
        bit (take_bit (nat (h - l + 1)) (x div 2 ^ nat l)) n"
      by (auto simp: bit_take_bit_iff push_bit_eq_mult [symmetric] bit_push_bit_iff)
  qed
  ultimately show "eval E (Binary 0 t Concat ?s ?z) =
      Some (VBits (nat (h - l + 1)) False (take_bit (nat (h - l + 1)) (x div 2 ^ nat l)))"
    using nm by (simp add: binop_val_def concat_val_bits wrap_def del: eval.simps(1,8))
qed

lemma sim_shift_inside:
  assumes "shifted_by e0 k e w" and "ty e0 = Some (Type_Bits w False)"
    and "bound_of e1 = Some h" and "bound_of e2 = Some l" and "0 \<le> l" "l \<le> h" "h < int w" "w < 2 ^ 31"
    and "0 \<le> l + k" "h + k < int w" and "ty e = Some (Type_Bits w False)" and "ann e" and "ann_in e"
  shows "simulates (Slice i t e0 e1 e2) (Slice j t e (inf_const (h + k)) (inf_const (l + k)))" (is "simulates _ ?s")
proof (rule sim_sliceI [OF assms(2-8)])
  have s: "ty ?s = Some (Type_Bits (nat (h - l + 1)) False)" using assms by (auto simp: Slice_ty simp del: ty.simps)
  assume "ann (Slice i t e0 e1 e2)"
  moreover have "ty (Slice i t e0 e1 e2) = Some (Type_Bits (nat (h - l + 1)) False)"
    using assms(2-8) by (auto simp: Slice_ty simp del: ty.simps)
  ultimately show "ty ?s = Some (Type_Bits (nat (h - l + 1)) False) \<and> ann_in ?s \<and> ann ?s"
    using s assms(12,13) by (simp add: ann_def annx_def del: ty.simps)
next
  fix E x assume "env_ok E" "eval E e0 = Some (VBits w False x)"
  then obtain a where a: "eval E e = Some (VBits w False a)"
      "\<And>n. n < w \<Longrightarrow> bit x n \<longleftrightarrow> 0 \<le> int n + k \<and> bit a (nat (int n + k))"
    using assms(1) unfolding shifted_by_def by blast
  have "take_bit (nat (h - l + 1)) (x div 2 ^ nat l) = take_bit (nat (h - l + 1)) (a div 2 ^ nat (l + k))"
  proof (rule slice_bits_eq)
    fix n assume "n < nat (h - l + 1)"
    then have "nat l + n < w" "nat (int (nat l + n) + k) = nat (l + k) + n" "0 \<le> int (nat l + n) + k"
      using assms(5-10) by auto
    then show "bit x (nat l + n) \<longleftrightarrow> bit a (nat (l + k) + n)" using a(2) by simp
  qed
  then show "eval E ?s = Some (VBits (nat (h - l + 1)) False (take_bit (nat (h - l + 1)) (x div 2 ^ nat l)))"
    using assms(5-10) a(1) by (simp add: eval_Slice slice_val_def del: eval.simps)
qed

text \<open>
  The bound at which the pass goes wrong: the slice of a left shift by \<open>k\<close> that ends at bit \<open>k\<close>. There the
  top bit of the slice is bit 0 of the operand, and the pass answers a constant zero.
\<close>

definition boundary :: "gmp \<Rightarrow> expr \<Rightarrow> expr \<Rightarrow> bool" where
  "boundary G e0 e1 \<longleftrightarrow>
     (case (slice_shift G e0, bound_of e1) of
        (Inr (_, Some (k, _)), Some h) \<Rightarrow> h + k = 0
      | _ \<Rightarrow> False)"

lemma mk_Constant_zero:
  assumes "0 < w"
  shows "mk_Constant (Type_Bits w False) 0 10 False = ok (Constant 0 (Type_Bits w False) 0 10)"
  using handleOverflow_wrap [OF assms, of False False 0]
  by (auto simp: mk_Constant_def in_range_def wrap_def ok_def)

text \<open>What the method does with a slice of a shift.\<close>

lemma sr_Slice_shift:
  assumes "gmp_ok G" and "slice_shift G e0 = Inr (ds1, Some (k, so))" and "type_of so = Type_Bits w False"
    and "bound_of e1 = Some h" and "bound_of e2 = Some l" and "0 \<le> l" "l \<le> h" "h < 2 ^ 31"
    and "sr_Slice G i t e0 e1 e2 = Inr (ds, e)"
  shows "\<exists>ds2. ds = ds1 @ ds2 \<and>
    (if h + k \<le> 0 then ok (Constant 0 (Type_Bits (nat (h - l + 1)) False) 0 10)
     else if l + k < 0 then ok (Binary 0 t Concat (Slice 0 t so (inf_const (h + k)) (inf_const 0))
                                  (Constant 0 (Type_Bits (nat (- (l + k))) False) 0 10))
     else if h + k < int w then slice_concat G 0 t so (inf_const (h + k)) (inf_const (l + k))
     else slice_concat G i t e0 e1 e2) = Inr (ds2, e)"
proof -
  have b: "get_bound G e1 = Inr ([], h)" "get_bound G e2 = Inr ([], l)"
    using assms get_bound_of [OF assms(1,4)] get_bound_of [OF assms(1,5)] by auto
  have hl: "signed_take_bit 31 h = h" "signed_take_bit 31 l = l" using assms(6-8) by (auto simp: signed_31)
  have z: "mk_Constant (Type_Bits (nat (h - l + 1)) False) 0 10 False = ok (Constant 0 (Type_Bits (nat (h - l + 1)) False) 0 10)"
    using assms(7) by (simp add: mk_Constant_zero)
  have z': "mk_Constant (Type_Bits (nat (- (l + k))) False) 0 10 False = ok (Constant 0 (Type_Bits (nat (- (l + k))) False) 0 10)"
    if "l + k < 0" using that by (simp add: mk_Constant_zero)
  show ?thesis
    using assms(9) z'
    by (auto simp: sr_Slice_def bind_res_Inr assms(2,3) b hl z Let_def split: if_splits)
qed

lemma shift_tyE:
  assumes "ty (Binary j ct op l r) = Some T" and "op = Shl \<or> op = Shr"
  shows "ty l = Some T" "\<exists>S. ty r = Some S"
  using assms by (auto simp: bind_eq_Some_conv binop_ty_def split: if_splits)

lemma sr_Slice_sim:
  assumes "gmp_ok G" and "sr_Slice G i t e0 e1 e2 = Inr (ds, e)" and "quiet ds" and "\<not> boundary G e0 e1"
  shows "simulates (Slice i t e0 e1 e2) e"
proof (rule simulates_assume)
  fix T assume T: "ty (Slice i t e0 e1 e2) = Some T" "ann_in (Slice i t e0 e1 e2)" "ann (Slice i t e0 e1 e2)"
  obtain w s h l where b: "ty e0 = Some (Type_Bits w s)" "bound_of e1 = Some h" "bound_of e2 = Some l"
      "0 \<le> l" "l \<le> h" "h < int w" "w < 2 ^ 31"
    using T(1) by (auto simp: Slice_ty simp del: ty.simps)
  have ann0: "ann_in e0" using T(2) by auto
  obtain c where c: "slice_concat G i t e0 e1 e2 = ok c" "simulates (Slice i t e0 e1 e2) c"
    using slice_concat_sim [OF assms(1) b ann0] by blast
  show "simulates (Slice i t e0 e1 e2) e"
  proof (cases G e0 rule: slice_shift_cases)
    case none
    then show ?thesis using assms(2) c by (simp add: sr_Slice_def)
  next
    case (shift j ct op so ci ct' v cb ds1 k0)
    let ?k = "if op = Shl then - v else v"
    obtain S where so: "ty so = Some (Type_Bits w s)" "ty (Constant ci ct' v cb) = Some S"
      using shift_tyE b(1) shift(1,2) by blast
    have ann: "ann_in so" "ann so" using ann0 shift(1,2) by auto
    then have tso: "type_of so = Type_Bits w s" using so by (simp add: ann_def)
    show ?thesis
    proof (cases s)
      case True
      then show ?thesis using assms(2) shift(4) tso by (auto simp: sr_Slice_def bind_res_Inr)
    next
      case False
      obtain ds2 where res: "ds = ds1 @ ds2" using assms(2) shift(4) by (auto simp: sr_Slice_def bind_res_Inr)
      then have "k0 = v" using asInt_quiet [OF assms(1) shift(3)] assms(3) by simp
      then have sh: "slice_shift G e0 = Inr (ds1, Some (?k, so))" using shift(4) by simp
      have shb: "shifted_by e0 ?k so w" using shifted_by_shift [OF _ shift(2) so(2)] so(1) shift(1) False by simp
      have nb: "h + ?k \<noteq> 0" using assms(4) by (simp add: boundary_def sh b(2))
      have "\<exists>ds2. ds = ds1 @ ds2 \<and>
        (if h + ?k \<le> 0 then ok (Constant 0 (Type_Bits (nat (h - l + 1)) False) 0 10)
         else if l + ?k < 0 then ok (Binary 0 t Concat (Slice 0 t so (inf_const (h + ?k)) (inf_const 0))
                                      (Constant 0 (Type_Bits (nat (- (l + ?k))) False) 0 10))
         else if h + ?k < int w then slice_concat G 0 t so (inf_const (h + ?k)) (inf_const (l + ?k))
         else slice_concat G i t e0 e1 e2) = Inr (ds2, e)"
        using b tso False by (intro sr_Slice_shift [OF assms(1) sh _ b(2,3) _ _ _ assms(2)]) auto
      then obtain ds2 where r:
        "(if h + ?k \<le> 0 then ok (Constant 0 (Type_Bits (nat (h - l + 1)) False) 0 10)
         else if l + ?k < 0 then ok (Binary 0 t Concat (Slice 0 t so (inf_const (h + ?k)) (inf_const 0))
                                      (Constant 0 (Type_Bits (nat (- (l + ?k))) False) 0 10))
         else if h + ?k < int w then slice_concat G 0 t so (inf_const (h + ?k)) (inf_const (l + ?k))
         else slice_concat G i t e0 e1 e2) = Inr (ds2, e)" by blast
      have b0: "ty e0 = Some (Type_Bits w False)" "ty so = Some (Type_Bits w False)" using b(1) so False by simp_all
      note pre = shb b0(1) b(2-7)
      consider "h + ?k < 0" | "0 < h + ?k" "l + ?k < 0" | "0 \<le> l + ?k" "h + ?k < int w" | "0 \<le> l + ?k" "int w \<le> h + ?k"
        using nb by linarith
      then show ?thesis
      proof cases
        case 1
        then show ?thesis using r sim_shift_zero [OF pre] by simp
      next
        case 2
        then show ?thesis using r sim_shift_below [OF pre 2 b0(2) ann(2,1)] by simp
      next
        case 3
        obtain c' where c': "slice_concat G 0 t so (inf_const (h + ?k)) (inf_const (l + ?k)) = ok c'"
            "simulates (Slice 0 t so (inf_const (h + ?k)) (inf_const (l + ?k))) c'"
          using slice_concat_sim [OF assms(1) b0(2) bound_of_inf bound_of_inf 3(1) _ 3(2) b(7) ann(1)] b(5) by fastforce
        have "e = c'" using r 3 nb b(5) c'(1) by (auto split: if_splits)
        then show ?thesis using c'(2) sim_shift_inside [OF pre 3 b0(2) ann(2,1)] simulates_trans by blast
      next
        case 4
        then show ?thesis using r nb b(5) c by (auto split: if_splits)
      qed
    qed
  qed
qed

text \<open>The methods for the binary and the unary operations.\<close>

lemma sr_binary_sim: "sr_binary i t op l r = Inr (ds, e) \<Longrightarrow> simulates (Binary i t op l r) e"
  by (cases op)
    (auto simp: sr_binary_def sr_Shl_def sr_Shr_def sim_BAnd sim_BOr sim_BXor sim_LAnd sim_LOr sim_Add sim_Mul
      intro: sim_Sub sim_Div sim_Mod sim_shift)

lemma sr_unary_sim: "simulates (Unary i t op e) (sr_unary i t op e)"
  by (cases op) (simp_all add: sr_unary_def sim_Cmpl sim_LNot)

section \<open>The pass\<close>

text \<open>
  The input of the pass: type checking has annotated every node. The slices on which the pass
  goes wrong are excluded.
\<close>

fun sr_safe :: "gmp \<Rightarrow> expr \<Rightarrow> bool"
  and sr_safe_list :: "gmp \<Rightarrow> expr list \<Rightarrow> bool"
  and sr_safe_fields :: "gmp \<Rightarrow> (string \<times> expr) list \<Rightarrow> bool" where
  "sr_safe G (Unary i t op e) \<longleftrightarrow> sr_safe G e"
| "sr_safe G (Cast i t e) \<longleftrightarrow> sr_safe G e"
| "sr_safe G (Binary i t op l r) \<longleftrightarrow> sr_safe G l \<and> sr_safe G r"
| "sr_safe G (Slice i t e0 e1 e2) \<longleftrightarrow>
     sr_safe G e0 \<and> (case sr G e0 of Inl _ \<Rightarrow> True | Inr (_, e0') \<Rightarrow> \<not> boundary G e0' e1)"
| "sr_safe G (Mux i t e0 e1 e2) \<longleftrightarrow> sr_safe G e0 \<and> sr_safe G e1 \<and> sr_safe G e2"
| "sr_safe G (Member i t e f) \<longleftrightarrow> sr_safe G e"
| "sr_safe G (ListExpression i t es) \<longleftrightarrow> sr_safe_list G es"
| "sr_safe G (StructInitializer i t fs) \<longleftrightarrow> sr_safe_fields G fs"
| "sr_safe G (MethodCall i t m es) \<longleftrightarrow> sr_safe_list G es"
| "sr_safe G e \<longleftrightarrow> True"
| "sr_safe_list G [] \<longleftrightarrow> True"
| "sr_safe_list G (e # es) \<longleftrightarrow> sr_safe G e \<and> sr_safe_list G es"
| "sr_safe_fields G [] \<longleftrightarrow> True"
| "sr_safe_fields G ((f, e) # fs) \<longleftrightarrow> sr_safe G e \<and> sr_safe_fields G fs"

text \<open>What holds of an expression, and of a list of expressions, and its rewritten form.\<close>

definition refines :: "expr \<Rightarrow> expr \<Rightarrow> bool" where
  "refines e e' \<longleftrightarrow> (\<exists>T. ty e = Some T \<and> ty e' = Some T) \<and> ann e \<and> ann_in e' \<and> ann e' \<and>
     (\<forall>E v. env_ok E \<and> eval E e = Some v \<longrightarrow> eval E e' = Some v)"

definition refines_list :: "expr list \<Rightarrow> expr list \<Rightarrow> bool" where
  "refines_list es es' \<longleftrightarrow> length es' = length es \<and> tys es' \<and> ann_list es' \<and> (\<forall>E vs. env_ok E \<and> evals E es = Some vs \<longrightarrow> evals E es' = Some vs)"

definition refines_fields :: "(string \<times> expr) list \<Rightarrow> (string \<times> expr) list \<Rightarrow> bool" where
  "refines_fields fs fs' \<longleftrightarrow>
     ty_fields fs' \<and> ann_fields fs' \<and> (\<forall>E vs. env_ok E \<and> eval_fields E fs = Some vs \<longrightarrow> eval_fields E fs' = Some vs)"

lemma refines_type_of: "refines e e' \<Longrightarrow> type_of e' = type_of e"
  by (auto simp: refines_def ann_def)

lemma refines_simulates:
  assumes "simulates e1 e'" and "refines e e1"
  shows "refines e e'"
  using assms simulatesD [OF assms(1)] by (auto simp: refines_def)

lemma refines_atom: "ty e = Some T \<Longrightarrow> ann e \<Longrightarrow> ann_in e \<Longrightarrow> refines e e"
  by (simp add: refines_def)

text \<open>Every node form respects refinement of its children.\<close>

lemma refines_Unary:
  assumes "refines e e'" and "ty (Unary i t op e) = Some T" and "ann (Unary i t op e)"
  shows "refines (Unary i t op e) (Unary k t op e')"
  using assms by (auto simp: refines_def ann_def bind_eq_Some_conv)

lemma refines_Cast:
  assumes "refines e e'" and "ty (Cast i t e) = Some T" and "ann (Cast i t e)"
  shows "refines (Cast i t e) (Cast k t e')"
  using assms by (auto simp: refines_def ann_def bind_eq_Some_conv)

lemma refines_Binary:
  assumes "refines l l'" and "refines r r'" and "ty (Binary i t op l r) = Some T" and "ann (Binary i t op l r)"
  shows "refines (Binary i t op l r) (Binary k t op l' r')"
proof -
  have "ty (Binary k t op l' r') = Some T" using assms(1-3) by (auto simp: refines_def)
  moreover have "ann_in (Binary k t op l' r')" using assms(1,2) by (auto simp: refines_def annx_def)
  moreover have "eval E (Binary k t op l' r') = Some v" if "env_ok E" "eval E (Binary i t op l r) = Some v" for E v
    using that assms(1,2) by (intro eval_Binary_mono [OF _ _ that(2)]) (auto simp: refines_def)
  ultimately show ?thesis using assms(3,4) unfolding refines_def ann_def by simp
qed

lemma refines_Slice:
  assumes "refines e0 e0'" and "ty (Slice i t e0 e1 e2) = Some T" and "ann (Slice i t e0 e1 e2)"
  shows "refines (Slice i t e0 e1 e2) (Slice k t e0' e1 e2)"
  using assms by (auto simp: refines_def ann_def annx_def bind_eq_Some_conv)

lemma refines_Mux:
  assumes "refines e0 e0'" and "refines e1 e1'" and "refines e2 e2'"
    and "ty (Mux i t e0 e1 e2) = Some T" and "ann (Mux i t e0 e1 e2)"
  shows "refines (Mux i t e0 e1 e2) (Mux k t e0' e1' e2')"
proof -
  have "ty (Mux k t e0' e1' e2') = Some T" using assms(1-4) by (auto simp: refines_def split: if_splits)
  moreover have "ann_in (Mux k t e0' e1' e2')" using assms(1-3) by (auto simp: refines_def)
  moreover have "eval E (Mux k t e0' e1' e2') = Some v" if "env_ok E" "eval E (Mux i t e0 e1 e2) = Some v" for E v
    using that assms(1-3) unfolding refines_def eval_Mux by blast
  ultimately show ?thesis using assms(4,5) unfolding refines_def ann_def by simp
qed

lemma refines_Member:
  assumes "refines e e'" and "\<not> is_type_name e" and "ty (Member i t e f) = Some T" and "ann (Member i t e f)"
  shows "refines (Member i t e f) (Member k t e' f)"
proof -
  have "\<not> is_type_name e'" using assms(1) by (cases e') (auto simp: refines_def is_type_name_def)
  then show ?thesis
    using assms refines_type_of [OF assms(1)] by (auto simp: refines_def ann_def bind_eq_Some_conv split: if_splits)
qed

lemma refines_List:
  assumes "refines_list es es'" and "ty (ListExpression i t es) = Some T" and "ann (ListExpression i t es)"
  shows "refines (ListExpression i t es) (ListExpression k t es')"
  using assms by (auto simp: refines_def refines_list_def ann_def bind_eq_Some_conv split: if_splits)

lemma refines_Struct:
  assumes "refines_fields fs fs'" and "ty (StructInitializer i t fs) = Some T" and "ann (StructInitializer i t fs)"
  shows "refines (StructInitializer i t fs) (StructInitializer k t fs')"
  using assms by (auto simp: refines_def refines_fields_def ann_def bind_eq_Some_conv split: if_splits)

lemma refines_MethodCall:
  assumes "refines_list es es'" and "ty (MethodCall i t m es) = Some T" and "ann (MethodCall i t m es)"
  shows "refines (MethodCall i t m es) (MethodCall k t m es')"
  using assms by (auto simp: refines_def refines_list_def ann_def bind_eq_Some_conv split: if_splits)

text \<open>Expressions without slices; the other methods of the pass have no condition on their input.\<close>

fun no_slice :: "expr \<Rightarrow> bool"
  and no_slice_list :: "expr list \<Rightarrow> bool"
  and no_slice_fields :: "(string \<times> expr) list \<Rightarrow> bool" where
  "no_slice (Unary i t op e) \<longleftrightarrow> no_slice e"
| "no_slice (Cast i t e) \<longleftrightarrow> no_slice e"
| "no_slice (Binary i t op l r) \<longleftrightarrow> no_slice l \<and> no_slice r"
| "no_slice (Slice i t e0 e1 e2) \<longleftrightarrow> False"
| "no_slice (Mux i t e0 e1 e2) \<longleftrightarrow> no_slice e0 \<and> no_slice e1 \<and> no_slice e2"
| "no_slice (Member i t e f) \<longleftrightarrow> no_slice e"
| "no_slice (ListExpression i t es) \<longleftrightarrow> no_slice_list es"
| "no_slice (StructInitializer i t fs) \<longleftrightarrow> no_slice_fields fs"
| "no_slice (MethodCall i t m es) \<longleftrightarrow> no_slice_list es"
| "no_slice e \<longleftrightarrow> True"
| "no_slice_list [] \<longleftrightarrow> True"
| "no_slice_list (e # es) \<longleftrightarrow> no_slice e \<and> no_slice_list es"
| "no_slice_fields [] \<longleftrightarrow> True"
| "no_slice_fields ((f, e) # fs) \<longleftrightarrow> no_slice e \<and> no_slice_fields fs"

lemma no_slice_safe:
  "no_slice e \<Longrightarrow> sr_safe G e"
  "no_slice_list es \<Longrightarrow> sr_safe_list G es"
  "no_slice_fields fs \<Longrightarrow> sr_safe_fields G fs"
  by (induction e and es and fs rule: no_slice_no_slice_list_no_slice_fields.induct) auto

lemma sr_binary_total:
  assumes "ty (Binary i t op l r) = Some T"
  shows "\<exists>ds e. sr_binary j t op l r = Inr (ds, e)"
proof (cases "op = Sub \<or> op = Mod")
  case False
  then show ?thesis by (cases op) (auto simp: sr_binary_def sr_Div_def ok_def report_def split: option.split)
next
  case True
  then have r: "\<exists>T. ty r = Some T \<and> numeric T"
    using assms by (auto simp: bind_eq_Some_conv binop_ty_def split: if_splits)
  show ?thesis
  proof (cases r)
    case (Constant k ct v b)
    then have ct: "numeric ct" using r by (auto simp: const_val_Some numeric_cases split: if_splits)
    have "\<exists>ds e. bind_res (mk_Constant ct x b' nw) (\<lambda>c. ok (f c)) = Inr (ds, e)" for x b' nw and f :: "expr \<Rightarrow> expr"
      using mk_Constant_numeric [OF ct, of x b' nw] by (auto simp: bind_res_def ok_def)
    then show ?thesis
      using True Constant by (auto simp: sr_binary_def sr_Sub_def sr_Mod_def ok_def [of l] ok_def [of "mk_Unary _ _"]
        ok_def [of "Binary _ _ _ _ _"] report_def split: option.split)
  qed (use True in \<open>auto simp: sr_binary_def sr_Sub_def sr_Mod_def ok_def report_def isPowerOf2_def split: option.split\<close>)
qed

lemma sr_refines:
  assumes "gmp_ok G"
  shows "ty e = Some T \<Longrightarrow> annotated e \<Longrightarrow> sr_safe G e \<Longrightarrow> sr G e = Inr (ds, e') \<Longrightarrow> quiet ds \<or> no_slice e \<Longrightarrow> refines e e'"
    and "tys es \<Longrightarrow> annotated_list es \<Longrightarrow> sr_safe_list G es \<Longrightarrow> sr_list G es = Inr (ds, es') \<Longrightarrow> quiet ds \<or> no_slice_list es \<Longrightarrow>
      refines_list es es'"
    and "ty_fields fs \<Longrightarrow> annotated_fields fs \<Longrightarrow> sr_safe_fields G fs \<Longrightarrow> sr_fields G fs = Inr (ds, fs') \<Longrightarrow> quiet ds \<or> no_slice_fields fs \<Longrightarrow>
      refines_fields fs fs'"
  using assms
proof (induction G e and G es and G fs arbitrary: T ds e' and ds es' and ds fs' rule: sr_sr_list_sr_fields.induct)
  case (1 G i t op e)
  obtain e1 where "sr G e = Inr (ds, e1)" "e' = sr_unary (kept (e1 = e) i) t op e1"
    using "1.prems"(4) by (auto simp: bind_res_Inr)
  moreover obtain S where "ty e = Some S" using "1.prems"(1) by (auto simp: bind_eq_Some_conv)
  ultimately show ?case
    using "1.prems" "1.IH" by (auto intro!: refines_simulates [OF sr_unary_sim] refines_Unary)
next
  case (2 G i t e)
  obtain e1 where "sr G e = Inr (ds, e1)" "e' = Cast (kept (e1 = e) i) t e1"
    using "2.prems"(4) by (auto simp: bind_res_Inr)
  moreover obtain S where "ty e = Some S" using "2.prems"(1) by (auto split: if_splits)
  ultimately show ?case using "2.prems" "2.IH" by (auto intro!: refines_Cast)
next
  case (3 G i t op l r)
  obtain l' r' d1 d2 d3 where s: "sr G l = Inr (d1, l')" "sr G r = Inr (d2, r')" "ds = d1 @ d2 @ d3"
      "sr_binary (kept (l' = l \<and> r' = r) i) t op l' r' = Inr (d3, e')"
    using "3.prems"(4) by (auto simp: bind_res_Inr)
  moreover obtain S S' where "ty l = Some S" "ty r = Some S'" using "3.prems"(1) by (auto simp: bind_eq_Some_conv)
  ultimately have "refines l l'" "refines r r'" using "3.prems" "3.IH"(1) [of S d1 l'] "3.IH"(2) [of S' d2 r'] by auto
  then show ?case using refines_simulates [OF sr_binary_sim [OF s(4)]] refines_Binary "3.prems" by (meson annotated_ann)
next
  case (4 G i t e0 e1 e2)
  obtain w sg h l where b: "ty e0 = Some (Type_Bits w sg)" "bound_of e1 = Some h" "bound_of e2 = Some l"
    using "4.prems"(1) by (auto simp: Slice_ty simp del: ty.simps)
  have "sr G e1 = ok e1" "sr G e2 = ok e2" using b(2,3) by (auto simp: bound_of_Some)
  then obtain e0' d1 d2 where s: "sr G e0 = Inr (d1, e0')" "ds = d1 @ d2"
      "sr_Slice G (kept (e0' = e0 \<and> e1 = e1 \<and> e2 = e2) i) t e0' e1 e2 = Inr (d2, e')"
    using "4.prems"(4) by (auto simp: bind_res_Inr)
  have "refines e0 e0'" using "4.prems" "4.IH"(1) [of "Type_Bits w sg" d1 e0'] b(1) s by auto
  moreover have "\<not> boundary G e0' e1" using "4.prems"(3) s(1) by simp
  then have "simulates (Slice (kept (e0' = e0 \<and> e1 = e1 \<and> e2 = e2) i) t e0' e1 e2) e'"
    using "4.prems"(5,6) s(2) sr_Slice_sim [OF _ s(3)] by simp
  ultimately show ?case using refines_simulates refines_Slice "4.prems"(1,2) by (meson annotated_ann)
next
  case (5 G i t e0 e1 e2)
  obtain e0' e1' e2' d0 d1 d2 where s: "sr G e0 = Inr (d0, e0')" "sr G e1 = Inr (d1, e1')" "sr G e2 = Inr (d2, e2')"
      "ds = d0 @ d1 @ d2" "e' = Mux (kept (e0' = e0 \<and> e1' = e1 \<and> e2' = e2) i) t e0' e1' e2'"
    using "5.prems"(4) by (auto simp: bind_res_Inr)
  moreover have "ty e0 = Some Type_Boolean" "ty e1 = Some T" "ty e2 = Some T"
    using "5.prems"(1) by (auto split: if_splits)
  ultimately have "refines e0 e0'" "refines e1 e1'" "refines e2 e2'"
    using "5.prems" "5.IH"(1) [of _ d0 e0'] "5.IH"(2) [of _ d1 e1'] "5.IH"(3) [of _ d2 e2'] by auto
  then show ?case unfolding s(5) using "5.prems"(1,2) refines_Mux by (meson annotated_ann)
next
  case (6 G i t e f)
  obtain e1 where s: "sr G e = Inr (ds, e1)" "e' = Member (kept (e1 = e) i) t e1 f"
    using "6.prems"(4) by (auto simp: bind_res_Inr)
  show ?case
  proof (cases "is_type_name e")
    case True
    then have "e1 = e" using s(1) by (cases e) (auto simp: is_type_name_def)
    then show ?thesis using True "6.prems"(1,2) s(2) by (auto simp: refines_def)
  next
    case False
    then obtain S where "ty e = Some S" using "6.prems"(1) by (auto split: if_splits)
    then show ?thesis using False "6.prems" "6.IH" s by (auto intro!: refines_Member)
  qed
next
  case (7 G i t es)
  obtain es' where "sr_list G es = Inr (ds, es')" "e' = ListExpression (kept (es' = es) i) t es'"
    using "7.prems"(4) by (auto simp: bind_res_Inr)
  then show ?case using "7.prems" "7.IH" by (auto intro!: refines_List split: if_splits)
next
  case (8 G i t fs)
  obtain fs' where "sr_fields G fs = Inr (ds, fs')" "e' = StructInitializer (kept (fs' = fs) i) t fs'"
    using "8.prems"(4) by (auto simp: bind_res_Inr)
  then show ?case using "8.prems" "8.IH" by (auto intro!: refines_Struct split: if_splits)
next
  case (9 G i t m es)
  obtain es' where "sr_list G es = Inr (ds, es')" "e' = MethodCall (kept (es' = es) i) t m es'"
    using "9.prems"(4) by (auto simp: bind_res_Inr)
  then show ?case using "9.prems" "9.IH" by (auto intro!: refines_MethodCall split: if_splits)
next
  case (12 G e es)
  obtain e1 es1 d1 d2 where "sr G e = Inr (d1, e1)" "sr_list G es = Inr (d2, es1)" "ds = d1 @ d2" "es' = e1 # es1"
    using "12.prems"(4) by (auto simp: bind_res_Inr)
  moreover obtain S where "ty e = Some S" using "12.prems"(1) by auto
  ultimately have "refines e e1" "refines_list es es1" "es' = e1 # es1"
    using "12.prems" "12.IH"(1) [of S d1 e1] "12.IH"(2) [of d2 es1] by auto
  then show ?case by (auto simp: refines_def refines_list_def bind_eq_Some_conv)
next
  case (14 G f e fs)
  obtain e1 fs1 d1 d2 where "sr G e = Inr (d1, e1)" "sr_fields G fs = Inr (d2, fs1)" "ds = d1 @ d2" "fs' = (f, e1) # fs1"
    using "14.prems"(4) by (auto simp: bind_res_Inr)
  moreover obtain S where "ty e = Some S" using "14.prems"(1) by auto
  ultimately have "refines e e1" "refines_fields fs fs1" "fs' = (f, e1) # fs1"
    using "14.prems" "14.IH"(1) [of S d1 e1] "14.IH"(2) [of d2 fs1] by auto
  then show ?case by (auto simp: refines_def refines_fields_def bind_eq_Some_conv)
qed (auto simp: refines_def refines_list_def refines_fields_def)

lemma sr_total:
  assumes "gmp_ok G"
  shows "ty e = Some T \<Longrightarrow> annotated e \<Longrightarrow> no_slice e \<Longrightarrow> \<exists>ds e'. sr G e = Inr (ds, e')"
    and "tys es \<Longrightarrow> annotated_list es \<Longrightarrow> no_slice_list es \<Longrightarrow> \<exists>ds es'. sr_list G es = Inr (ds, es')"
    and "ty_fields fs \<Longrightarrow> annotated_fields fs \<Longrightarrow> no_slice_fields fs \<Longrightarrow> \<exists>ds fs'. sr_fields G fs = Inr (ds, fs')"
  using assms
proof (induction G e and G es and G fs arbitrary: T rule: sr_sr_list_sr_fields.induct)
  case (1 G i t op e)
  then show ?case by (auto simp: bind_eq_Some_conv intro!: bind_res_ok_total)
next
  case (2 G i t e)
  then show ?case by (auto intro!: bind_res_ok_total split: if_splits)
next
  case (3 G i t op l r)
  obtain S S' where t: "ty l = Some S" "ty r = Some S'" using "3.prems"(1) by (auto simp: bind_eq_Some_conv)
  obtain d1 l' d2 r' where s: "sr G l = Inr (d1, l')" "sr G r = Inr (d2, r')"
    using "3.IH"(1) [OF t(1)] "3.IH"(2) [OF t(2)] "3.prems" by auto
  have "refines l l'" "refines r r'"
    using sr_refines(1) "3.prems" s t no_slice_safe(1) by (metis annotated.simps(3) no_slice.simps(3))+
  then have "ty (Binary i t op l' r') = Some T" using "3.prems"(1) by (auto simp: refines_def)
  note total = sr_binary_total [OF this, of "kept (l' = l \<and> r' = r) i"]
  show ?case
    using total by (simp, intro bind_res_total [OF s(1)] bind_res_total [OF s(2)])
next
  case (5 G i t e0 e1 e2)
  obtain d0 e0' d1 e1' d2 e2' where s: "sr G e0 = Inr (d0, e0')" "sr G e1 = Inr (d1, e1')" "sr G e2 = Inr (d2, e2')"
    using "5.IH" "5.prems" by (fastforce split: if_splits)
  show ?case
    by (auto intro!: bind_res_total [OF s(1)] bind_res_total [OF s(2)] bind_res_total [OF s(3)])
next
  case (6 G i t e f)
  then show ?case
  proof (cases "is_type_name e")
    case True
    then show ?thesis by (cases e) (auto simp: is_type_name_def)
  next
    case False
    then show ?thesis using 6 by (auto intro!: bind_res_ok_total split: if_splits)
  qed
next
  case (12 G e es)
  then obtain d e' d1 es' where s: "sr G e = Inr (d, e')" "sr_list G es = Inr (d1, es')" by fastforce
  show ?case by (auto intro!: bind_res_total [OF s(1)] bind_res_total [OF s(2)])
next
  case (14 G f e fs)
  then obtain d e' d1 fs' where s: "sr G e = Inr (d, e')" "sr_fields G fs = Inr (d1, fs')" by fastforce
  show ?case by (auto intro!: bind_res_total [OF s(1)] bind_res_total [OF s(2)])
qed (auto intro!: bind_res_ok_total split: if_splits)

section \<open>Properties\<close>


definition var8 :: "string \<Rightarrow> expr" where
  "var8 x = PathExpression 1 (Type_Bits 8 False) x"





text \<open>
  C18: on a well typed expression without slices the pass never fails: it reports no bug and has no undefined
  behaviour, whatever the operands, and it needs no further condition to keep type and value.
\<close>

theorem strength_reduction_total:
  assumes "gmp_ok G" and "ty e = Some T" and "annotated e" and "no_slice e"
  shows "\<exists>ds e'. sr G e = Inr (ds, e') \<and> ty e' = Some T \<and>
    (\<forall>E v. env_ok E \<longrightarrow> eval E e = Some v \<longrightarrow> eval E e' = Some v)"
proof -
  obtain ds e' where s: "sr G e = Inr (ds, e')" using sr_total(1) assms by blast
  then have "refines e e'" using sr_refines(1) assms no_slice_safe(1) by blast
  then show ?thesis using s assms(2) by (auto simp: refines_def)
qed

definition ex_div :: expr where
  "ex_div = Binary 1 (Type_Bits 8 False) Div (var8 ''x'') (Constant 2 (Type_Bits 8 False) 0 10)"

theorem strength_reduction_total_witness: "\<exists>ds e'. sr gmp64 ex_div = Inr (ds, e') \<and> ty e' = Some (Type_Bits 8 False)"
proof -
  have "ty ex_div = Some (Type_Bits 8 False)" "annotated ex_div" "no_slice ex_div" by code_simp+
  then show ?thesis using strength_reduction_total [OF gmp64_ok] by blast
qed



end
