(* ===== verification/Constant_Folding.thy ===== *)
theory Constant_Folding
  imports P4_Pass
begin

text \<open>
  Constant folding (\<open>frontends/common/constantFolding\<close>): every visitor method of \<open>DoConstantFolding\<close>,
  the resolution of enum members (\<open>frontends/p4/enumInstance\<close>) and the traversal over expressions,
  declarations of constants, select expressions and conditionals.
\<close>

unbundle bit_operations_syntax

section \<open>The state of the pass\<close>

text \<open>
  \<open>typeMap\<close> and \<open>refMap\<close> are pointers that may be null. The type map is indexed by the identity of a
  node, the reference map by the name of a path; \<open>constants\<close> by the declaration.
\<close>

datatype decl_ref = Const_decl string | Other_decl

record cf_state =
  cf_gmp :: gmp
  typeMap :: "(nid \<Rightarrow> ptype option) option"
  refMap :: "(string \<Rightarrow> decl_ref option) option"
  warnings :: bool
  constants :: "string \<Rightarrow> expr option"

definition typesKnown :: "cf_state \<Rightarrow> bool" where
  "typesKnown C \<longleftrightarrow> typeMap C \<noteq> None"

definition getType :: "cf_state \<Rightarrow> nid \<Rightarrow> ptype option" where
  "getType C i = (case typeMap C of None \<Rightarrow> None | Some m \<Rightarrow> m i)"

text \<open>\<open>getType\<close> with \<open>notNull\<close>.\<close>

definition getType_nonnull :: "cf_state \<Rightarrow> nid \<Rightarrow> ptype res" where
  "getType_nonnull C i = (case getType C i of None \<Rightarrow> Inl BugCheck | Some t \<Rightarrow> ok t)"

section \<open>Casts of node pointers\<close>

text \<open>\<open>e->to<T>()\<close>: the node when it is of class \<open>T\<close>, null otherwise.\<close>

definition to_Constant :: "expr \<Rightarrow> (ptype \<times> int \<times> nat) option" where
  "to_Constant e = (case e of Constant i t v b \<Rightarrow> Some (t, v, b) | _ \<Rightarrow> None)"

definition to_BoolLiteral :: "expr \<Rightarrow> bool option" where
  "to_BoolLiteral e = (case e of BoolLiteral i b \<Rightarrow> Some b | _ \<Rightarrow> None)"

definition to_List :: "expr \<Rightarrow> expr list option" where
  "to_List e = (case e of ListExpression i t es \<Rightarrow> Some es | _ \<Rightarrow> None)"

definition to_Struct :: "expr \<Rightarrow> (string \<times> expr) list option" where
  "to_Struct e = (case e of StructInitializer i t fs \<Rightarrow> Some fs | _ \<Rightarrow> None)"

definition to_Bits :: "ptype \<Rightarrow> (nat \<times> bool) option" where
  "to_Bits t = (case t of Type_Bits w s \<Rightarrow> Some (w, s) | _ \<Rightarrow> None)"

lemma to_Some [simp]:
  "to_Constant e = Some (t, v, b) \<longleftrightarrow> (\<exists>i. e = Constant i t v b)"
  "to_BoolLiteral e = Some x \<longleftrightarrow> (\<exists>i. e = BoolLiteral i x)"
  "to_List e = Some es \<longleftrightarrow> (\<exists>i t. e = ListExpression i t es)"
  "to_Struct e = Some fs \<longleftrightarrow> (\<exists>i t. e = StructInitializer i t fs)"
  "to_Bits t = Some (w, s) \<longleftrightarrow> t = Type_Bits w s"
  by (cases e; simp add: to_Constant_def to_BoolLiteral_def to_List_def to_Struct_def)+
     (cases t; simp add: to_Bits_def)

lemma to_atom [simp]:
  "to_Constant (Constant i t v b) = Some (t, v, b)" "to_BoolLiteral (BoolLiteral i x) = Some x"
  "to_List (ListExpression i t es) = Some es" "to_Struct (StructInitializer i t fs) = Some fs"
  "to_Bits (Type_Bits w s) = Some (w, s)" "to_Bits Type_InfInt = None" "to_Bits Type_Boolean = None"
  "to_BoolLiteral (Constant i t v b) = None" "to_Constant (BoolLiteral i x) = None" "to_Constant (Cast i t e) = None"
  "to_BoolLiteral (Cast i t e) = None"
  by (simp_all add: to_Constant_def to_BoolLiteral_def to_List_def to_Struct_def to_Bits_def)

section \<open>Constants\<close>

text \<open>\<open>CloneConstants\<close>: every constant gets a new node.\<close>

fun clone_constants :: "expr \<Rightarrow> expr res"
  and clone_list :: "expr list \<Rightarrow> expr list res"
  and clone_fields :: "(string \<times> expr) list \<Rightarrow> (string \<times> expr) list res" where
  "clone_constants (Constant i t v b) =
     (if to_Bits t \<noteq> None \<or> t = Type_InfInt then mk_Constant t v b False else Inl BugCheck)"
| "clone_constants (Unary i t op e) = bind_res (clone_constants e) (\<lambda>e'. ok (Unary (kept (e' = e) i) t op e'))"
| "clone_constants (Cast i t e) = bind_res (clone_constants e) (\<lambda>e'. ok (Cast (kept (e' = e) i) t e'))"
| "clone_constants (Binary i t op l r) =
     bind_res (clone_constants l) (\<lambda>l'. bind_res (clone_constants r) (\<lambda>r'.
       ok (Binary (kept (l' = l \<and> r' = r) i) t op l' r')))"
| "clone_constants (Slice i t e0 e1 e2) =
     bind_res (clone_constants e0) (\<lambda>e0'. bind_res (clone_constants e1) (\<lambda>e1'. bind_res (clone_constants e2) (\<lambda>e2'.
       ok (Slice (kept (e0' = e0 \<and> e1' = e1 \<and> e2' = e2) i) t e0' e1' e2'))))"
| "clone_constants (Mux i t e0 e1 e2) =
     bind_res (clone_constants e0) (\<lambda>e0'. bind_res (clone_constants e1) (\<lambda>e1'. bind_res (clone_constants e2) (\<lambda>e2'.
       ok (Mux (kept (e0' = e0 \<and> e1' = e1 \<and> e2' = e2) i) t e0' e1' e2'))))"
| "clone_constants (Member i t e f) = bind_res (clone_constants e) (\<lambda>e'. ok (Member (kept (e' = e) i) t e' f))"
| "clone_constants (ListExpression i t es) =
     bind_res (clone_list es) (\<lambda>es'. ok (ListExpression (kept (es' = es) i) t es'))"
| "clone_constants (StructInitializer i t fs) =
     bind_res (clone_fields fs) (\<lambda>fs'. ok (StructInitializer (kept (fs' = fs) i) t fs'))"
| "clone_constants (MethodCall i t m es) =
     bind_res (clone_list es) (\<lambda>es'. ok (MethodCall (kept (es' = es) i) t m es'))"
| "clone_constants e = ok e"
| "clone_list [] = ok []"
| "clone_list (e # es) = bind_res (clone_constants e) (\<lambda>e'. bind_res (clone_list es) (\<lambda>es'. ok (e' # es')))"
| "clone_fields [] = ok []"
| "clone_fields ((f, e) # fs) =
     bind_res (clone_constants e) (\<lambda>e'. bind_res (clone_fields fs) (\<lambda>fs'. ok ((f, e') # fs')))"

text \<open>\<open>EnumInstance::resolve\<close>: the type and the name of the member.\<close>

definition enum_resolve :: "cf_state \<Rightarrow> expr \<Rightarrow> (ptype \<times> string) option res" where
  "enum_resolve C e =
     (case e of
        Member i t (TypeNameExpression j u x) f \<Rightarrow>
          bind_res (getType_nonnull C i) (\<lambda>et.
            case et of
              Type_Enum n ms \<Rightarrow> ok (Some (et, f))
            | Type_SerEnum n ut ms \<Rightarrow> if f \<in> set ms then ok (Some (et, f)) else Inl BugCheck
            | _ \<Rightarrow> ok None)
      | _ \<Rightarrow> ok None)"

fun getConstant :: "cf_state \<Rightarrow> expr \<Rightarrow> expr option res"
  and all_constant :: "cf_state \<Rightarrow> expr list \<Rightarrow> bool res"
  and all_constant_fields :: "cf_state \<Rightarrow> (string \<times> expr) list \<Rightarrow> bool res" where
  "getConstant C (Constant i t v b) = ok (Some (Constant i t v b))"
| "getConstant C (BoolLiteral i b) = ok (Some (BoolLiteral i b))"
| "getConstant C (ListExpression i t es) =
     bind_res (all_constant C es) (\<lambda>a. ok (if a then Some (ListExpression i t es) else None))"
| "getConstant C (StructInitializer i t fs) =
     bind_res (all_constant_fields C fs) (\<lambda>a. ok (if a then Some (StructInitializer i t fs) else None))"
| "getConstant C (Cast i t e) =
     bind_res (getConstant C e) (\<lambda>c.
       case c of None \<Rightarrow> ok None | Some c' \<Rightarrow> bind_res (clone_constants (Cast i t e)) (\<lambda>e'. ok (Some e')))"
| "getConstant C e =
     (if typesKnown C then bind_res (enum_resolve C e) (\<lambda>r. ok (if r = None then None else Some e)) else ok None)"
| "all_constant C [] = ok True"
| "all_constant C (e # es) =
     bind_res (getConstant C e) (\<lambda>c. if c = None then ok False else all_constant C es)"
| "all_constant_fields C [] = ok True"
| "all_constant_fields C ((f, e) # fs) =
     bind_res (getConstant C e) (\<lambda>c. if c = None then ok False else all_constant_fields C fs)"

section \<open>Visitor methods\<close>

definition cf_PathExpression :: "cf_state \<Rightarrow> nid \<Rightarrow> ptype \<Rightarrow> string \<Rightarrow> expr res" where
  "cf_PathExpression C i t x =
     (case refMap C of
        None \<Rightarrow> ok (PathExpression i t x)
      | Some m \<Rightarrow>
          (case m x of
             Some (Const_decl d) \<Rightarrow>
               (case constants C d of
                  None \<Rightarrow> ok (PathExpression i t x)
                | Some cst \<Rightarrow>
                    if to_List cst \<noteq> None \<and> \<not> typesKnown C then ok (PathExpression i t x)
                    else clone_constants cst)
           | _ \<Rightarrow> ok (PathExpression i t x)))"

text \<open>The unary operations; the operation is kept when the operand is no constant.\<close>

definition cf_Cmpl :: "cf_state \<Rightarrow> nid \<Rightarrow> ptype \<Rightarrow> expr \<Rightarrow> expr res" where
  "cf_Cmpl C i t e =
     bind_res (getConstant C e) (\<lambda>op.
       case op of
         None \<Rightarrow> ok (Unary i t Cmpl e)
       | Some c \<Rightarrow>
           (case to_Constant c of
              None \<Rightarrow> report (Err ''expected an integer value'') (Unary i t Cmpl e)
            | Some (ct, v, b) \<Rightarrow>
                if ct = Type_InfInt then
                  report (Err ''Operation cannot be applied to values with unknown width'') (Unary i t Cmpl e)
                else if to_Bits ct = None then
                  if typesKnown C then report (Err ''Operation can only be applied to int or bit types'') (Unary i t Cmpl e)
                  else ok (Unary i t Cmpl e)
                else mk_Constant ct (NOT v) b True))"

definition cf_Neg :: "cf_state \<Rightarrow> nid \<Rightarrow> ptype \<Rightarrow> expr \<Rightarrow> expr res" where
  "cf_Neg C i t e =
     bind_res (getConstant C e) (\<lambda>op.
       case op of
         None \<Rightarrow> ok (Unary i t Neg e)
       | Some c \<Rightarrow>
           (case to_Constant c of
              None \<Rightarrow> report (Err ''expected an integer value'') (Unary i t Neg e)
            | Some (ct, v, b) \<Rightarrow>
                if ct = Type_InfInt then mk_Constant ct (- v) b False
                else if to_Bits ct = None then
                  if typesKnown C then report (Err ''Operation can only be applied to int or bit types'') (Unary i t Neg e)
                  else ok (Unary i t Neg e)
                else mk_Constant ct (- v) b True))"

definition cf_LNot :: "cf_state \<Rightarrow> nid \<Rightarrow> ptype \<Rightarrow> expr \<Rightarrow> expr res" where
  "cf_LNot C i t e =
     bind_res (getConstant C e) (\<lambda>op.
       case op of
         None \<Rightarrow> ok (Unary i t LNot e)
       | Some c \<Rightarrow>
           (case to_BoolLiteral c of
              None \<Rightarrow> report (Err ''Expected a boolean value'') (Unary i t LNot e)
            | Some b \<Rightarrow> ok (BoolLiteral 0 (\<not> b))))"

text \<open>The functions that the binary operations pass to \<open>binary\<close>.\<close>

definition cf_func :: "binop \<Rightarrow> int \<Rightarrow> int \<Rightarrow> diag list \<times> int" where
  "cf_func op a b =
     (case op of
        Add \<Rightarrow> ([], a + b) | AddSat \<Rightarrow> ([], a + b) | Sub \<Rightarrow> ([], a - b) | SubSat \<Rightarrow> ([], a - b)
      | Mul \<Rightarrow> ([], a * b) | BXor \<Rightarrow> ([], a XOR b) | BAnd \<Rightarrow> ([], a AND b) | BOr \<Rightarrow> ([], a OR b)
      | Lss \<Rightarrow> ([], of_bool (a < b)) | Grt \<Rightarrow> ([], of_bool (a > b))
      | Leq \<Rightarrow> ([], of_bool (a \<le> b)) | Geq \<Rightarrow> ([], of_bool (a \<ge> b))
      | Equ \<Rightarrow> ([], of_bool (a = b)) | Neq \<Rightarrow> ([], of_bool (a \<noteq> b))
      | Div \<Rightarrow> if a < 0 \<or> b < 0 then ([Err ''Division is not defined for negative numbers''], 0)
                else if b = 0 then ([Err ''Division by zero''], 0) else ([], a div b)
      | Mod \<Rightarrow> if a < 0 \<or> b < 0 then ([Err ''Modulo is not defined for negative numbers''], 0)
                else if b = 0 then ([Err ''Modulo by zero''], 0) else ([], a mod b)
      | _ \<Rightarrow> ([], 0))"

definition saturating :: "binop \<Rightarrow> bool" where
  "saturating op \<longleftrightarrow> op = AddSat \<or> op = SubSat"

text \<open>The end of \<open>binary\<close>: the value is clamped for a saturating operation and becomes a new node.\<close>

definition cf_saturate :: "ptype \<Rightarrow> int \<Rightarrow> int res" where
  "cf_saturate t v =
     (case to_Bits t of
        None \<Rightarrow> report (Err ''saturating operation on untyped values'') v
      | Some (w, s) \<Rightarrow>
          if s \<and> w = 0 then Inl UndefinedBehaviour
          else
            let limit = (2 :: int) ^ (if s then w - 1 else w);
                lower = (if s then - limit else 0);
                v' = (if v < lower then lower else v) in
            ok (if v' \<ge> limit then limit - 1 else v'))"

definition cf_result :: "binop \<Rightarrow> ptype \<Rightarrow> int \<Rightarrow> nat \<Rightarrow> expr res" where
  "cf_result op t v b =
     bind_res (if saturating op then cf_saturate t v else ok v) (\<lambda>v'.
       if is_relation op then ok (BoolLiteral 0 (v' \<noteq> 0)) else mk_Constant t v' b True)"

definition cf_binary :: "cf_state \<Rightarrow> nid \<Rightarrow> ptype \<Rightarrow> binop \<Rightarrow> expr \<Rightarrow> expr \<Rightarrow> expr res" where
  "cf_binary C i t op l r =
     bind_res (getConstant C l) (\<lambda>cl. bind_res (getConstant C r) (\<lambda>cr.
       case (cl, cr) of
         (Some el, Some er) \<Rightarrow>
           (case (to_Constant el, to_Constant er) of
              (Some (lt, lv, lb), Some (rt, rv, rb)) \<Rightarrow>
                (case cf_func op lv rv of (ds, v) \<Rightarrow>
                  bind_res (Inr (ds, ())) (\<lambda>_.
                    if lt \<noteq> Type_InfInt \<and> to_Bits lt = None \<or> rt \<noteq> Type_InfInt \<and> to_Bits rt = None then
                      if typesKnown C then report (Err ''Operation can only be applied to int or bit types'') (Binary i t op l r)
                      else ok (Binary i t op l r)
                    else if lt \<noteq> Type_InfInt \<and> rt \<noteq> Type_InfInt then
                      if lt = rt then cf_result op rt v lb
                      else report (Err ''operands have different types'') (Binary i t op l r)
                    else if lt = Type_InfInt \<and> rt = Type_InfInt then cf_result op lt v lb
                    else if lt = Type_InfInt then bind_res (mk_Constant rt lv lb False) (\<lambda>_. cf_result op rt v lb)
                    else bind_res (mk_Constant lt rv lb False) (\<lambda>_. cf_result op lt v lb)))
            | _ \<Rightarrow> report (Err ''Expected a bit or int value'') (Binary i t op l r))
       | _ \<Rightarrow> ok (Binary i t op l r)))"

text \<open>
  \<open>compare\<close>. The recursion is on the components of two lists; \<open>compare_lists\<close> returns the Boolean the loop
  ends with, or nothing when a pair of components could not be compared.
\<close>

definition compare_step :: "cf_state \<Rightarrow> nid \<Rightarrow> ptype \<Rightarrow> binop \<Rightarrow> expr \<Rightarrow> expr \<Rightarrow> bool option res option \<Rightarrow> expr res" where
  "compare_step C i t op l r cmps =
     bind_res (getConstant C l) (\<lambda>cl. bind_res (getConstant C r) (\<lambda>cr.
       case (cl, cr) of
         (Some el, Some er) \<Rightarrow>
           (case to_BoolLiteral el of
              Some a \<Rightarrow>
                (case to_BoolLiteral er of
                   Some b \<Rightarrow> ok (BoolLiteral 0 ((a = b) = (op = Equ)))
                 | None \<Rightarrow> report (Err ''both operands must be Boolean'') (Binary i t op l r))
            | None \<Rightarrow>
                if typesKnown C then
                  bind_res (enum_resolve C el) (\<lambda>le. bind_res (enum_resolve C er) (\<lambda>re.
                    case (le, re) of
                      (Some (lt, ln), Some (rt, rn)) \<Rightarrow>
                        if lt = rt then ok (BoolLiteral 0 ((ln = rn) = (op = Equ))) else Inl BugCheck
                    | _ \<Rightarrow>
                        (case cmps of
                           Some m \<Rightarrow>
                             bind_res m (\<lambda>b. ok (case b of None \<Rightarrow> Binary i t op l r | Some v \<Rightarrow> BoolLiteral 0 v))
                         | None \<Rightarrow> cf_binary C i t op l r)))
                else cf_binary C i t op l r)
       | _ \<Rightarrow> ok (Binary i t op l r)))"

text \<open>The components of the lists that are compared.\<close>

definition list_pair :: "expr \<Rightarrow> expr \<Rightarrow> (expr list \<times> expr list) option" where
  "list_pair l r = (case (to_List l, to_List r) of (Some ls, Some rs) \<Rightarrow> Some (ls, rs) | _ \<Rightarrow> None)"

lemma list_pair_Some [simp]:
  "list_pair l r = Some (ls, rs) \<longleftrightarrow> (\<exists>i t j u. l = ListExpression i t ls \<and> r = ListExpression j u rs)"
  by (auto simp: list_pair_def split: option.splits)

function compare :: "cf_state \<Rightarrow> nid \<Rightarrow> ptype \<Rightarrow> binop \<Rightarrow> expr \<Rightarrow> expr \<Rightarrow> expr res"
  and compare_lists :: "cf_state \<Rightarrow> binop \<Rightarrow> expr list \<Rightarrow> expr list \<Rightarrow> bool option res" where
  "compare C i t op l r =
     compare_step C i t op l r
       (case list_pair l r of
          None \<Rightarrow> None
        | Some (ls, rs) \<Rightarrow>
            Some (if length ls \<noteq> length rs then report (Err ''comparing lists of different size'') None
                  else compare_lists C op ls rs))"
| "compare_lists C op (l # ls) (r # rs) =
     bind_res (compare C 0 Type_Boolean op l r) (\<lambda>cmp.
       case to_BoolLiteral cmp of
         None \<Rightarrow> ok None
       | Some b \<Rightarrow> if b \<noteq> (op = Equ) then ok (Some b) else compare_lists C op ls rs)"
| "compare_lists C op [] rs = ok (Some (op = Equ))"
| "compare_lists C op (l # ls) [] = ok (Some (op = Equ))"
  by pat_completeness auto
termination
  by (relation "measure (\<lambda>x. case x of Inl (C, i, t, op, l, r) \<Rightarrow> 2 * size l | Inr (C, op, ls, rs) \<Rightarrow> 2 * size_list size ls + 1)")
     auto

declare compare.simps [simp del]

text \<open>
  \<open>==\<close>: a Boolean literal on one side is removed. The type of the left operand is looked up without a
  null check, so an operand that the pass itself created is dereferenced as a null type.
\<close>

definition cf_Equ :: "cf_state \<Rightarrow> nid \<Rightarrow> ptype \<Rightarrow> expr \<Rightarrow> expr \<Rightarrow> expr res" where
  "cf_Equ C i t l r =
     (if typesKnown C then
        (case getType C (nid_of l) of
           None \<Rightarrow> Inl UndefinedBehaviour
         | Some ltype \<Rightarrow>
             if ltype = Type_Boolean then
               bind_res (getConstant C l) (\<lambda>cl. bind_res (getConstant C r) (\<lambda>cr.
                 case cl of
                   None \<Rightarrow>
                     (case cr of
                        None \<Rightarrow> ok (Binary i t Equ l r)
                      | Some c \<Rightarrow>
                          (case to_BoolLiteral c of
                             None \<Rightarrow> compare C i t Equ l r
                           | Some b \<Rightarrow> ok (if b then l else mk_Unary LNot l)))
                 | Some c \<Rightarrow>
                     (case cr of
                        Some _ \<Rightarrow> compare C i t Equ l r
                      | None \<Rightarrow>
                          (case to_BoolLiteral c of
                             None \<Rightarrow> compare C i t Equ l r
                           | Some b \<Rightarrow> ok (if b then r else mk_Unary LNot r)))))
             else compare C i t Equ l r)
      else compare C i t Equ l r)"

text \<open>
  The Boolean operations. A constant on either side decides; the other operand is the result when the
  constant is neutral.
\<close>

definition const_side :: "expr option \<Rightarrow> expr option \<Rightarrow> expr \<Rightarrow> expr \<Rightarrow> (expr \<times> expr) option" where
  "const_side cl cr l r = (case cl of Some c \<Rightarrow> Some (c, r) | None \<Rightarrow> map_option (\<lambda>c. (c, l)) cr)"

definition cf_LAnd :: "cf_state \<Rightarrow> nid \<Rightarrow> ptype \<Rightarrow> expr \<Rightarrow> expr \<Rightarrow> expr res" where
  "cf_LAnd C i t l r =
     bind_res (getConstant C l) (\<lambda>cl. bind_res (getConstant C r) (\<lambda>cr.
       case const_side cl cr l r of
         None \<Rightarrow> ok (Binary i t LAnd l r)
       | Some (left, righte) \<Rightarrow>
           (case to_BoolLiteral left of
              None \<Rightarrow> report (Err ''Expected a boolean value'') (Binary i t LAnd l r)
            | Some b \<Rightarrow> ok (if b then righte else BoolLiteral 0 False))))"

definition cf_LOr :: "cf_state \<Rightarrow> nid \<Rightarrow> ptype \<Rightarrow> expr \<Rightarrow> expr \<Rightarrow> expr res" where
  "cf_LOr C i t l r =
     bind_res (getConstant C l) (\<lambda>cl. bind_res (getConstant C r) (\<lambda>cr.
       case const_side cl cr l r of
         None \<Rightarrow> ok (Binary i t LOr l r)
       | Some (left, righte) \<Rightarrow>
           (case to_BoolLiteral left of
              None \<Rightarrow> report (Err ''Expected a boolean value'') (Binary i t LOr l r)
            | Some b \<Rightarrow> ok (if \<not> b then righte else BoolLiteral 0 True))))"

definition MaximumWidthSupported :: int where
  "MaximumWidthSupported = 2048"

text \<open>A negative amount is converted to one beyond the size of any number.\<close>

definition slice_shr :: "int \<Rightarrow> int \<Rightarrow> int" where
  "slice_shr v l = (if l < 0 then (if v < 0 then -1 else 0) else shift_right v (nat l))"

text \<open>The type of a slice is that of the original node, whose identity is \<open>orig\<close>.\<close>

definition cf_Slice :: "cf_state \<Rightarrow> nid \<Rightarrow> nid \<Rightarrow> ptype \<Rightarrow> expr \<Rightarrow> expr \<Rightarrow> expr \<Rightarrow> expr res" where
  "cf_Slice C orig i t e0 e1 e2 =
     bind_res (getConstant C e1) (\<lambda>msb. bind_res (getConstant C e2) (\<lambda>lsb.
       if msb = None \<or> lsb = None then report (Err ''bit indexes must be compile-time constants'') (Slice i t e0 e1 e2)
       else if \<not> typesKnown C then ok (Slice i t e0 e1 e2)
       else bind_res (getConstant C e0) (\<lambda>c0.
         case c0 of
           None \<Rightarrow> ok (Slice i t e0 e1 e2)
         | Some c \<Rightarrow>
             (case (to_Constant (the msb), to_Constant (the lsb), to_Constant c) of
                (Some (mt, mv, mb), Some (lt, lv, lb), Some (ct, cv, cb)) \<Rightarrow>
                  bind_res (Inr (asInt (cf_gmp C) mv)) (\<lambda>m. bind_res (Inr (asInt (cf_gmp C) lv)) (\<lambda>l.
                    if m < l then report (Err ''bit slicing should be specified as [msb:lsb]'') (Slice i t e0 e1 e2)
                    else if m > MaximumWidthSupported \<or> l > MaximumWidthSupported then
                      report (Err ''Compiler only supports widths up to 2048'') (Slice i t e0 e1 e2)
                    else if \<not> fitsInt (m - l + 1) then Inl UndefinedBehaviour
                    else
                      bind_res (getType_nonnull C orig) (\<lambda>rt.
                        if to_Bits rt = None then Inl BugCheck
                        else mk_Constant rt (slice_shr cv l AND (shift_left 1 (nat (m - l + 1)) - 1)) cb True)))
              | _ \<Rightarrow> report (Err ''expected an integer value'') (Slice i t e0 e1 e2)))))"

text \<open>The position of a field.\<close>

fun field_index :: "string \<Rightarrow> (string \<times> 'a) list \<Rightarrow> nat option" where
  "field_index m [] = None"
| "field_index m ((f, x) # fs) = (if f = m then Some 0 else map_option Suc (field_index m fs))"

text \<open>Members: \<open>orig\<close> and \<open>orig_expr\<close> are the identities of the original node and of its operand.\<close>

definition is_stack_size :: "ptype \<Rightarrow> string \<Rightarrow> nat option" where
  "is_stack_size t f = (case t of Type_Stack elt n \<Rightarrow> if f = ''size'' then Some n else None | _ \<Rightarrow> None)"

definition is_header :: "ptype \<Rightarrow> bool" where
  "is_header t = (case t of Type_Header n fs \<Rightarrow> True | _ \<Rightarrow> False)"

definition cf_Member :: "cf_state \<Rightarrow> nid \<Rightarrow> nid \<Rightarrow> nid \<Rightarrow> ptype \<Rightarrow> expr \<Rightarrow> string \<Rightarrow> expr res" where
  "cf_Member C orig orig_expr i t e f =
     (if \<not> typesKnown C then ok (Member i t e f)
      else
        bind_res (getType_nonnull C orig_expr) (\<lambda>et.
          case is_stack_size et f of
            Some n \<Rightarrow> (case getType C orig of None \<Rightarrow> Inl BugCheck | Some ot \<Rightarrow> mk_Constant ot (int n) 10 False)
          | None \<Rightarrow>
              bind_res (getConstant C e) (\<lambda>c.
                case c of
                  None \<Rightarrow> ok (Member i t e f)
                | Some c' \<Rightarrow>
                    (case struct_fields et of
                       None \<Rightarrow> Inl BugCheck
                     | Some fs \<Rightarrow>
                         (case to_List c' of
                            Some es \<Rightarrow>
                              (case field_index f fs of
                                 None \<Rightarrow> Inl BugCheck
                               | Some k \<Rightarrow> if k < length es then clone_constants (es ! k) else Inl OutOfRange)
                          | None \<Rightarrow>
                              (case to_Struct c' of
                                 None \<Rightarrow> Inl BugCheck
                               | Some ifs \<Rightarrow>
                                   (case getType C orig of
                                      None \<Rightarrow> Inl UndefinedBehaviour
                                    | Some ot \<Rightarrow>
                                        if is_header ot \<and> f = ''isValid'' then ok (Member i t e f)
                                        else
                                          (case map_of ifs f of
                                             None \<Rightarrow> Inl BugCheck | Some x \<Rightarrow> clone_constants x)))))))) "

definition cf_Concat :: "cf_state \<Rightarrow> nid \<Rightarrow> ptype \<Rightarrow> expr \<Rightarrow> expr \<Rightarrow> expr res" where
  "cf_Concat C i t l r =
     bind_res (getConstant C l) (\<lambda>cl. bind_res (getConstant C r) (\<lambda>cr.
       case (cl, cr) of
         (Some el, Some er) \<Rightarrow>
           (case (to_Constant el, to_Constant er) of
              (Some (lt, lv, lb), Some (rt, rv, rb)) \<Rightarrow>
                (case (to_Bits lt, to_Bits rt) of
                   (Some (lw, ls), Some (rw, rs)) \<Rightarrow> mk_Constant (Type_Bits (lw + rw) ls) (shift_left lv rw + rv) lb False
                 | _ \<Rightarrow> report (Err ''both operand widths must be known'') (Binary i t Concat l r))
            | _ \<Rightarrow> report (Err ''Expected a bit or int value'') (Binary i t Concat l r))
       | _ \<Rightarrow> ok (Binary i t Concat l r)))"

text \<open>A constant condition that is no Boolean is reported and then dereferenced as a null pointer.\<close>

definition cf_Mux :: "cf_state \<Rightarrow> nid \<Rightarrow> ptype \<Rightarrow> expr \<Rightarrow> expr \<Rightarrow> expr \<Rightarrow> expr res" where
  "cf_Mux C i t e0 e1 e2 =
     bind_res (getConstant C e0) (\<lambda>cond.
       case cond of
         None \<Rightarrow> ok (Mux i t e0 e1 e2)
       | Some c \<Rightarrow>
           (case to_BoolLiteral c of
              None \<Rightarrow> Inl UndefinedBehaviour
            | Some b \<Rightarrow> ok (if b then e1 else e2)))"

definition cf_shift :: "cf_state \<Rightarrow> nid \<Rightarrow> ptype \<Rightarrow> binop \<Rightarrow> expr \<Rightarrow> expr \<Rightarrow> expr res" where
  "cf_shift C i t op l r =
     bind_res (getConstant C r) (\<lambda>right.
       case right of
         None \<Rightarrow> ok (Binary i t op l r)
       | Some rc \<Rightarrow>
           (case to_Constant rc of
              None \<Rightarrow> report (Err ''expected an integer value'') (Binary i t op l r)
            | Some (rt, rv, rb) \<Rightarrow>
                if rv < 0 then report (Err ''Shifts with negative amounts are not permitted'') (Binary i t op l r)
                else if rv = 0 then ok l
                else
                  bind_res (getConstant C l) (\<lambda>left.
                    case left of
                      None \<Rightarrow> ok (Binary i t op l r)
                    | Some lc \<Rightarrow>
                        (case to_Constant lc of
                           None \<Rightarrow> report (Err ''expected an integer value'') (Binary i t op l r)
                         | Some (lt, lv, lb) \<Rightarrow>
                             bind_res (Inr (asInt (cf_gmp C) rv)) (\<lambda>k.
                               let shift = nat (take_bit 32 k) in
                               bind_res (Inr (if to_Bits lt \<noteq> None \<and> width_bits lt < shift \<and> warnings C
                                              then [Warn ''Shifting by more than the width''] else [], ()))
                                 (\<lambda>_. mk_Constant lt (if op = Shl then shift_left lv shift else shift_right lv shift) lb False))))))"

text \<open>Casts: \<open>orig\<close> is the identity of the original node, \<open>t\<close> the destination type.\<close>

definition cast_bool :: "cf_state \<Rightarrow> nid \<Rightarrow> ptype \<Rightarrow> expr \<Rightarrow> ptype \<Rightarrow> int \<Rightarrow> expr res" where
  "cast_bool C i t e ct v =
     (case to_Bits ct of
        Some (w, s) \<Rightarrow>
          if s then report (Err ''Cannot cast signed value to boolean'') (Cast i t e)
          else if w \<noteq> 1 then report (Err ''Only bit<1> values can be cast to bool'') (Cast i t e)
          else bind_res (Inr (asInt (cf_gmp C) v)) (\<lambda>k.
            if k < 0 \<or> k > 1 then report (Err ''Only 0 and 1 can be cast to booleans'') (Cast i t e)
            else ok (BoolLiteral 0 (k = 1)))
      | None \<Rightarrow>
          if ct \<noteq> Type_InfInt then Inl BugCheck
          else bind_res (Inr (asInt (cf_gmp C) v)) (\<lambda>k.
            if k < 0 \<or> k > 1 then report (Err ''Only 0 and 1 can be cast to booleans'') (Cast i t e)
            else ok (BoolLiteral 0 (k = 1))))"

definition cf_Cast :: "cf_state \<Rightarrow> nid \<Rightarrow> nid \<Rightarrow> ptype \<Rightarrow> expr \<Rightarrow> expr res" where
  "cf_Cast C orig i t e =
     bind_res (getConstant C e) (\<lambda>c.
       case c of
         None \<Rightarrow> ok (Cast i t e)
       | Some x \<Rightarrow>
           bind_res (if typesKnown C then getType_nonnull C orig else ok t) (\<lambda>et.
             if to_Bits et \<noteq> None then
               (case to_Constant x of
                  Some (ct, v, b) \<Rightarrow> mk_Constant et v b False
                | None \<Rightarrow>
                    (case to_BoolLiteral x of
                       Some b \<Rightarrow> mk_Constant et (of_bool b) 10 False
                     | None \<Rightarrow> ok (Cast i t e)))
             else if et = Type_Boolean then
               (case to_BoolLiteral x of
                  Some b \<Rightarrow> ok x
                | None \<Rightarrow>
                    (case to_Constant x of
                       Some (ct, v, b) \<Rightarrow> cast_bool C i t e ct v
                     | None \<Rightarrow> ok (Cast i t e)))
             else if struct_fields et \<noteq> None then clone_constants x
             else ok (Cast i t e)))"

section \<open>The traversal\<close>

definition cf_unary :: "cf_state \<Rightarrow> nid \<Rightarrow> ptype \<Rightarrow> unop \<Rightarrow> expr \<Rightarrow> expr res" where
  "cf_unary C i t op e =
     (case op of Cmpl \<Rightarrow> cf_Cmpl C i t e | Neg \<Rightarrow> cf_Neg C i t e | LNot \<Rightarrow> cf_LNot C i t e)"

definition cf_binop :: "cf_state \<Rightarrow> nid \<Rightarrow> ptype \<Rightarrow> binop \<Rightarrow> expr \<Rightarrow> expr \<Rightarrow> expr res" where
  "cf_binop C i t op l r =
     (case op of
        LAnd \<Rightarrow> cf_LAnd C i t l r | LOr \<Rightarrow> cf_LOr C i t l r
      | Equ \<Rightarrow> cf_Equ C i t l r | Neq \<Rightarrow> compare C i t Neq l r
      | Shl \<Rightarrow> cf_shift C i t Shl l r | Shr \<Rightarrow> cf_shift C i t Shr l r
      | Concat \<Rightarrow> cf_Concat C i t l r
      | ArrayIndex \<Rightarrow> ok (Binary i t op l r) | Range \<Rightarrow> ok (Binary i t op l r) | Mask \<Rightarrow> ok (Binary i t op l r)
      | _ \<Rightarrow> cf_binary C i t op l r)"

fun cf :: "cf_state \<Rightarrow> expr \<Rightarrow> expr res"
  and cf_list :: "cf_state \<Rightarrow> expr list \<Rightarrow> expr list res"
  and cf_fields :: "cf_state \<Rightarrow> (string \<times> expr) list \<Rightarrow> (string \<times> expr) list res" where
  "cf C (PathExpression i t x) = cf_PathExpression C i t x"
| "cf C (Unary i t op e) = bind_res (cf C e) (\<lambda>e'. cf_unary C (kept (e' = e) i) t op e')"
| "cf C (Cast i t e) = bind_res (cf C e) (\<lambda>e'. cf_Cast C i (kept (e' = e) i) t e')"
| "cf C (Binary i t op l r) =
     bind_res (cf C l) (\<lambda>l'. bind_res (cf C r) (\<lambda>r'. cf_binop C (kept (l' = l \<and> r' = r) i) t op l' r'))"
| "cf C (Slice i t e0 e1 e2) =
     bind_res (cf C e0) (\<lambda>e0'. bind_res (cf C e1) (\<lambda>e1'. bind_res (cf C e2) (\<lambda>e2'.
       cf_Slice C i (kept (e0' = e0 \<and> e1' = e1 \<and> e2' = e2) i) t e0' e1' e2')))"
| "cf C (Mux i t e0 e1 e2) =
     bind_res (cf C e0) (\<lambda>e0'. bind_res (cf C e1) (\<lambda>e1'. bind_res (cf C e2) (\<lambda>e2'.
       cf_Mux C (kept (e0' = e0 \<and> e1' = e1 \<and> e2' = e2) i) t e0' e1' e2')))"
| "cf C (Member i t e f) = bind_res (cf C e) (\<lambda>e'. cf_Member C i (nid_of e) (kept (e' = e) i) t e' f)"
| "cf C (ListExpression i t es) = bind_res (cf_list C es) (\<lambda>es'. ok (ListExpression (kept (es' = es) i) t es'))"
| "cf C (StructInitializer i t fs) =
     bind_res (cf_fields C fs) (\<lambda>fs'. ok (StructInitializer (kept (fs' = fs) i) t fs'))"
| "cf C (MethodCall i t m es) = bind_res (cf_list C es) (\<lambda>es'. ok (MethodCall (kept (es' = es) i) t m es'))"
| "cf C e = ok e"
| "cf_list C [] = ok []"
| "cf_list C (e # es) = bind_res (cf C e) (\<lambda>e'. bind_res (cf_list C es) (\<lambda>es'. ok (e' # es')))"
| "cf_fields C [] = ok []"
| "cf_fields C ((f, e) # fs) = bind_res (cf C e) (\<lambda>e'. bind_res (cf_fields C fs) (\<lambda>fs'. ok ((f, e') # fs')))"

section \<open>Values of constants\<close>

lemma mk_Constant_eval:
  assumes "mk_Constant t v b nw = Inr (ds, e)" and "numeric t"
  shows "e = Constant 0 t (norm t v) b" and "eval E e = Some (num_val t (norm t v))"
proof -
  show e: "e = Constant 0 t (norm t v) b" using mk_Constant_numeric [OF assms(2), of v b nw] assms(1) by auto
  show "eval E e = Some (num_val t (norm t v))"
    using eval_constant [OF ty_Constant_norm [OF assms(2), of 0 v b]] by (simp add: e)
qed

lemma mk_Constant_keeps:
  assumes "mk_Constant t v b nw = Inr (ds, e)" and "const_val t v = Some x"
  shows "eval E e = Some x"
proof -
  have "ty (Constant 0 t v b) = Some t" using assms(2) by simp
  then have c: "eval E (Constant 0 t v b) = Some (num_val t v)" "numeric t" "fits t v" using eval_constant by blast+
  then show ?thesis using mk_Constant_eval(2) [OF assms(1) c(2)] assms(2) by (simp add: norm_fits)
qed

lemma mk_Constant_Inr: "mk_Constant t v b nw = Inr (ds, e) \<Longrightarrow> \<exists>v'. e = Constant 0 t v' b"
  by (auto simp: mk_Constant_def split: sum.splits)

lemma clone_eval:
  "clone_constants e = Inr (ds, e') \<Longrightarrow> type_of e' = type_of e \<and> (is_type_name e' \<longleftrightarrow> is_type_name e) \<and>
     (\<forall>v. eval E e = Some v \<longrightarrow> eval E e' = Some v)"
  "clone_list es = Inr (ds, es') \<Longrightarrow> length es' = length es \<and> (\<forall>vs. evals E es = Some vs \<longrightarrow> evals E es' = Some vs)"
  "clone_fields fs = Inr (ds, fs') \<Longrightarrow> map fst fs' = map fst fs \<and> (\<forall>vs. eval_fields E fs = Some vs \<longrightarrow> eval_fields E fs' = Some vs)"
proof (induction e and es and fs arbitrary: ds e' and ds es' and ds fs' rule: clone_constants_clone_list_clone_fields.induct)
  case (1 i t v b)
  then have m: "mk_Constant t v b False = Inr (ds, e')" by (auto split: if_splits)
  then show ?case using mk_Constant_keeps [OF m, of _ E] by (auto dest!: mk_Constant_Inr simp: is_type_name_def)
next
  case (4 i t op l r)
  then obtain d1 l' d2 r' where s: "clone_constants l = Inr (d1, l')" "clone_constants r = Inr (d2, r')"
      "e' = Binary (kept (l' = l \<and> r' = r) i) t op l' r'" by (auto simp: bind_res_Inr)
  then show ?case using "4.IH" eval_Binary_mono [of E l l' r r' i t op _ "kept (l' = l \<and> r' = r) i"]
    by (auto simp: is_type_name_def simp del: eval.simps)
next
  case (6 i t e0 e1 e2)
  then obtain d0 e0' d1 e1' d2 e2' where s: "clone_constants e0 = Inr (d0, e0')" "clone_constants e1 = Inr (d1, e1')"
      "clone_constants e2 = Inr (d2, e2')" "e' = Mux (kept (e0' = e0 \<and> e1' = e1 \<and> e2' = e2) i) t e0' e1' e2'"
    by (auto simp: bind_res_Inr)
  then show ?case using "6.IH" by (auto simp: is_type_name_def eval_Mux simp del: eval.simps)
qed (fastforce simp: bind_res_Inr bind_eq_Some_conv is_type_name_def split: if_splits)+

text \<open>A constant is the expression itself, or a cast of the same operand.\<close>

lemma getConstant_cases:
  assumes "getConstant C e = Inr (ds, Some c)"
  obtains (same) "c = e" | (cast) i t x j y where "e = Cast i t x" "c = Cast j t y" "clone_constants e = Inr (ds, c) \<or> True"
  using assms by (cases e) (auto simp: bind_res_Inr split: if_splits option.splits)

lemma getConstant_atom:
  "getConstant C e = Inr (ds, Some (Constant i t v b)) \<Longrightarrow> e = Constant i t v b"
  "getConstant C e = Inr (ds, Some (BoolLiteral i x)) \<Longrightarrow> e = BoolLiteral i x"
  "getConstant C e = Inr (ds, Some (ListExpression i t es)) \<Longrightarrow> e = ListExpression i t es"
  "getConstant C e = Inr (ds, Some (StructInitializer i t fs)) \<Longrightarrow> e = StructInitializer i t fs"
  by (erule getConstant_cases; simp)+

lemma getConstant_eval:
  assumes "getConstant C e = Inr (ds, Some c)" and "eval E e = Some v"
  shows "eval E c = Some v"
proof (cases e)
  case (Cast i t x)
  then have "\<exists>d. clone_constants e = Inr (d, c)" using assms(1) by (auto simp: bind_res_Inr simp del: clone_constants.simps split: option.splits)
  then show ?thesis using clone_eval(1) assms(2) by blast
qed (use assms in \<open>auto simp: bind_res_Inr split: if_splits\<close>)

lemma enum_resolve_Some:
  assumes "enum_resolve C e = Inr (ds, Some (et, f))"
  shows "\<exists>i t j u x. e = Member i t (TypeNameExpression j u x) f \<and> getType C i = Some et"
proof (cases "\<exists>i t j u x g. e = Member i t (TypeNameExpression j u x) g")
  case True
  then obtain i t j u x g where e: "e = Member i t (TypeNameExpression j u x) g" by blast
  then obtain mt where m: "getType C i = Some mt"
    using assms by (cases "getType C i") (auto simp: enum_resolve_def getType_nonnull_def bind_res_def)
  then show ?thesis
    using assms e by (cases mt) (auto simp: enum_resolve_def getType_nonnull_def split: if_splits)
next
  case False
  then show ?thesis
    using assms by (cases e) (auto simp: enum_resolve_def split: expr.splits)
qed

lemma bind_resE:
  assumes "bind_res m f = Inr (ds, y)"
  obtains d1 x d2 where "m = Inr (d1, x)" "f x = Inr (d2, y)" "ds = d1 @ d2"
  using assms by (auto simp: bind_res_Inr)

section \<open>Every method keeps the value\<close>

definition keeps :: "env \<Rightarrow> expr \<Rightarrow> expr \<Rightarrow> bool" where
  "keeps E e e' \<longleftrightarrow> (\<forall>v. eval E e = Some v \<longrightarrow> eval E e' = Some v)"

lemma keeps_refl [simp]: "keeps E e e"
  by (simp add: keeps_def)

lemma keepsI: "(\<And>v. eval E e = Some v \<Longrightarrow> eval E e' = Some v) \<Longrightarrow> keeps E e e'"
  by (simp add: keeps_def)

lemma keepsD: "keeps E e e' \<Longrightarrow> eval E e = Some v \<Longrightarrow> eval E e' = Some v"
  by (simp add: keeps_def)

lemma num_val_bits [simp]: "num_val (Type_Bits w s) a = VBits w s a" "num_val Type_InfInt a = VInt a"
  "norm (Type_Bits w s) a = wrap w s a" "norm Type_InfInt a = a"
  by (simp_all add: num_val_def norm_def)

lemma const_val_num: "const_val t v = Some u \<Longrightarrow> numeric t \<and> u = num_val t v \<and> fits t v"
  by (auto simp: const_val_Some numeric_cases fits_def)

lemma keeps_unary:
  assumes "cf_unary C i t op e = Inr (ds, e')"
  shows "keeps E (Unary i t op e) e'"
proof (rule keepsI)
  fix v assume v: "eval E (Unary i t op e) = Some v"
  consider (unchanged) "e' = Unary i t op e"
    | (int) j ct x b where "e = Constant j ct x b" "op = Neg"
    | (cmpl) j ct x b where "e = Constant j ct x b" "op = Cmpl"
    | (bool) j b where "e = BoolLiteral j b" "op = LNot" "e' = BoolLiteral 0 (\<not> b)"
    using assms
    by (cases op)
       (auto simp: cf_unary_def cf_LNot_def cf_Neg_def cf_Cmpl_def elim!: bind_resE dest!: getConstant_atom
         split: option.splits if_splits)
  then show "eval E e' = Some v"
  proof cases
    case int
    then have n: "numeric ct" "v = num_val ct (norm ct (- x))"
      using v by (auto simp: bind_eq_Some_conv unop_num_val dest!: const_val_num)
    then have "\<exists>nw. mk_Constant ct (- x) b nw = Inr (ds, e')"
      using assms int by (auto simp: cf_unary_def cf_Neg_def numeric_cases)
    then show ?thesis using mk_Constant_eval(2) n by blast
  next
    case cmpl
    then obtain u where u: "const_val ct x = Some u" "unop_val Cmpl u = Some v" using v by (auto simp: bind_eq_Some_conv)
    then obtain w s where ct: "ct = Type_Bits w s" "0 < w" "u = VBits w s x" by (auto simp: const_val_Some unop_val_def)
    then have "mk_Constant ct (NOT x) b True = Inr (ds, e')"
      using assms cmpl by (auto simp: cf_unary_def cf_Cmpl_def)
    then show ?thesis using u mk_Constant_eval(2) ct by (fastforce simp: numeric_cases unop_val_def)
  qed (use v in \<open>auto simp: unop_val_def\<close>)
qed

lemma cf_func_arith:
  assumes "arith op a b = Some c"
  shows "cf_func op a b = ([], c)" "\<not> is_relation op" "\<not> saturating op"
  using assms by (cases op; auto simp: arith_def cf_func_def is_relation_def saturating_def split: if_splits)+

lemma cf_func_relation:
  assumes "relation op a b = Some c"
  shows "cf_func op a b = ([], of_bool c)" "is_relation op" "\<not> saturating op"
  using assms by (cases op; auto simp: relation_def cf_func_def is_relation_def saturating_def)+

lemma clamp:
  assumes "(0::int) < l" and "lo \<le> 0"
  shows "(if (if v < lo then lo else v) \<ge> l then l - 1 else if v < lo then lo else v) = max lo (min (l - 1) v)"
  using assms by (auto simp: max_def min_def)

lemma cf_saturate_eq:
  assumes "0 < w"
  shows "cf_saturate (Type_Bits w s) v = ok (saturate w s v)"
proof -
  define l lo where "l = (2 :: int) ^ (if s then w - 1 else w)" and "lo = (if s then - l else 0)"
  have "cf_saturate (Type_Bits w s) v =
      ok (if (if v < lo then lo else v) \<ge> l then l - 1 else if v < lo then lo else v)"
    using assms unfolding l_def lo_def by (simp add: cf_saturate_def Let_def)
  also have "\<dots> = ok (max lo (min (l - 1) v))" by (subst clamp) (simp_all add: l_def lo_def)
  also have "max lo (min (l - 1) v) = saturate w s v" by (simp add: l_def lo_def saturate_def)
  finally show ?thesis .
qed

text \<open>What an operation on two numbers of one type gives.\<close>

lemma binop_num_cases:
  assumes "binop_val op (num_val t a) (num_val t b) = Some v" and "numeric t" and "op \<notin> {Shl, Shr, Concat}"
  obtains (arith) c where "arith op a b = Some c" "v = num_val t (norm t c)"
  | (relation) c where "relation op a b = Some c" "v = VBool c"
  | (sat) w s where "t = Type_Bits w s" "0 < w" "op = AddSat" "v = VBits w s (saturate w s (a + b))"
  | (sat') w s where "t = Type_Bits w s" "0 < w" "op = SubSat" "v = VBits w s (saturate w s (a - b))"
  using assms by (auto simp: numeric_cases binop_val_def bits_val_def int_val_def split: if_splits)

lemma cf_result_eval:
  assumes "cf_result op t x b = Inr (ds, e)" and "numeric t"
    and "binop_val op (num_val t lv) (num_val t rv) = Some v" and "cf_func op lv rv = (d, x)"
    and "op \<notin> {Shl, Shr, Concat}"
  shows "eval E e = Some v"
  using assms(3,2,5)
proof (cases rule: binop_num_cases)
  case (arith c)
  then have "mk_Constant t c b True = Inr (ds, e)"
    using assms(1,4) cf_func_arith [OF arith(1)] by (simp add: cf_result_def)
  then show ?thesis using mk_Constant_eval(2) [OF _ assms(2)] arith(2) by simp
next
  case (relation c)
  then show ?thesis
    using assms(1,4) cf_func_relation [OF relation(1)] by (auto simp: cf_result_def)
next
  case (sat w s)
  then have "mk_Constant t (saturate w s (lv + rv)) b True = Inr (ds, e)"
    using assms(1,4) by (auto simp: cf_result_def saturating_def is_relation_def cf_func_def cf_saturate_eq)
  then show ?thesis using mk_Constant_eval(2) [OF _ assms(2)] sat by (simp add: wrap_id saturate_in_range)
next
  case (sat' w s)
  then have "mk_Constant t (saturate w s (lv - rv)) b True = Inr (ds, e)"
    using assms(1,4) by (auto simp: cf_result_def saturating_def is_relation_def cf_func_def cf_saturate_eq)
  then show ?thesis using mk_Constant_eval(2) [OF _ assms(2)] sat' by (simp add: wrap_id saturate_in_range)
qed

lemma keeps_binary:
  assumes "cf_binary C i t op l r = Inr (ds, e')" and "op \<notin> {Shl, Shr, Concat, LAnd, LOr}"
  shows "keeps E (Binary i t op l r) e'"
proof (rule keepsI)
  fix v assume v: "eval E (Binary i t op l r) = Some v"
  consider (unchanged) "e' = Binary i t op l r"
    | (fold) li lt lv lb ri rt rv rb where "l = Constant li lt lv lb" "r = Constant ri rt rv rb"
    using assms(1) by (auto simp: cf_binary_def elim!: bind_resE dest!: getConstant_atom split: option.splits)
  then show "eval E e' = Some v"
  proof cases
    case fold
    obtain u w where uw: "const_val lt lv = Some u" "const_val rt rv = Some w" "binop_val op u w = Some v"
      using v fold assms(2) by (auto simp: eval_strict simp del: eval.simps(7))
    then have n: "numeric lt" "u = num_val lt lv" "numeric rt" "w = num_val rt rv" by (auto dest!: const_val_num)
    have "lt = rt"
      using uw(3) n assms(2) by (auto simp: numeric_cases binop_val_def split: if_splits)
    obtain d x where f: "cf_func op lv rv = (d, x)" by force
    have "\<exists>d'. cf_result op lt x lb = Inr (d', e')"
      using assms(1) n(1) \<open>lt = rt\<close> f by (auto simp: fold cf_binary_def numeric_cases elim!: bind_resE split: if_splits)
    then show ?thesis using cf_result_eval n uw(3) f assms(2) \<open>lt = rt\<close> by blast
  qed (use v in simp)
qed

lemma same_kind_eq:
  "same_kind u w \<Longrightarrow> op = Equ \<or> op = Neq \<Longrightarrow> binop_val op u w = Some (VBool ((u = w) = (op = Equ)))"
  by (cases u; cases w) (auto simp: binop_val_def bits_val_def int_val_def is_relation_def relation_def eq_val_def)

lemma binop_eq_kind:
  assumes "binop_val op u w = Some v" and "op = Equ \<or> op = Neq"
  shows "same_kind u w" "v = VBool ((u = w) = (op = Equ))"
proof -
  show k: "same_kind u w" using assms by (cases u; cases w) (auto simp: binop_val_def split: if_splits)
  show "v = VBool ((u = w) = (op = Equ))" using same_kind_eq [OF k assms(2)] assms(1) by simp
qed

text \<open>The type map gives a node the type it is annotated with.\<close>

definition node_ok :: "cf_state \<Rightarrow> expr \<Rightarrow> bool" where
  "node_ok C e \<longleftrightarrow> (typesKnown C \<longrightarrow> getType C 0 = None \<and> (nid_of e \<noteq> 0 \<longrightarrow> getType C (nid_of e) = Some (type_of e)))"

lemma enum_val_Some: "enum_val t f = Some v \<longleftrightarrow> (\<exists>n ms. t = Type_Enum n ms \<and> f \<in> set ms \<and> v = VEnum n f)"
  by (cases t) (auto simp: enum_val_def)

lemma enum_resolve_eval:
  assumes "enum_resolve C e = Inr (ds, Some (et, f))" and "typesKnown C" and "node_ok C e" and "eval E e = Some v"
  shows "\<exists>n ms. et = Type_Enum n ms \<and> v = VEnum n f"
proof -
  obtain i t j u x where e: "e = Member i t (TypeNameExpression j u x) f" "getType C i = Some et"
    using enum_resolve_Some [OF assms(1)] by blast
  then have "t = et" using assms(2,3) by (cases i) (auto simp: node_ok_def)
  moreover have "enum_val t f = Some v" using assms(4) e(1) by (simp add: is_type_name_def)
  ultimately show ?thesis by (auto simp: enum_val_Some)
qed

fun all_nodes :: "(expr \<Rightarrow> bool) \<Rightarrow> expr \<Rightarrow> bool"
  and all_nodes_list :: "(expr \<Rightarrow> bool) \<Rightarrow> expr list \<Rightarrow> bool"
  and all_nodes_fields :: "(expr \<Rightarrow> bool) \<Rightarrow> (string \<times> expr) list \<Rightarrow> bool" where
  "all_nodes P (Unary i t op e) \<longleftrightarrow> P (Unary i t op e) \<and> all_nodes P e"
| "all_nodes P (Cast i t e) \<longleftrightarrow> P (Cast i t e) \<and> all_nodes P e"
| "all_nodes P (Binary i t op l r) \<longleftrightarrow> P (Binary i t op l r) \<and> all_nodes P l \<and> all_nodes P r"
| "all_nodes P (Slice i t e0 e1 e2) \<longleftrightarrow> P (Slice i t e0 e1 e2) \<and> all_nodes P e0 \<and> all_nodes P e1 \<and> all_nodes P e2"
| "all_nodes P (Mux i t e0 e1 e2) \<longleftrightarrow> P (Mux i t e0 e1 e2) \<and> all_nodes P e0 \<and> all_nodes P e1 \<and> all_nodes P e2"
| "all_nodes P (Member i t e f) \<longleftrightarrow> P (Member i t e f) \<and> all_nodes P e"
| "all_nodes P (ListExpression i t es) \<longleftrightarrow> P (ListExpression i t es) \<and> all_nodes_list P es"
| "all_nodes P (StructInitializer i t fs) \<longleftrightarrow> P (StructInitializer i t fs) \<and> all_nodes_fields P fs"
| "all_nodes P (MethodCall i t m es) \<longleftrightarrow> P (MethodCall i t m es) \<and> all_nodes_list P es"
| "all_nodes P e \<longleftrightarrow> P e"
| "all_nodes_list P [] \<longleftrightarrow> True"
| "all_nodes_list P (e # es) \<longleftrightarrow> all_nodes P e \<and> all_nodes_list P es"
| "all_nodes_fields P [] \<longleftrightarrow> True"
| "all_nodes_fields P ((f, e) # fs) \<longleftrightarrow> all_nodes P e \<and> all_nodes_fields P fs"

abbreviation known :: "cf_state \<Rightarrow> expr \<Rightarrow> bool" where
  "known C \<equiv> all_nodes (node_ok C)"

abbreviation known_list :: "cf_state \<Rightarrow> expr list \<Rightarrow> bool" where
  "known_list C \<equiv> all_nodes_list (node_ok C)"

lemma known_node: "known C e \<Longrightarrow> node_ok C e"
  by (cases e) auto

lemma compare_step_cases:
  assumes "compare_step C i t op l r cmps = Inr (ds, e')"
  obtains (unchanged) "e' = Binary i t op l r"
    | (bool) j a k b where "l = BoolLiteral j a" "r = BoolLiteral k b" "e' = BoolLiteral 0 ((a = b) = (op = Equ))"
    | (binary) d where "cf_binary C i t op l r = Inr (d, e')"
    | (enum) el er d1 d2 lt ln rn d3 d4 where "typesKnown C" "getConstant C l = Inr (d1, Some el)" "getConstant C r = Inr (d2, Some er)"
        "enum_resolve C el = Inr (d3, Some (lt, ln))" "enum_resolve C er = Inr (d4, Some (lt, rn))"
        "e' = BoolLiteral 0 ((ln = rn) = (op = Equ))"
    | (cmps) m d b where "cmps = Some m" "m = Inr (d, Some b)" "e' = BoolLiteral 0 b"
proof -
  obtain d1 cl d2 cr d3 where g: "getConstant C l = Inr (d1, cl)" "getConstant C r = Inr (d2, cr)"
    and r: "(case (cl, cr) of
         (Some el, Some er) \<Rightarrow>
           (case to_BoolLiteral el of
              Some a \<Rightarrow>
                (case to_BoolLiteral er of
                   Some b \<Rightarrow> ok (BoolLiteral 0 ((a = b) = (op = Equ)))
                 | None \<Rightarrow> report (Err ''both operands must be Boolean'') (Binary i t op l r))
            | None \<Rightarrow>
                if typesKnown C then
                  bind_res (enum_resolve C el) (\<lambda>le. bind_res (enum_resolve C er) (\<lambda>re.
                    case (le, re) of
                      (Some (lt, ln), Some (rt, rn)) \<Rightarrow>
                        if lt = rt then ok (BoolLiteral 0 ((ln = rn) = (op = Equ))) else Inl BugCheck
                    | _ \<Rightarrow>
                        (case cmps of
                           Some m \<Rightarrow>
                             bind_res m (\<lambda>b. ok (case b of None \<Rightarrow> Binary i t op l r | Some v \<Rightarrow> BoolLiteral 0 v))
                         | None \<Rightarrow> cf_binary C i t op l r)))
                else cf_binary C i t op l r)
       | _ \<Rightarrow> ok (Binary i t op l r)) = Inr (d3, e')"
    using assms unfolding compare_step_def by (elim bind_resE)
  show thesis
  proof (cases "\<exists>el er. cl = Some el \<and> cr = Some er")
    case False
    then show ?thesis using r unchanged by (cases cl; cases cr) auto
  next
    case True
    then obtain el er where c: "cl = Some el" "cr = Some er" by blast
    show ?thesis
    proof (cases "to_BoolLiteral el = None \<and> typesKnown C")
      case False
      then show ?thesis
        using r g c unchanged bool binary by (auto dest!: getConstant_atom split: option.splits if_splits)
    next
      case True
      then obtain d4 le d5 re d6 where e: "enum_resolve C el = Inr (d4, le)" "enum_resolve C er = Inr (d5, re)"
        and r': "(case (le, re) of
                      (Some (lt, ln), Some (rt, rn)) \<Rightarrow>
                        if lt = rt then ok (BoolLiteral 0 ((ln = rn) = (op = Equ))) else Inl BugCheck
                    | _ \<Rightarrow>
                        (case cmps of
                           Some m \<Rightarrow>
                             bind_res m (\<lambda>b. ok (case b of None \<Rightarrow> Binary i t op l r | Some v \<Rightarrow> BoolLiteral 0 v))
                         | None \<Rightarrow> cf_binary C i t op l r)) = Inr (d6, e')"
        using r c by (auto elim!: bind_resE)
      show ?thesis
      proof (cases "\<exists>lt ln rt rn. le = Some (lt, ln) \<and> re = Some (rt, rn)")
        case False
        then have r'': "(case cmps of
                           Some m \<Rightarrow>
                             bind_res m (\<lambda>b. ok (case b of None \<Rightarrow> Binary i t op l r | Some v \<Rightarrow> BoolLiteral 0 v))
                         | None \<Rightarrow> cf_binary C i t op l r) = Inr (d6, e')"
          using r' by (cases le; cases re) auto
        show ?thesis
        proof (cases cmps)
          case None
          then show ?thesis using r'' binary by simp
        next
          case (Some m)
          then obtain d b where "m = Inr (d, b)" "e' = (case b of None \<Rightarrow> Binary i t op l r | Some v \<Rightarrow> BoolLiteral 0 v)"
            using r'' by (auto elim!: bind_resE)
          then show ?thesis using Some unchanged cmps by (cases b) auto
        qed
      next
        case both: True
        then show ?thesis using True r' e g c enum by (auto split: if_splits)
      qed
    qed
  qed
qed

lemma keeps_compare:
  "op = Equ \<or> op = Neq \<Longrightarrow> known C l \<Longrightarrow> known C r \<Longrightarrow> compare C i t op l r = Inr (ds, e') \<Longrightarrow>
     eval E (Binary i t op l r) = Some v \<Longrightarrow> eval E e' = Some v"
  "op = Equ \<or> op = Neq \<Longrightarrow> known_list C ls \<Longrightarrow> known_list C rs \<Longrightarrow> compare_lists C op ls rs = Inr (ds, Some b) \<Longrightarrow>
     evals E ls = Some us \<Longrightarrow> evals E rs = Some ws \<Longrightarrow> list_all2 same_kind us ws \<Longrightarrow> b = ((us = ws) = (op = Equ))"
proof (induction C i t op l r and C op ls rs arbitrary: ds e' v and ds b us ws rule: compare_compare_lists.induct)
  case (1 C i t op l r)
  obtain u w where uw: "eval E l = Some u" "eval E r = Some w" "binop_val op u w = Some v"
    using "1.prems"(1,5) by (auto simp: eval_strict simp del: eval.simps(7))
  note kv = binop_eq_kind [OF uw(3) "1.prems"(1)]
  let ?cmps = "case list_pair l r of None \<Rightarrow> None
        | Some (ls, rs) \<Rightarrow> Some (if length ls \<noteq> length rs then report (Err ''comparing lists of different size'') None
                  else compare_lists C op ls rs)"
  have "compare_step C i t op l r ?cmps = Inr (ds, e')" using "1.prems"(4) by (simp add: compare.simps(1))
  then show ?case
  proof (cases rule: compare_step_cases)
    case bool
    then show ?thesis using uw kv by auto
  next
    case binary
    then show ?thesis using keeps_binary "1.prems"(1,5) by (fastforce simp: keeps_def)
  next
    case (enum el er d1 d2 lt ln rn d3 d4)
    have "el = l" "er = r"
      using enum_resolve_Some [OF enum(4)] enum_resolve_Some [OF enum(5)] enum(2,3) by (auto elim: getConstant_cases)
    then obtain n ms where "lt = Type_Enum n ms" "u = VEnum n ln" "w = VEnum n rn"
      using enum_resolve_eval [OF enum(4,1) _ uw(1)[folded \<open>el = l\<close>]] enum_resolve_eval [OF enum(5,1) _ uw(2)[folded \<open>er = r\<close>]]
        "1.prems"(2,3) known_node by auto
    then show ?thesis using kv enum(6) by simp
  next
    case (cmps m d b)
    then obtain ls rs li lt ri rt where c: "l = ListExpression li lt ls" "r = ListExpression ri rt rs" "length ls = length rs"
        "compare_lists C op ls rs = Inr (d, Some b)"
      by (auto split: option.splits if_splits)
    then obtain us ws where "u = VList us" "w = VList ws" "evals E ls = Some us" "evals E rs = Some ws" using uw(1,2) by auto
    moreover from this have "list_all2 same_kind us ws" using kv(1) by simp
    ultimately have "b = ((us = ws) = (op = Equ))"
      using "1.IH" [of "(ls, rs)" ls rs, OF _ _ _ "1.prems"(1) _ _ c(4)] c "1.prems"(2,3) by auto
    then show ?thesis using kv cmps(3) \<open>u = VList us\<close> \<open>w = VList ws\<close> by simp
  qed (use "1.prems" in simp)
next
  case (2 C op l ls r rs)
  obtain u us' w ws' where e: "eval E l = Some u" "evals E ls = Some us'" "us = u # us'"
      "eval E r = Some w" "evals E rs = Some ws'" "ws = w # ws'"
    using "2.prems"(5,6) by (auto simp: bind_eq_Some_conv)
  have k: "same_kind u w" "list_all2 same_kind us' ws'" using "2.prems"(7) e by auto
  obtain d1 cmp d2 where c: "compare C 0 Type_Boolean op l r = Inr (d1, cmp)"
      "(case to_BoolLiteral cmp of None \<Rightarrow> ok None
        | Some b \<Rightarrow> if b \<noteq> (op = Equ) then ok (Some b) else compare_lists C op ls rs) = Inr (d2, Some b)"
    using "2.prems"(4) by (auto elim!: bind_resE)
  then obtain j b' where b': "cmp = BoolLiteral j b'" by (auto split: option.splits)
  have "eval E (Binary 0 Type_Boolean op l r) = Some (VBool ((u = w) = (op = Equ)))"
    using e same_kind_eq [OF k(1) "2.prems"(1)] "2.prems"(1) by (auto simp: eval_strict simp del: eval.simps(7))
  then have b'_eq: "b' = ((u = w) = (op = Equ))" using "2.IH"(1) [OF "2.prems"(1) _ _ c(1)] "2.prems"(2,3) b' by auto
  show ?case
  proof (cases "u = w")
    case True
    then have "compare_lists C op ls rs = Inr (d2, Some b)" using c(2) b' b'_eq by simp
    then show ?thesis using "2.IH"(2) [of cmp b'] "2.prems" True e k(2) b' b'_eq by auto
  next
    case False
    then show ?thesis using c(2) b' b'_eq e by auto
  qed
qed auto

lemma keeps_Equ:
  assumes "cf_Equ C i t l r = Inr (ds, e')" and "known C l" and "known C r"
  shows "keeps E (Binary i t Equ l r) e'"
proof (rule keepsI)
  fix v assume v: "eval E (Binary i t Equ l r) = Some v"
  then obtain u w where uw: "eval E l = Some u" "eval E r = Some w" "binop_val Equ u w = Some v"
    by (auto simp: eval_strict simp del: eval.simps(7))
  have kv: "same_kind u w" "v = VBool (u = w)" using binop_eq_kind [OF uw(3)] by auto
  consider (unchanged) "e' = Binary i t Equ l r" | (compare) d where "compare C i t Equ l r = Inr (d, e')"
    | (left) j b where "l = BoolLiteral j b" "e' = (if b then r else mk_Unary LNot r)"
    | (right) j b where "r = BoolLiteral j b" "e' = (if b then l else mk_Unary LNot l)"
    using assms(1) by (auto simp: cf_Equ_def elim!: bind_resE dest!: getConstant_atom split: option.splits if_splits)
  then show "eval E e' = Some v"
  proof cases
    case compare
    then show ?thesis using keeps_compare(1) assms(2,3) v by blast
  next
    case left
    then have "u = VBool b" using uw(1) by simp
    moreover from this obtain b' where "w = VBool b'" using kv(1) by (cases w) auto
    ultimately show ?thesis using left uw kv by (auto simp: mk_Unary_def unop_val_def)
  next
    case right
    then have "w = VBool b" using uw(2) by simp
    moreover from this obtain b' where "u = VBool b'" using kv(1) by (cases u) auto
    ultimately show ?thesis using right uw kv by (auto simp: mk_Unary_def unop_val_def)
  qed (use v in simp)
qed

lemma keeps_LAnd:
  assumes "cf_LAnd C i t l r = Inr (ds, e')"
  shows "keeps E (Binary i t LAnd l r) e'"
proof -
  consider "e' = Binary i t LAnd l r" | j b where "l = BoolLiteral j b" "e' = (if b then r else BoolLiteral 0 False)"
    | j b where "r = BoolLiteral j b" "e' = (if b then l else BoolLiteral 0 False)"
    using assms by (auto simp: cf_LAnd_def const_side_def elim!: bind_resE dest!: getConstant_atom split: option.splits)
  then show ?thesis
    by cases (auto simp: keeps_def eval_LAnd simp del: eval.simps(7))
qed

lemma keeps_LOr:
  assumes "cf_LOr C i t l r = Inr (ds, e')"
  shows "keeps E (Binary i t LOr l r) e'"
proof -
  consider "e' = Binary i t LOr l r" | j b where "l = BoolLiteral j b" "e' = (if \<not> b then r else BoolLiteral 0 True)"
    | j b where "r = BoolLiteral j b" "e' = (if \<not> b then l else BoolLiteral 0 True)"
    using assms by (auto simp: cf_LOr_def const_side_def elim!: bind_resE dest!: getConstant_atom split: option.splits)
  then show ?thesis
    by cases (auto simp: keeps_def eval_LOr simp del: eval.simps(7))
qed

lemma keeps_Concat:
  assumes "cf_Concat C i t l r = Inr (ds, e')"
  shows "keeps E (Binary i t Concat l r) e'"
proof (rule keepsI)
  fix v assume v: "eval E (Binary i t Concat l r) = Some v"
  consider (unchanged) "e' = Binary i t Concat l r"
    | (fold) li lw ls lv lb ri rw rs rv rb d where "l = Constant li (Type_Bits lw ls) lv lb" "r = Constant ri (Type_Bits rw rs) rv rb"
        "mk_Constant (Type_Bits (lw + rw) ls) (shift_left lv rw + rv) lb False = Inr (d, e')"
    using assms by (auto simp: cf_Concat_def elim!: bind_resE dest!: getConstant_atom split: option.splits)
  then show "eval E e' = Some v"
  proof cases
    case fold
    then have "v = VBits (lw + rw) ls (wrap (lw + rw) ls (lv * 2 ^ rw + rv))" "0 < lw"
      using v by (auto simp: bind_eq_Some_conv const_val_Some binop_val_def concat_val_def split: bool.splits)
    then show ?thesis
      using mk_Constant_eval(2) [OF fold(3)] by (auto simp: numeric_cases shift_left_def)
  qed (use v in simp)
qed

lemma keeps_shift:
  assumes "cf_shift C i t op l r = Inr (ds, e')" and "op = Shl \<or> op = Shr" and "gmp_ok (cf_gmp C)" and "quiet ds"
    and "env_ok E"
  shows "keeps E (Binary i t op l r) e'"
proof (rule keepsI)
  fix v assume v: "eval E (Binary i t op l r) = Some v"
  then obtain u w where uw: "eval E l = Some u" "eval E r = Some w" "binop_val op u w = Some v"
    using assms(2) by (auto simp: eval_strict simp del: eval.simps(7))
  consider (unchanged) "e' = Binary i t op l r"
    | (zero) j rt rb where "r = Constant j rt 0 rb" "e' = l"
    | (fold) li lt lv lb ri rt rv rb d k d' where "l = Constant li lt lv lb" "r = Constant ri rt rv rb" "0 < rv"
        "asInt (cf_gmp C) rv = (d, k)" "quiet d"
        "mk_Constant lt (if op = Shl then shift_left lv (nat (take_bit 32 k)) else shift_right lv (nat (take_bit 32 k))) lb False = Inr (d', e')"
    using assms(1,4) unfolding cf_shift_def Let_def
    by (auto elim!: bind_resE dest!: getConstant_atom split: option.splits if_splits)
  then show "eval E e' = Some v"
  proof cases
    case zero
    then obtain t' where "w = num_val t' 0" "numeric t'" using uw(2) by (auto dest!: const_val_num)
    then have "shift_val op u 0 = Some v" using uw(3) assms(2) by (auto simp: binop_val_def int_of_num_val)
    then have "v = u"
      using assms(2,5) uw(1) eval_ok(1) by (fastforce simp: shift_val_def wrap_id split: val.splits)
    then show ?thesis using zero uw(1) by simp
  next
    case fold
    then have n: "numeric lt" "u = num_val lt lv" "fits lt lv" "numeric rt" "w = num_val rt rv" using uw(1,2) by (auto dest!: const_val_num)
    have k: "k = rv" using asInt_quiet assms(3) fold(4,5) by blast
    have "shift_val op u (nat rv) = Some v"
      using uw(3) assms(2) fold(3) n(4,5) by (auto simp: binop_val_def int_of_num_val)
    then have v: "v = num_val lt (if op = Shl then norm lt (lv * 2 ^ nat rv) else lv div 2 ^ nat rv)"
      using shift_num_val [OF n(1)] n(2) assms(2) by auto
    have "rv < 2 ^ 31" using fold(4,5) by (auto simp: asInt_def fitsInt_def quiet_def split: if_splits)
    then have "take_bit 32 k = rv" using k fold(3) by (simp add: take_bit_int_eq_self)
    then have e: "eval E e' = Some (num_val lt (norm lt (if op = Shl then lv * 2 ^ nat rv else lv div 2 ^ nat rv)))"
      using mk_Constant_eval(2) [OF fold(6) n(1)] by (simp add: shift_left_def shift_right_def if_distrib)
    have "fits lt (lv div 2 ^ nat rv)" using n(1,3) by (auto simp: numeric_cases fits_def div_in_range)
    then show ?thesis using e v by (auto simp: norm_fits)
  qed (use v in simp)
qed

lemma cast_val_Some:
  assumes "cast_val t u = Some v"
  obtains (bits) w s a where "t = Type_Bits w s" "0 < w" "int_of_val u = Some a" "v = VBits w s (wrap w s a)"
  | (bool_bits) b where "t = Type_Bits 1 False" "u = VBool b" "v = VBits 1 False (of_bool b)"
  | (bits_bool) a where "t = Type_Boolean" "u = VBits 1 False a" "v = VBool (a = 1)"
  | (int_bool) a where "t = Type_Boolean" "u = VInt a" "a = 0 \<or> a = 1" "v = VBool (a = 1)"
  | (bool) b where "t = Type_Boolean" "u = VBool b" "v = u"
  using assms by (cases t; cases u) (auto simp: cast_val_def split: if_splits)

lemma asInt_small: "gmp_ok G \<Longrightarrow> a = 0 \<or> a = 1 \<Longrightarrow> asInt G a = ([], a)"
  using asInt_fits [of G a] by (auto simp: fitsInt_def)

lemma keeps_Cast:
  assumes "cf_Cast C orig i t e = Inr (ds, e')" and "gmp_ok (cf_gmp C)" and "typesKnown C \<longrightarrow> getType C orig = Some t"
    and "env_ok E"
  shows "keeps E (Cast i t e) e'"
proof (rule keepsI)
  fix v assume v: "eval E (Cast i t e) = Some v"
  then obtain u where u: "eval E e = Some u" "cast_val t u = Some v" by (auto simp: bind_eq_Some_conv)
  consider (none) d where "getConstant C e = Inr (d, None)" | (some) d x where "getConstant C e = Inr (d, Some x)"
    using assms(1) by (auto simp: cf_Cast_def elim!: bind_resE split: option.splits)
  then show "eval E e' = Some v"
  proof cases
    case none
    then show ?thesis using assms(1) v by (auto simp: cf_Cast_def elim!: bind_resE)
  next
    case some
    obtain d2 where r: "(if to_Bits t \<noteq> None then
               (case to_Constant x of
                  Some (ct, v, b) \<Rightarrow> mk_Constant t v b False
                | None \<Rightarrow>
                    (case to_BoolLiteral x of
                       Some b \<Rightarrow> mk_Constant t (of_bool b) 10 False
                     | None \<Rightarrow> ok (Cast i t e)))
             else if t = Type_Boolean then
               (case to_BoolLiteral x of
                  Some b \<Rightarrow> ok x
                | None \<Rightarrow>
                    (case to_Constant x of
                       Some (ct, v, b) \<Rightarrow> cast_bool C i t e ct v
                     | None \<Rightarrow> ok (Cast i t e)))
             else if struct_fields t \<noteq> None then clone_constants x
             else ok (Cast i t e)) = Inr (d2, e')"
      using assms(1,3) some by (auto simp: cf_Cast_def getType_nonnull_def elim!: bind_resE split: if_splits)
    consider (const) j ct c b where "x = Constant j ct c b" "e = x" | (lit) j b where "x = BoolLiteral j b" "e = x"
      | (other) "to_Constant x = None" "to_BoolLiteral x = None"
      using some by (cases x) (auto simp: to_Constant_def to_BoolLiteral_def dest!: getConstant_atom)
    then show ?thesis
    proof cases
      case const
      have n: "numeric ct" "u = num_val ct c" "fits ct c" using u(1) const by (auto dest!: const_val_num)
      from u(2) show ?thesis
      proof (cases rule: cast_val_Some)
        case bits
        then have "mk_Constant t c b False = Inr (d2, e')" using r const by simp
        then show ?thesis using mk_Constant_eval(2) bits n int_of_num_val by (fastforce simp: numeric_cases)
      next
        case (bits_bool a)
        then have "ct = Type_Bits 1 False" "a = c" "a = 0 \<or> a = 1"
          using n by (auto simp: numeric_cases fits_def in_range_def)
        then show ?thesis using r const bits_bool asInt_small [OF assms(2), of c] by (auto simp: cast_bool_def split: if_splits)
      next
        case (int_bool a)
        then have "ct = Type_InfInt" "a = c" using n by (auto simp: numeric_cases)
        then show ?thesis using r const int_bool asInt_small [OF assms(2), of c] by (auto simp: cast_bool_def split: if_splits)
      qed (use n in \<open>auto simp: numeric_cases\<close>)
    next
      case lit
      then have ub: "u = VBool b" using u(1) by simp
      from u(2) show ?thesis
      proof (cases rule: cast_val_Some)
        case (bool_bits b')
        then have "mk_Constant t (of_bool b) 10 False = Inr (d2, e')" using r lit by simp
        then show ?thesis using mk_Constant_eval(2) bool_bits ub by (fastforce simp: numeric_cases wrap_def)
      qed (use ub r lit in auto)
    next
      case other
      have "to_Bits t \<noteq> None \<or> t = Type_Boolean" using u(2) by (auto elim!: cast_val_Some)
      then show ?thesis using r v other by (auto split: if_splits)
    qed
  qed
qed

lemma keeps_Slice:
  assumes "cf_Slice C orig i t e0 e1 e2 = Inr (ds, e')" and "gmp_ok (cf_gmp C)" and "typesKnown C \<longrightarrow> getType C orig = Some t"
    and "bound_of e1 = Some h" and "bound_of e2 = Some l" and "t = Type_Bits (nat (h - l + 1)) False"
  shows "keeps E (Slice i t e0 e1 e2) e'"
proof (rule keepsI)
  fix v assume v: "eval E (Slice i t e0 e1 e2) = Some v"
  obtain mi mt mb li lt lb where b: "e1 = Constant mi mt h mb" "e2 = Constant li lt l lb"
    using assms(4,5) by (auto simp: bound_of_Some)
  obtain u where u: "eval E e0 = Some u" "slice_val u h l = Some v"
    using v bound_of_eval [OF assms(4), of E] bound_of_eval [OF assms(5), of E] by (auto simp: bind_eq_Some_conv)
  then obtain w s a where a: "u = VBits w s a" "0 \<le> l" "l \<le> h" "h < int w" "w < 2 ^ 31"
      "v = VBits (nat (h - l + 1)) False (take_bit (nat (h - l + 1)) (a div 2 ^ nat l))"
    by (auto simp: slice_val_def split: val.splits if_splits)
  have f: "asInt (cf_gmp C) h = ([], h)" "asInt (cf_gmp C) l = ([], l)" "fitsInt (h - l + 1)"
    using a asInt_fits [OF assms(2)] by (auto simp: fitsInt_def)
  consider (unchanged) "e' = Slice i t e0 e1 e2"
    | (fold) ci ct cv cb d where "e0 = Constant ci ct cv cb"
        "mk_Constant t (slice_shr cv l AND (shift_left 1 (nat (h - l + 1)) - 1)) cb True = Inr (d, e')"
    using assms(1,3,6) a(2,3) f
    by (auto simp: cf_Slice_def b getType_nonnull_def elim!: bind_resE dest!: getConstant_atom split: option.splits if_splits)
  then show "eval E e' = Some v"
  proof cases
    case fold
    have "cv = a" using u(1) a(1) fold(1) by (auto dest!: const_val_num simp: numeric_cases)
    moreover have "slice_shr a l AND (shift_left 1 (nat (h - l + 1)) - 1) = take_bit (nat (h - l + 1)) (a div 2 ^ nat l)"
      using a(2) by (simp add: slice_shr_def shift_right_def mask_bits_def [symmetric] and_mask_bits)
    ultimately show ?thesis
      using mk_Constant_eval(2) [OF fold(2)] a(3,6) assms(6) by (auto simp: numeric_def wrap_def)
  qed (use v in simp)
qed

lemma field_index_map_of:
  "map_of (zip (map fst fs) vs) f =
     (case field_index f fs of None \<Rightarrow> None | Some k \<Rightarrow> if k < length vs then Some (vs ! k) else None)"
proof (induction fs arbitrary: vs)
  case (Cons x fs)
  then show ?case by (cases vs; cases x) (auto split: option.splits)
qed simp

lemma evals_nth: "evals E es = Some vs \<Longrightarrow> k < length es \<Longrightarrow> eval E (es ! k) = Some (vs ! k)"
  by (induction es arbitrary: vs k) (auto simp: bind_eq_Some_conv nth_Cons split: nat.splits)

lemma eval_fields_map_of:
  "eval_fields E fs = Some ws \<Longrightarrow> map_of ws f = Option.bind (map_of fs f) (eval E)"
  by (induction fs arbitrary: ws) (auto simp: bind_eq_Some_conv)

lemma clone_keeps: "clone_constants e = Inr (ds, e') \<Longrightarrow> eval E e = Some v \<Longrightarrow> eval E e' = Some v"
  using clone_eval(1) by blast

lemma mk_Constant_numeric_only: "mk_Constant t v b nw = Inr (ds, e) \<Longrightarrow> t = Type_InfInt \<or> (\<exists>w s. t = Type_Bits w s)"
  by (cases t) (auto simp: mk_Constant_def handleOverflow_def)

lemma getConstant_type_name: "is_type_name e \<Longrightarrow> getConstant C e = Inr (ds, c) \<Longrightarrow> c = None"
  by (cases e) (auto simp: is_type_name_def enum_resolve_def split: if_splits elim!: bind_resE)

text \<open>The operand of a member was rewritten to \<open>e'\<close>, of the same type unless it is a constant.\<close>

lemma keeps_Member:
  assumes m: "cf_Member C orig (nid_of e) i t e' f = Inr (ds, r)"
    and tm: "typesKnown C \<longrightarrow> getType C orig = Some t \<and> getType C (nid_of e) = Some (type_of e)"
    and keeps: "keeps E e e'" and name: "is_type_name e \<Longrightarrow> is_type_name e'"
    and same: "\<And>vs. eval E e = Some (VList vs) \<Longrightarrow>
      type_of e' = type_of e \<or> typesKnown C \<and> (\<exists>d c. getConstant C e' = Inr (d, Some c))"
    and type: "\<And>u. eval E e = Some u \<Longrightarrow> has_type u (type_of e)"
    and v: "eval E (Member k t e f) = Some v"
  shows "eval E r = Some v"
proof (cases "is_type_name e")
  case True
  then have ev: "enum_val t f = Some v" using v by simp
  then have "r = Member i t e' f"
    using m tm True name
    by (auto simp: cf_Member_def getType_nonnull_def enum_val_Some elim!: bind_resE dest!: mk_Constant_numeric_only
        dest: getConstant_type_name split: if_splits option.splits)
  then show ?thesis using ev True name by simp
next
  case False
  obtain u where u: "eval E e = Some u" "member_val (type_of e) f u = Some v" "has_type v t"
    using v False by (auto simp: bind_eq_Some_conv typed_val_def split: if_splits)
  have u': "eval E e' = Some u" using keeps u(1) by (rule keepsD)
  then have name': "\<not> is_type_name e'" by (cases e') (auto simp: is_type_name_def)
  have id: "eval E (Member i t e' f) = Some v"
    if "type_of e' = type_of e \<or> (\<forall>vs. u \<noteq> VList vs)"
    using that u u' False name' by (cases u) (auto simp: typed_val_def member_val_def)
  show ?thesis
  proof (cases "typesKnown C")
    case False
    then have "r = Member i t e' f" using m by (simp add: cf_Member_def)
    then show ?thesis using id same False u(1) by blast
  next
    case tk: True
    show ?thesis
    proof (cases "is_stack_size (type_of e) f")
      case (Some n)
      then obtain elt where st: "type_of e = Type_Stack elt n" "f = ''size''"
        by (cases "type_of e") (auto simp: is_stack_size_def split: if_splits)
      then have "\<exists>vs. u = VList vs" using type [OF u(1)] by (cases u) (auto simp: enum_type_def struct_fields_def)
      then have "v = VBits 32 False (take_bit 32 (int n))" using u(2) st by (auto simp: member_val_def)
      moreover from this have "t = Type_Bits 32 False" using u(3) by simp
      moreover have "\<exists>d. mk_Constant t (int n) 10 False = Inr (d, r)"
        using m tm tk Some by (auto simp: cf_Member_def getType_nonnull_def elim!: bind_resE)
      ultimately show ?thesis using mk_Constant_eval(2) [of t "int n" 10 False _ r E] by (auto simp: numeric_def wrap_def)
    next
      case None
      have mv: "member_val (type_of e) f (VList vs) =
          Option.bind (struct_fields (type_of e)) (\<lambda>fs. map_of (zip (map fst fs) vs) f)" for vs
        using None by (cases "type_of e") (auto simp: member_val_def is_stack_size_def struct_fields_def split: if_splits)
      consider (unchanged) "r = Member i t e' f" "\<And>d c. getConstant C e' \<noteq> Inr (d, Some c)"
        | (lst) fs j t' es n d where "struct_fields (type_of e) = Some fs" "e' = ListExpression j t' es"
            "field_index f fs = Some n" "n < length es" "clone_constants (es ! n) = Inr (d, r)"
        | (str) j t' ifs x d where "e' = StructInitializer j t' ifs" "map_of ifs f = Some x" "clone_constants x = Inr (d, r)"
        | (valid) j t' ifs where "e' = StructInitializer j t' ifs" "r = Member i t e' f"
        using m tm tk None
        by (auto simp: cf_Member_def getType_nonnull_def elim!: bind_resE dest!: getConstant_atom split: option.splits if_splits)
      then show ?thesis
      proof cases
        case unchanged
        then show ?thesis using id same u(1) by blast
      next
        case lst
        then obtain vs where vs: "u = VList vs" "evals E es = Some vs" using u' by auto
        then have "v = vs ! n" "n < length vs"
          using u(2) mv lst(1,3) by (auto simp: field_index_map_of split: if_splits)
        then show ?thesis using clone_keeps [OF lst(5)] evals_nth [OF vs(2) lst(4)] by simp
      next
        case str
        then obtain ws where ws: "u = VStruct ws" "eval_fields E ifs = Some ws" using u' by auto
        then have "eval E x = Some v" using u(2) eval_fields_map_of [OF ws(2), of f] str(2) by (auto simp: member_val_def)
        then show ?thesis using clone_keeps [OF str(3)] by blast
      next
        case valid
        then show ?thesis using id u' by auto
      qed
    qed
  qed
qed

section \<open>New nodes are unknown to the type map\<close>

definition fresh :: "cf_state \<Rightarrow> bool" where
  "fresh C \<longleftrightarrow> (typesKnown C \<longrightarrow> getType C 0 = None)"

lemma node_ok_new: "fresh C \<Longrightarrow> nid_of e = 0 \<Longrightarrow> node_ok C e"
  by (simp add: fresh_def node_ok_def)

lemma node_ok_kept:
  "node_ok C (Unary i t uop e) \<Longrightarrow> node_ok C (Unary (kept b i) t uop e')"
  "node_ok C (Cast i t e) \<Longrightarrow> node_ok C (Cast (kept b i) t e')"
  "node_ok C (Binary i t op l r) \<Longrightarrow> node_ok C (Binary (kept b i) t op l' r')"
  "node_ok C (Slice i t e0 e1 e2) \<Longrightarrow> node_ok C (Slice (kept b i) t e0' e1' e2')"
  "node_ok C (Mux i t e0 e1 e2) \<Longrightarrow> node_ok C (Mux (kept b i) t e0' e1' e2')"
  "node_ok C (Member i t e f) \<Longrightarrow> node_ok C (Member (kept b i) t e' f)"
  "node_ok C (ListExpression i t es) \<Longrightarrow> node_ok C (ListExpression (kept b i) t es')"
  "node_ok C (StructInitializer i t fs) \<Longrightarrow> node_ok C (StructInitializer (kept b i) t fs')"
  "node_ok C (MethodCall i t m es) \<Longrightarrow> node_ok C (MethodCall (kept b i) t m es')"
  by (cases b; simp add: node_ok_def)+

lemma mk_Constant_known: "fresh C \<Longrightarrow> mk_Constant t v b nw = Inr (ds, e) \<Longrightarrow> known C e"
  by (auto dest!: mk_Constant_Inr simp: node_ok_new)

lemma clone_known:
  assumes "fresh C"
  shows "known C e \<Longrightarrow> clone_constants e = Inr (ds, e') \<Longrightarrow> known C e'"
    and "known_list C es \<Longrightarrow> clone_list es = Inr (ds, es') \<Longrightarrow> known_list C es'"
    and "all_nodes_fields (node_ok C) fs \<Longrightarrow> clone_fields fs = Inr (ds, fs') \<Longrightarrow> all_nodes_fields (node_ok C) fs'"
proof (induction e and es and fs arbitrary: ds e' and ds es' and ds fs' rule: clone_constants_clone_list_clone_fields.induct)
  case (1 i t v b)
  then show ?case using mk_Constant_known [OF assms] by (auto split: if_splits)
next
  case (4 i t op l r)
  obtain d1 l' d2 r' where s: "clone_constants l = Inr (d1, l')" "clone_constants r = Inr (d2, r')"
      "e' = Binary (kept (l' = l \<and> r' = r) i) t op l' r'" using "4.prems"(2) by (auto elim!: bind_resE)
  then show ?case using "4.prems"(1) "4.IH"(1) [OF _ s(1)] "4.IH"(2) [OF _ s(2)] by (auto intro: node_ok_kept)
next
  case (5 i t e0 e1 e2)
  obtain d0 e0' d1 e1' d2 e2' where s: "clone_constants e0 = Inr (d0, e0')" "clone_constants e1 = Inr (d1, e1')"
      "clone_constants e2 = Inr (d2, e2')" "e' = Slice (kept (e0' = e0 \<and> e1' = e1 \<and> e2' = e2) i) t e0' e1' e2'"
    using "5.prems"(2) by (auto elim!: bind_resE)
  then show ?case
    using "5.prems"(1) "5.IH"(1) [OF _ s(1)] "5.IH"(2) [OF _ s(2)] "5.IH"(3) [OF _ s(3)] by (auto intro: node_ok_kept)
next
  case (6 i t e0 e1 e2)
  obtain d0 e0' d1 e1' d2 e2' where s: "clone_constants e0 = Inr (d0, e0')" "clone_constants e1 = Inr (d1, e1')"
      "clone_constants e2 = Inr (d2, e2')" "e' = Mux (kept (e0' = e0 \<and> e1' = e1 \<and> e2' = e2) i) t e0' e1' e2'"
    using "6.prems"(2) by (auto elim!: bind_resE)
  then show ?case
    using "6.prems"(1) "6.IH"(1) [OF _ s(1)] "6.IH"(2) [OF _ s(2)] "6.IH"(3) [OF _ s(3)] by (auto intro: node_ok_kept)
qed (auto elim!: bind_resE intro: node_ok_kept)

lemma mk_Constant_again:
  assumes "mk_Constant t v b nw = Inr (ds, e)"
  shows "\<exists>d e''. mk_Constant t v' b' nw' = Inr (d, e'')"
proof -
  have "t = Type_InfInt \<or> (\<exists>w s. t = Type_Bits w s \<and> (s \<longrightarrow> w \<noteq> 0))"
    using assms mk_Constant_numeric_only [OF assms] by (auto simp: mk_Constant_def handleOverflow_def)
  then show ?thesis
    by (auto simp: mk_Constant_def handleOverflow_def Let_def and_mask_bits)
qed

lemma bind_res_ex:
  "\<exists>d y. m = Inr (d, y) \<Longrightarrow> (\<And>x. \<exists>d y. f x = Inr (d, y)) \<Longrightarrow> \<exists>d y. bind_res m f = Inr (d, y)"
  by (metis bind_res_total)

lemma ok_ex [simp]: "\<exists>d y. ok x = Inr (d, y)"
  by (simp add: ok_def)

lemma clone_again:
  "clone_constants e = Inr (ds, e') \<Longrightarrow> \<exists>d e''. clone_constants e' = Inr (d, e'')"
  "clone_list es = Inr (ds, es') \<Longrightarrow> \<exists>d es''. clone_list es' = Inr (d, es'')"
  "clone_fields fs = Inr (ds, fs') \<Longrightarrow> \<exists>d fs''. clone_fields fs' = Inr (d, fs'')"
proof (induction e and es and fs arbitrary: ds e' and ds es' and ds fs' rule: clone_constants_clone_list_clone_fields.induct)
  case (1 i t v b)
  then have m: "mk_Constant t v b False = Inr (ds, e')" "to_Bits t \<noteq> None \<or> t = Type_InfInt" by (auto split: if_splits)
  then show ?case using mk_Constant_again [OF m(1)] by (auto dest!: mk_Constant_Inr)
qed (auto elim!: bind_resE intro!: bind_res_ex)

lemma getConstant_Member:
  assumes "getConstant C (Member i t e f) = Inr (d, Some c)" and "clone_constants (Member i t e f) = Inr (ds, e')"
  shows "e' = Member i t e f"
proof -
  obtain j u x where "e = TypeNameExpression j u x"
    using assms(1) by (auto simp: enum_resolve_def elim!: bind_resE split: if_splits expr.splits)
  then show ?thesis using assms(2) by (auto elim!: bind_resE)
qed

lemma getConstant_clone:
  "getConstant C e = Inr (d, Some c) \<Longrightarrow> clone_constants e = Inr (ds, e') \<Longrightarrow> \<exists>d c. getConstant C e' = Inr (d, Some c)"
  "all_constant C es = Inr (d, True) \<Longrightarrow> clone_list es = Inr (ds, es') \<Longrightarrow> \<exists>d. all_constant C es' = Inr (d, True)"
  "all_constant_fields C fs = Inr (d, True) \<Longrightarrow> clone_fields fs = Inr (ds, fs') \<Longrightarrow> \<exists>d. all_constant_fields C fs' = Inr (d, True)"
proof (induction C e and C es and C fs arbitrary: d c ds e' and d ds es' and d ds fs' rule: getConstant_all_constant_all_constant_fields.induct)
  case (1 C i t v b)
  then show ?case by (auto dest!: mk_Constant_Inr simp: ok_def split: if_splits)
next
  case (3 C i t es)
  then obtain d1 es' d2 where "all_constant C es = Inr (d1, True)" "clone_list es = Inr (d2, es')"
      "e' = ListExpression (kept (es' = es) i) t es'"
    by (auto elim!: bind_resE split: if_splits)
  then show ?case using "3.IH" by (fastforce simp: bind_res_def ok_def)
next
  case (4 C i t fs)
  then obtain d1 fs' d2 where "all_constant_fields C fs = Inr (d1, True)" "clone_fields fs = Inr (d2, fs')"
      "e' = StructInitializer (kept (fs' = fs) i) t fs'"
    by (auto elim!: bind_resE split: if_splits)
  then show ?case using "4.IH" by (fastforce simp: bind_res_def ok_def)
next
  case (5 C i t e)
  obtain d1 c1 x d2 where x: "getConstant C e = Inr (d1, Some c1)" "clone_constants e = Inr (d2, x)" "e' = Cast (kept (x = e) i) t x"
    using "5.prems" by (auto elim!: bind_resE split: option.splits)
  obtain d3 c3 where g: "getConstant C x = Inr (d3, Some c3)" using "5.IH" [OF x(1,2)] by blast
  obtain d4 y where "clone_constants (Cast (kept (x = e) i) t x) = Inr (d4, y)" using clone_again(1) "5.prems"(2) x(3) by blast
  then show ?case using g x(3) by (auto simp: bind_res_def ok_def)
next
  case "6_7"
  then show ?case using getConstant_Member by blast
next
  case (8 C e es)
  obtain d1 c1 x y d2 d3 d4 where x: "getConstant C e = Inr (d1, Some c1)" "all_constant C es = Inr (d2, True)"
      "clone_constants e = Inr (d3, x)" "clone_list es = Inr (d4, y)" "es' = x # y"
    using "8.prems" by (auto elim!: bind_resE split: if_splits)
  then show ?case using "8.IH"(1) [OF x(1,3)] "8.IH"(2) [OF _ x(2,4), of "Some c1"] by (auto simp: bind_res_def)
next
  case (10 C f e fs)
  obtain d1 c1 x y d2 d3 d4 where x: "getConstant C e = Inr (d1, Some c1)" "all_constant_fields C fs = Inr (d2, True)"
      "clone_constants e = Inr (d3, x)" "clone_fields fs = Inr (d4, y)" "fs' = (f, x) # y"
    using "10.prems" by (auto elim!: bind_resE split: if_splits)
  then show ?case using "10.IH"(1) [OF x(1,3)] "10.IH"(2) [OF _ x(2,4), of "Some c1"] by (auto simp: bind_res_def)
qed (auto elim!: bind_resE simp: enum_resolve_def split: if_splits)

text \<open>The methods return known nodes.\<close>

lemma getConstant_known:
  assumes "fresh C" and "known C e" and "getConstant C e = Inr (ds, Some c)"
  shows "known C c"
proof (cases e)
  case (Cast i t x)
  then obtain d where "clone_constants e = Inr (d, c)"
    using assms(3) by (auto elim!: bind_resE split: option.splits simp del: clone_constants.simps)
  then show ?thesis using clone_known(1) [OF assms(1,2)] by blast
qed (use assms in \<open>auto elim!: bind_resE split: if_splits\<close>)

lemma known_unary:
  assumes "cf_unary C i t op e = Inr (ds, e')" and "fresh C" and "node_ok C (Unary i t op e)" and "known C e"
  shows "known C e'"
  using assms
  by (cases op)
     (auto simp: cf_unary_def cf_LNot_def cf_Neg_def cf_Cmpl_def node_ok_new elim!: bind_resE dest!: mk_Constant_known [OF assms(2)]
       split: option.splits if_splits)

lemma known_result:
  assumes "cf_result op t v b = Inr (ds, e)" and "fresh C"
  shows "known C e"
  using assms by (auto simp: cf_result_def node_ok_new elim!: bind_resE dest!: mk_Constant_known [OF assms(2)] split: if_splits)

lemma known_cf_binary:
  assumes "cf_binary C i t op l r = Inr (ds, e')" and "fresh C" and "node_ok C (Binary i t op l r)" and "known C l" "known C r"
  shows "known C e'"
  using assms
  by (auto simp: cf_binary_def elim!: bind_resE dest!: known_result [OF _ assms(2)] split: option.splits if_splits prod.splits)

lemma known_compare:
  assumes "compare C i t op l r = Inr (ds, e')" and "fresh C" and "node_ok C (Binary i t op l r)" and "known C l" "known C r"
  shows "known C e'"
  using assms(1) unfolding compare.simps(1)
proof (cases rule: compare_step_cases)
  case binary
  then show ?thesis using known_cf_binary assms by blast
qed (use assms node_ok_new in auto)

lemma known_binop:
  assumes "cf_binop C i t op l r = Inr (ds, e')" and "fresh C" and "node_ok C (Binary i t op l r)" and "known C l" "known C r"
  shows "known C e'"
proof -
  consider "cf_binary C i t op l r = Inr (ds, e')" | "compare C i t op l r = Inr (ds, e')" "op = Neq"
    | "cf_LAnd C i t l r = Inr (ds, e')" "op = LAnd" | "cf_LOr C i t l r = Inr (ds, e')" "op = LOr"
    | "cf_Equ C i t l r = Inr (ds, e')" "op = Equ"
    | "cf_shift C i t op l r = Inr (ds, e')" | "cf_Concat C i t l r = Inr (ds, e')" "op = Concat" | "e' = Binary i t op l r"
    using assms(1) by (cases op) (auto simp: cf_binop_def)
  then show ?thesis
  proof cases
    case 1
    then show ?thesis using known_cf_binary assms by blast
  next
    case 2
    then show ?thesis using known_compare assms by blast
  next
    case 3
    then show ?thesis
      using assms by (auto simp: cf_LAnd_def const_side_def node_ok_new elim!: bind_resE split: option.splits if_splits)
  next
    case 4
    then show ?thesis
      using assms by (auto simp: cf_LOr_def const_side_def node_ok_new elim!: bind_resE split: option.splits if_splits)
  next
    case 5
    then show ?thesis
      using assms known_compare [of C i t Equ l r _ e']
      by (auto simp: cf_Equ_def mk_Unary_def node_ok_new elim!: bind_resE split: option.splits if_splits)
  next
    case 6
    then show ?thesis
      using assms by (auto simp: cf_shift_def Let_def elim!: bind_resE dest!: mk_Constant_known [OF assms(2)] split: option.splits if_splits)
  next
    case 7
    then show ?thesis
      using assms by (auto simp: cf_Concat_def elim!: bind_resE dest!: mk_Constant_known [OF assms(2)] split: option.splits)
  qed (use assms in auto)
qed

lemma known_Slice:
  assumes "cf_Slice C orig i t e0 e1 e2 = Inr (ds, e')" and "fresh C" and "node_ok C (Slice i t e0 e1 e2)"
    and "known C e0" "known C e1" "known C e2"
  shows "known C e'"
  using assms by (auto simp: cf_Slice_def elim!: bind_resE dest!: mk_Constant_known [OF assms(2)] split: option.splits if_splits)

lemma known_Cast:
  assumes "cf_Cast C orig i t e = Inr (ds, e')" and "fresh C" and "node_ok C (Cast i t e)" and "known C e"
  shows "known C e'"
proof -
  have clone: "known C y" if "getConstant C e = Inr (d, Some x)" "clone_constants x = Inr (d', y)" for d x d' y
    using that getConstant_known [OF assms(2,4)] clone_known(1) [OF assms(2)] by blast
  have bool: "known C y" if "cast_bool C i t e ct v = Inr (d, y)" for ct v d y
    using that assms(3,4) by (auto simp: cast_bool_def node_ok_new assms(2) elim!: bind_resE split: option.splits if_splits)
  have lit: "node_ok C (BoolLiteral j b)" if "getConstant C e = Inr (d, Some (BoolLiteral j b))" for d j b
    using getConstant_known [OF assms(2,4) that] by simp
  show ?thesis
    using assms clone bool lit
    by (auto simp: cf_Cast_def elim!: bind_resE dest!: mk_Constant_known [OF assms(2)] split: option.splits if_splits)
qed

lemma all_nodes_nth: "all_nodes_list P es \<Longrightarrow> k < length es \<Longrightarrow> all_nodes P (es ! k)"
  by (induction es arbitrary: k) (auto simp: nth_Cons split: nat.split)

lemma all_nodes_map_of: "all_nodes_fields P fs \<Longrightarrow> map_of fs f = Some x \<Longrightarrow> all_nodes P x"
  by (induction fs) (auto split: if_splits)

lemma known_Member:
  assumes "cf_Member C orig oe i t e f = Inr (ds, e')" and "fresh C" and "node_ok C (Member i t e f)" and "known C e"
  shows "known C e'"
proof -
  have lst: "known C y" if "getConstant C e = Inr (d, Some (ListExpression j u es))" "k < length es" "clone_constants (es ! k) = Inr (d', y)"
    for d j u es k d' y
    using that getConstant_known [OF assms(2,4) that(1)] clone_known(1) [OF assms(2)] all_nodes_nth by fastforce
  have str: "known C y" if "getConstant C e = Inr (d, Some (StructInitializer j u fs))" "map_of fs f = Some x" "clone_constants x = Inr (d', y)"
    for d j u fs x d' y
    using that getConstant_known [OF assms(2,4) that(1)] clone_known(1) [OF assms(2)] all_nodes_map_of by fastforce
  show ?thesis
    using assms lst str
    by (auto simp: cf_Member_def elim!: bind_resE dest!: mk_Constant_known [OF assms(2)] split: option.splits if_splits)
qed

section \<open>The pass keeps the value\<close>

text \<open>
  The recorded constants have the values of the variables they are declared as, and the type map has
  the type of every node of the program.
\<close>

definition consts_ok :: "cf_state \<Rightarrow> env \<Rightarrow> bool" where
  "consts_ok C E \<longleftrightarrow>
     (\<forall>m x d cst. refMap C = Some m \<and> m x = Some (Const_decl d) \<and> constants C d = Some cst \<longrightarrow>
        known C cst \<and> (\<exists>ds c. getConstant C cst = Inr (ds, Some c)) \<and> \<not> is_type_name cst \<and>
        (\<forall>v. var E x = Some v \<longrightarrow> eval E cst = Some v))"

definition in_map :: "cf_state \<Rightarrow> expr \<Rightarrow> bool" where
  "in_map C e \<longleftrightarrow> (typesKnown C \<longrightarrow> getType C (nid_of e) = Some (type_of e))"

lemma in_map_node_ok: "fresh C \<Longrightarrow> in_map C e \<Longrightarrow> node_ok C e"
  by (auto simp: in_map_def node_ok_def fresh_def)

abbreviation mapped :: "cf_state \<Rightarrow> expr \<Rightarrow> bool" where
  "mapped C \<equiv> all_nodes (in_map C)"

text \<open>A list of values keeps its type, or has become a constant.\<close>

definition same_type :: "cf_state \<Rightarrow> env \<Rightarrow> expr \<Rightarrow> expr \<Rightarrow> bool" where
  "same_type C E e e' \<longleftrightarrow> (\<forall>vs. eval E e = Some (VList vs) \<longrightarrow>
     type_of e' = type_of e \<or> typesKnown C \<and> (\<exists>d c. getConstant C e' = Inr (d, Some c)))"

lemma scalar_result:
  "unop_val uop u \<noteq> Some (VList vs)" "cast_val t u \<noteq> Some (VList vs)" "slice_val u h l \<noteq> Some (VList vs)"
  "binop_val op u v \<noteq> Some (VList vs)"
proof -
  show "unop_val uop u \<noteq> Some (VList vs)" by (cases uop; cases u) (simp_all add: unop_val_def)
  show "cast_val t u \<noteq> Some (VList vs)" by (cases t; cases u) (simp_all add: cast_val_def)
  show "slice_val u h l \<noteq> Some (VList vs)" by (cases u) (simp_all add: slice_val_def)
  show "binop_val op u v \<noteq> Some (VList vs)"
    by (cases u; cases v)
       (auto simp: binop_val_def shift_val_def concat_val_def bits_val_def int_val_def eq_val_def split: option.splits if_splits bool.splits)
qed

lemma no_list [simp]:
  "same_type C E (Unary i t uop e) e'" "same_type C E (Cast i t e) e'" "same_type C E (Slice i t e0 e1 e2) e'"
  "same_type C E (Binary i t op l r) e'"
proof -
  show "same_type C E (Binary i t op l r) e'"
    by (cases "op = LAnd \<or> op = LOr")
       (auto simp: same_type_def scalar_result eval_LAnd eval_LOr eval_strict bind_eq_Some_conv simp del: eval.simps)
qed (auto simp: same_type_def scalar_result bind_eq_Some_conv)

lemma all_constant_nth:
  "all_constant C es = Inr (d, True) \<Longrightarrow> k < length es \<Longrightarrow> \<exists>d c. getConstant C (es ! k) = Inr (d, Some c)"
  by (induction es arbitrary: d k) (auto elim!: bind_resE split: if_splits simp: nth_Cons split: nat.splits)

lemma all_constant_map_of:
  "all_constant_fields C fs = Inr (d, True) \<Longrightarrow> map_of fs f = Some x \<Longrightarrow> \<exists>d c. getConstant C x = Inr (d, Some c)"
  by (induction fs arbitrary: d) (auto elim!: bind_resE split: if_splits)

lemma getConstant_component:
  "getConstant C e = Inr (d, Some (ListExpression j u es)) \<Longrightarrow> k < length es \<Longrightarrow> clone_constants (es ! k) = Inr (ds, y) \<Longrightarrow>
     \<exists>d c. getConstant C y = Inr (d, Some c)"
  "getConstant C e = Inr (d, Some (StructInitializer j u fs)) \<Longrightarrow> map_of fs f = Some x \<Longrightarrow> clone_constants x = Inr (ds, y) \<Longrightarrow>
     \<exists>d c. getConstant C y = Inr (d, Some c)"
proof -
  assume g: "getConstant C e = Inr (d, Some (ListExpression j u es))" and k: "k < length es" and y: "clone_constants (es ! k) = Inr (ds, y)"
  have "\<exists>d. all_constant C es = Inr (d, True)" using getConstant_atom(3) [OF g] g by (auto elim!: bind_resE split: if_splits)
  then show "\<exists>d c. getConstant C y = Inr (d, Some c)" using all_constant_nth [OF _ k] getConstant_clone(1) [OF _ y] by blast
next
  assume g: "getConstant C e = Inr (d, Some (StructInitializer j u fs))" and f: "map_of fs f = Some x" and y: "clone_constants x = Inr (ds, y)"
  have "\<exists>d. all_constant_fields C fs = Inr (d, True)" using getConstant_atom(4) [OF g] g by (auto elim!: bind_resE split: if_splits)
  then show "\<exists>d c. getConstant C y = Inr (d, Some c)" using all_constant_map_of [OF _ f] getConstant_clone(1) [OF _ y] by blast
qed

lemma Member_type:
  assumes "cf_Member C orig oe i t e f = Inr (ds, r)"
  shows "type_of r = t \<or> typesKnown C \<and> (\<exists>d c. getConstant C r = Inr (d, Some c))"
proof -
  have k: "typesKnown C \<or> r = Member i t e f" using assms by (auto simp: cf_Member_def split: if_splits)
  consider "r = Member i t e f" | b ot n nw d where "mk_Constant ot n b nw = Inr (d, r)"
    | d j u es n ds where "getConstant C e = Inr (d, Some (ListExpression j u es))" "n < length es" "clone_constants (es ! n) = Inr (ds, r)"
    | d j u fs x ds where "getConstant C e = Inr (d, Some (StructInitializer j u fs))" "map_of fs f = Some x" "clone_constants x = Inr (ds, r)"
    using assms by (auto simp: cf_Member_def elim!: bind_resE split: option.splits if_splits)
  then show ?thesis
    using k by cases (auto dest!: mk_Constant_Inr getConstant_component)
qed

definition folds :: "cf_state \<Rightarrow> env \<Rightarrow> expr \<Rightarrow> expr \<Rightarrow> bool" where
  "folds C E e e' \<longleftrightarrow> known C e' \<and> (is_type_name e \<longrightarrow> is_type_name e') \<and> keeps E e e' \<and> same_type C E e e'"

lemma foldsD:
  assumes "folds C E e e'"
  shows "known C e'" "keeps E e e'" "same_type C E e e'" "is_type_name e \<Longrightarrow> is_type_name e'"
  using assms by (auto simp: folds_def)

lemma foldsI:
  "known C e' \<Longrightarrow> \<not> is_type_name e \<Longrightarrow> keeps E e e' \<Longrightarrow> same_type C E e e' \<Longrightarrow> folds C E e e'"
  by (simp add: folds_def)

lemma keeps_trans: "keeps E a b \<Longrightarrow> keeps E b c \<Longrightarrow> keeps E a c"
  by (simp add: keeps_def)

lemma keeps_cong:
  "keeps E e e' \<Longrightarrow> keeps E (Unary i t uop e) (Unary j t uop e')"
  "keeps E e e' \<Longrightarrow> keeps E (Cast i t e) (Cast j t e')"
  "keeps E l l' \<Longrightarrow> keeps E r r' \<Longrightarrow> keeps E (Binary i t op l r) (Binary j t op l' r')"
  "keeps E e0 e0' \<Longrightarrow> keeps E (Slice i t e0 e1 e2) (Slice j t e0' e1 e2)"
  "keeps E e0 e0' \<Longrightarrow> keeps E e1 e1' \<Longrightarrow> keeps E e2 e2' \<Longrightarrow> keeps E (Mux i t e0 e1 e2) (Mux j t e0' e1' e2')"
proof -
  assume "keeps E l l'" "keeps E r r'"
  then show "keeps E (Binary i t op l r) (Binary j t op l' r')" unfolding keeps_def using eval_Binary_mono by blast
next
  assume "keeps E e0 e0'" "keeps E e1 e1'" "keeps E e2 e2'"
  then show "keeps E (Mux i t e0 e1 e2) (Mux j t e0' e1' e2')" unfolding keeps_def eval_Mux by blast
qed (auto simp: keeps_def bind_eq_Some_conv)

lemma not_type_name [simp]:
  "\<not> is_type_name (Unary i t uop e)" "\<not> is_type_name (Cast i t e)" "\<not> is_type_name (Binary i t op l r)"
  "\<not> is_type_name (Slice i t e0 e1 e2)" "\<not> is_type_name (Mux i t e0 e1 e2)" "\<not> is_type_name (Member i t e f)"
  "\<not> is_type_name (PathExpression i t x)" "\<not> is_type_name (ListExpression i t es)" "\<not> is_type_name (StructInitializer i t fs)"
  "\<not> is_type_name (MethodCall i t m es)"
  by (simp_all add: is_type_name_def)

lemma keeps_binop:
  assumes "cf_binop C i t op l r = Inr (ds, e')" and "known C l" and "known C r"
    and "gmp_ok (cf_gmp C)" and "quiet ds" and "env_ok E"
  shows "keeps E (Binary i t op l r) e'"
proof -
  consider "op = LAnd" | "op = LOr" | "op = Equ" | "op = Neq" | "op = Shl \<or> op = Shr" | "op = Concat"
    | "op \<in> {ArrayIndex, Range, Mask}" "e' = Binary i t op l r"
    | "op \<notin> {Shl, Shr, Concat, LAnd, LOr}" "cf_binary C i t op l r = Inr (ds, e')"
    using assms(1) by (cases op) (auto simp: cf_binop_def)
  then show ?thesis
  proof cases
    case 1
    then show ?thesis using keeps_LAnd assms(1) by (simp add: cf_binop_def)
  next
    case 2
    then show ?thesis using keeps_LOr assms(1) by (simp add: cf_binop_def)
  next
    case 3
    then show ?thesis using keeps_Equ assms(1-3) by (simp add: cf_binop_def)
  next
    case 4
    then have "compare C i t Neq l r = Inr (ds, e')" using assms(1) by (simp add: cf_binop_def)
    then show ?thesis using keeps_compare(1) [of Neq] assms(2,3) 4 unfolding keeps_def by blast
  next
    case 5
    then show ?thesis using keeps_shift [of C i t op l r ds e' E] assms by (auto simp: cf_binop_def)
  next
    case 6
    then show ?thesis using keeps_Concat assms(1) by (simp add: cf_binop_def)
  next
    case 8
    then show ?thesis using keeps_binary by blast
  qed simp
qed

lemma folds_Path:
  assumes "cf_PathExpression C i t x = Inr (ds, e')" and "fresh C" and "consts_ok C E" and "node_ok C (PathExpression i t x)"
  shows "folds C E (PathExpression i t x) e'"
proof (cases "e' = PathExpression i t x")
  case True
  then show ?thesis using assms by (auto simp: folds_def same_type_def)
next
  case False
  then obtain m d cst where c: "refMap C = Some m" "m x = Some (Const_decl d)" "constants C d = Some cst"
      "(\<forall>i t es. cst \<noteq> ListExpression i t es) \<or> typesKnown C" "clone_constants cst = Inr (ds, e')"
    using assms(1) by (auto simp: cf_PathExpression_def split: option.splits decl_ref.splits if_splits)
  then have cst: "known C cst" "\<exists>ds c. getConstant C cst = Inr (ds, Some c)"
      "\<And>v. var E x = Some v \<Longrightarrow> eval E cst = Some v"
    using assms(3) unfolding consts_ok_def by blast+
  have "typesKnown C \<or> eval E cst \<noteq> Some (VList vs)" for vs
    using c(4) cst(2) by (cases cst) (auto simp: bind_eq_Some_conv scalar_result const_val_Some)
  then have "typesKnown C" if "eval E (PathExpression i t x) = Some (VList vs)" for vs
    using that cst(3) by (auto simp: bind_eq_Some_conv typed_val_def split: if_splits)
  then have "same_type C E (PathExpression i t x) e'"
    using cst(2) getConstant_clone(1) [OF _ c(5)] unfolding same_type_def by blast
  moreover have "keeps E (PathExpression i t x) e'"
    using cst(3) clone_keeps [OF c(5)] by (auto simp: keeps_def bind_eq_Some_conv typed_val_def split: if_splits)
  moreover have "known C e'" using clone_known(1) [OF assms(2) cst(1) c(5)] .
  ultimately show ?thesis by (simp add: folds_def)
qed

lemma folds_Mux:
  assumes "cf_Mux C (kept b i) t x0 x1 x2 = Inr (ds, e')" and "fresh C" and "node_ok C (Mux i t e0 e1 e2)"
    and f: "folds C E e0 x0" "folds C E e1 x1" "folds C E e2 x2" and "type_of e1 = t" "type_of e2 = t"
  shows "folds C E (Mux i t e0 e1 e2) e'"
proof -
  consider "e' = Mux (kept b i) t x0 x1 x2" | j v where "x0 = BoolLiteral j v" "e' = (if v then x1 else x2)"
    using assms(1) by (auto simp: cf_Mux_def elim!: bind_resE dest!: getConstant_atom split: option.splits)
  then show ?thesis
  proof cases
    case 1
    then show ?thesis
      using keeps_cong(5) foldsD(2) [OF f(1)] foldsD(2) [OF f(2)] foldsD(2) [OF f(3)] foldsD(1) f node_ok_kept(5) [OF assms(3)]
      by (auto simp: folds_def same_type_def)
  next
    case 2
    have "keeps E (Mux i t e0 e1 e2) e'"
      using foldsD(2) [OF f(1)] foldsD(2) [OF f(2)] foldsD(2) [OF f(3)] 2 unfolding keeps_def eval_Mux by fastforce
    moreover have "same_type C E (Mux i t e0 e1 e2) e'"
      unfolding same_type_def
    proof (intro allI impI)
      fix vs assume v: "eval E (Mux i t e0 e1 e2) = Some (VList vs)"
      then have "v \<and> eval E e1 = Some (VList vs) \<or> \<not> v \<and> eval E e2 = Some (VList vs)"
        using foldsD(2) [OF f(1)] 2(1) unfolding keeps_def eval_Mux by fastforce
      then show "type_of e' = type_of (Mux i t e0 e1 e2) \<or> typesKnown C \<and> (\<exists>d c. getConstant C e' = Inr (d, Some c))"
        using foldsD(3) [OF f(2)] foldsD(3) [OF f(3)] 2(2) assms(7,8) unfolding same_type_def by fastforce
    qed
    ultimately show ?thesis using foldsD(1) [OF f(2)] foldsD(1) [OF f(3)] 2(2) by (simp add: folds_def)
  qed
qed

lemma slice_ty_result: "slice_ty u h l = Some t \<Longrightarrow> t = Type_Bits (nat (h - l + 1)) False"
  by (cases u) (auto simp: slice_ty_def split: if_splits)

lemma cf_folds:
  assumes "gmp_ok (cf_gmp C)" and "env_ok E" and "fresh C" and "consts_ok C E"
  shows "annotated e \<or> is_type_name e \<Longrightarrow> mapped C e \<Longrightarrow> cf C e = Inr (ds, e') \<Longrightarrow> quiet ds \<Longrightarrow> folds C E e e'"
    and "annotated_list es \<Longrightarrow> all_nodes_list (in_map C) es \<Longrightarrow> cf_list C es = Inr (ds, es') \<Longrightarrow> quiet ds \<Longrightarrow>
      known_list C es' \<and> length es' = length es \<and> (\<forall>vs. evals E es = Some vs \<longrightarrow> evals E es' = Some vs)"
    and "annotated_fields fs \<Longrightarrow> all_nodes_fields (in_map C) fs \<Longrightarrow> cf_fields C fs = Inr (ds, fs') \<Longrightarrow> quiet ds \<Longrightarrow>
      all_nodes_fields (node_ok C) fs' \<and> (\<forall>vs. eval_fields E fs = Some vs \<longrightarrow> eval_fields E fs' = Some vs)"
  using assms
proof (induction C e and C es and C fs arbitrary: ds e' and ds es' and ds fs' rule: cf_cf_list_cf_fields.induct)
  case (1 C i t x)
  then show ?case using folds_Path in_map_node_ok by simp
next
  case (2 C i t op e)
  obtain x d1 d2 where s: "cf C e = Inr (d1, x)" "ds = d1 @ d2" "cf_unary C (kept (x = e) i) t op x = Inr (d2, e')"
    using "2.prems"(3) by (auto elim!: bind_resE)
  have ih: "folds C E e x" using "2.IH" [OF _ _ s(1)] "2.prems" s(2) by simp
  have n: "node_ok C (Unary i t op e)" using "2.prems"(2,7) in_map_node_ok by simp
  show ?case
    using known_unary [OF s(3) "2.prems"(7) node_ok_kept(1) [OF n] foldsD(1) [OF ih]]
      keeps_trans [OF keeps_cong(1) [OF foldsD(2) [OF ih]] keeps_unary [OF s(3)]]
    by (simp add: foldsI)
next
  case (3 C i t e)
  obtain x d1 d2 where s: "cf C e = Inr (d1, x)" "ds = d1 @ d2" "cf_Cast C i (kept (x = e) i) t x = Inr (d2, e')"
    using "3.prems"(3) by (auto elim!: bind_resE)
  have ih: "folds C E e x" using "3.IH" [OF _ _ s(1)] "3.prems" s(2) by simp
  have n: "node_ok C (Cast i t e)" "typesKnown C \<longrightarrow> getType C i = Some t"
    using "3.prems"(2,7) in_map_node_ok by (simp_all add: in_map_def)
  show ?case
    using known_Cast [OF s(3) "3.prems"(7) node_ok_kept(2) [OF n(1)] foldsD(1) [OF ih]]
      keeps_trans [OF keeps_cong(2) [OF foldsD(2) [OF ih]] keeps_Cast [OF s(3) "3.prems"(5) n(2) "3.prems"(6)]]
    by (simp add: foldsI)
next
  case (4 C i t op l r)
  obtain x y d1 d2 d3 where s: "cf C l = Inr (d1, x)" "cf C r = Inr (d2, y)" "ds = d1 @ d2 @ d3"
      "cf_binop C (kept (x = l \<and> y = r) i) t op x y = Inr (d3, e')"
    using "4.prems"(3) by (auto elim!: bind_resE)
  have q: "quiet d1" "quiet d2" "quiet d3" using "4.prems"(4) s(3) by simp_all
  have ih: "folds C E l x" using "4.IH"(1) [OF _ _ s(1) q(1)] "4.prems" by simp
  have ih': "folds C E r y" using "4.IH"(2) [OF _ _ s(2) q(2)] "4.prems" by simp
  have n: "node_ok C (Binary i t op l r)" using "4.prems"(2,7) in_map_node_ok by simp
  show ?case
    using known_binop [OF s(4) "4.prems"(7) node_ok_kept(3) [OF n] foldsD(1) [OF ih] foldsD(1) [OF ih']]
      keeps_trans [OF keeps_cong(3) [OF foldsD(2) [OF ih] foldsD(2) [OF ih']]
        keeps_binop [OF s(4) foldsD(1) [OF ih] foldsD(1) [OF ih'] "4.prems"(5) q(3) "4.prems"(6)]]
    by (simp add: foldsI)
next
  case (5 C i t e0 e1 e2)
  have a: "ty (Slice i t e0 e1 e2) = Some t" "annotated e0" using "5.prems"(1) by (simp_all add: ann_def)
  then obtain h l where b: "bound_of e1 = Some h" "bound_of e2 = Some l" "t = Type_Bits (nat (h - l + 1)) False"
    using slice_ty_result by (auto simp: bind_eq_Some_conv)
  then obtain j1 u1 b1 j2 u2 b2 where c: "e1 = Constant j1 u1 h b1" "e2 = Constant j2 u2 l b2"
    by (cases e1; cases e2) (auto simp: bound_of_def split: if_splits)
  then obtain x d1 d3 where s: "cf C e0 = Inr (d1, x)" "ds = d1 @ d3"
      "cf_Slice C i (kept (x = e0 \<and> e1 = e1 \<and> e2 = e2) i) t x e1 e2 = Inr (d3, e')"
    using "5.prems"(3) by (auto elim!: bind_resE)
  have ih: "folds C E e0 x" using "5.IH"(1) [OF _ _ s(1)] "5.prems" s(2) by simp
  have n: "node_ok C (Slice i t e0 e1 e2)" "typesKnown C \<longrightarrow> getType C i = Some t" "known C e1" "known C e2"
    using "5.prems"(2,7) in_map_node_ok c by (simp_all add: in_map_def)
  show ?case
    using known_Slice [OF s(3) "5.prems"(7) node_ok_kept(4) [OF n(1)] foldsD(1) [OF ih] n(3,4)]
      keeps_trans [OF keeps_cong(4) [OF foldsD(2) [OF ih]] keeps_Slice [OF s(3) "5.prems"(5) n(2) b]]
    by (simp add: foldsI)
next
  case (6 C i t e0 e1 e2)
  obtain x0 x1 x2 d0 d1 d2 d3 where s: "cf C e0 = Inr (d0, x0)" "cf C e1 = Inr (d1, x1)" "cf C e2 = Inr (d2, x2)"
      "ds = d0 @ d1 @ d2 @ d3" "cf_Mux C (kept (x0 = e0 \<and> x1 = e1 \<and> x2 = e2) i) t x0 x1 x2 = Inr (d3, e')"
    using "6.prems"(3) by (auto elim!: bind_resE)
  have q: "quiet d0" "quiet d1" "quiet d2" using "6.prems"(4) s(4) by simp_all
  have ih: "folds C E e0 x0" using "6.IH"(1) [OF _ _ s(1) q(1)] "6.prems" by simp
  have ih1: "folds C E e1 x1" using "6.IH"(2) [OF _ _ s(2) q(2)] "6.prems" by simp
  have ih2: "folds C E e2 x2" using "6.IH"(3) [OF _ _ s(3) q(3)] "6.prems" by simp
  have n: "node_ok C (Mux i t e0 e1 e2)" using "6.prems"(2,7) in_map_node_ok by simp
  have "type_of e1 = t" "type_of e2 = t"
    using "6.prems"(1) annotated_ann [of e1] annotated_ann [of e2] by (auto simp: ann_def split: if_splits)
  then show ?case using folds_Mux [OF s(5) "6.prems"(7) n ih ih1 ih2] by simp
next
  case (7 C i t e f)
  obtain x d1 d2 where s: "cf C e = Inr (d1, x)" "ds = d1 @ d2" "cf_Member C i (nid_of e) (kept (x = e) i) t x f = Inr (d2, e')"
    using "7.prems"(3) by (auto elim!: bind_resE)
  have a: "annotated e \<or> is_type_name e" using "7.prems"(1) by auto
  have ih: "folds C E e x" using "7.IH" [OF a _ s(1)] "7.prems" s(2) by simp
  have "in_map C e" using "7.prems"(2) by (cases e) auto
  then have n: "node_ok C (Member i t e f)" "typesKnown C \<longrightarrow> getType C i = Some t \<and> getType C (nid_of e) = Some (type_of e)"
    using "7.prems"(2,7) in_map_node_ok by (simp_all add: in_map_def)
  have type: "has_type u (type_of e)" if "eval E e = Some u" for u
  proof -
    have "annotated e" using a that by (cases e) (auto simp: is_type_name_def)
    then show ?thesis using eval_type [OF that] annotated_ann [of e] by (simp add: ann_def)
  qed
  have "keeps E (Member i t e f) e'"
    using keeps_Member [OF s(3) n(2) foldsD(2,4) [OF ih] _ type, of i] foldsD(3) [OF ih] unfolding keeps_def same_type_def by blast
  moreover have "same_type C E (Member i t e f) e'" using Member_type [OF s(3)] by (simp add: same_type_def)
  ultimately show ?case
    using known_Member [OF s(3) "7.prems"(7) node_ok_kept(6) [OF n(1)] foldsD(1) [OF ih]] by (simp add: foldsI)
next
  case (8 C i t es)
  obtain x where s: "cf_list C es = Inr (ds, x)" "e' = ListExpression (kept (x = es) i) t x"
    using "8.prems"(3) by (auto elim!: bind_resE)
  have n: "node_ok C (ListExpression i t es)" using "8.prems"(2,7) in_map_node_ok by simp
  show ?case using "8.IH" [OF _ _ s(1)] "8.prems" s(2) node_ok_kept(7) [OF n]
    by (auto simp: folds_def same_type_def keeps_def bind_eq_Some_conv)
next
  case (9 C i t fs)
  obtain x where s: "cf_fields C fs = Inr (ds, x)" "e' = StructInitializer (kept (x = fs) i) t x"
    using "9.prems"(3) by (auto elim!: bind_resE)
  have n: "node_ok C (StructInitializer i t fs)" using "9.prems"(2,7) in_map_node_ok by simp
  show ?case using "9.IH" [OF _ _ s(1)] "9.prems" s(2) node_ok_kept(8) [OF n]
    by (auto simp: folds_def same_type_def keeps_def bind_eq_Some_conv)
next
  case (10 C i t m es)
  obtain x where s: "cf_list C es = Inr (ds, x)" "e' = MethodCall (kept (x = es) i) t m x"
    using "10.prems"(3) by (auto elim!: bind_resE)
  have n: "node_ok C (MethodCall i t m es)" using "10.prems"(2,7) in_map_node_ok by simp
  show ?case using "10.IH" [OF _ _ s(1)] "10.prems" s(2) node_ok_kept(9) [OF n]
    by (auto simp: folds_def same_type_def keeps_def bind_eq_Some_conv)
next
  case (13 C e es)
  obtain x xs d1 d2 where s: "cf C e = Inr (d1, x)" "cf_list C es = Inr (d2, xs)" "ds = d1 @ d2" "es' = x # xs"
    using "13.prems"(3) by (auto elim!: bind_resE)
  have q: "quiet d1" "quiet d2" using "13.prems"(4) s(3) by simp_all
  have "folds C E e x" using "13.IH"(1) [OF _ _ s(1) q(1)] "13.prems" by simp
  moreover note "13.IH"(2) [OF _ _ s(2) q(2)]
  ultimately show ?case using "13.prems" s(4) by (auto simp: folds_def keeps_def bind_eq_Some_conv)
next
  case (15 C f e fs)
  obtain x xs d1 d2 where s: "cf C e = Inr (d1, x)" "cf_fields C fs = Inr (d2, xs)" "ds = d1 @ d2" "fs' = (f, x) # xs"
    using "15.prems"(3) by (auto elim!: bind_resE)
  have q: "quiet d1" "quiet d2" using "15.prems"(4) s(3) by simp_all
  have "folds C E e x" using "15.IH"(1) [OF _ _ s(1) q(1)] "15.prems" by simp
  moreover note "15.IH"(2) [OF _ _ s(2) q(2)]
  ultimately show ?case using "15.prems" s(4) by (auto simp: folds_def keeps_def bind_eq_Some_conv)
qed (auto simp: folds_def same_type_def in_map_node_ok)

end
