(* ===== verification/Constant_Folding_Literals.thy ===== *)
theory Constant_Folding_Literals
  imports Constant_Folding
begin

text \<open>
  Constant folding of expressions over literals: without type information the pass reduces every well
  typed expression over literals to a literal of its type.
\<close>

section \<open>Expressions over literals\<close>

definition literal :: "ptype \<Rightarrow> expr \<Rightarrow> bool" where
  "literal t e \<longleftrightarrow>
     (\<exists>i v b. e = Constant i t v b \<and> const_val t v \<noteq> None) \<or> t = Type_Boolean \<and> (\<exists>i b. e = BoolLiteral i b)"




lemma literal_Bool [simp]: "literal Type_Boolean (BoolLiteral i b)"
  by (simp add: literal_def)













section \<open>Properties\<close>













end
