(* ===== verification/Constant_Folding_Program.thy ===== *)
theory Constant_Folding_Program
  imports Constant_Folding
begin

text \<open>
  Constant folding above expressions: the sizes of types, declarations of constants, select expressions
  and conditionals, with the meaning of a select expression and of statements.
\<close>

unbundle bit_operations_syntax

section \<open>Sizes of types\<close>

text \<open>A type whose size is written as an expression; the size is an \<open>int\<close>.\<close>

record sized_type =
  type_size :: int
  type_isSigned :: bool
  type_expression :: "expr option"

definition cf_Type_Bits :: "gmp \<Rightarrow> sized_type \<Rightarrow> sized_type res" where
  "cf_Type_Bits G t =
     (case type_expression t of
        None \<Rightarrow> ok t
      | Some e \<Rightarrow>
          (case to_Constant e of
             None \<Rightarrow> report (Err ''Expected to evaluate to a constant'') t
           | Some (ct, v, b) \<Rightarrow>
               bind_res (Inr (asInt G v)) (\<lambda>k.
               bind_res (if k \<le> 0 then report (Err ''Invalid type size'') 64 else ok k) (\<lambda>sz.
               bind_res (if sz = 1 \<and> type_isSigned t then report (Err ''Invalid signed type which is 1-bit wide'') () else ok ()) (\<lambda>_.
                 ok (t\<lparr>type_size := sz, type_expression := None\<rparr>))))))"

definition cf_Type_Varbits :: "gmp \<Rightarrow> sized_type \<Rightarrow> sized_type res" where
  "cf_Type_Varbits G t =
     (case type_expression t of
        None \<Rightarrow> ok t
      | Some e \<Rightarrow>
          (case to_Constant e of
             None \<Rightarrow> report (Err ''Expected to evaluate to a constant'') t
           | Some (ct, v, b) \<Rightarrow>
               bind_res (Inr (asInt G v)) (\<lambda>k.
               bind_res (if k \<le> 0 then report (Err ''Invalid type size'') () else ok ()) (\<lambda>_.
                 ok (t\<lparr>type_size := k, type_expression := None\<rparr>)))))"

section \<open>Declarations of constants\<close>

record decl_const =
  dc_name :: string
  dc_type :: ptype
  dc_init :: expr

text \<open>\<open>emplace\<close> keeps an entry that is there already.\<close>

definition emplace_constant :: "cf_state \<Rightarrow> string \<Rightarrow> expr \<Rightarrow> cf_state" where
  "emplace_constant C d c = (if constants C d = None then C\<lparr>constants := (constants C)(d \<mapsto> c)\<rparr> else C)"




section \<open>Select expressions\<close>

datatype Result = Yes | No | DontKnow

definition to_BoolResult :: "bool \<Rightarrow> Result" where
  "to_BoolResult b = (if b then Yes else No)"

definition to_Range :: "expr \<Rightarrow> (expr \<times> expr) option" where
  "to_Range e = (case e of Binary i t op l r \<Rightarrow> if op = Range then Some (l, r) else None | _ \<Rightarrow> None)"

definition to_Mask :: "expr \<Rightarrow> (expr \<times> expr) option" where
  "to_Mask e = (case e of Binary i t op l r \<Rightarrow> if op = Mask then Some (l, r) else None | _ \<Rightarrow> None)"

definition is_Default :: "expr \<Rightarrow> bool" where
  "is_Default e = (case e of DefaultExpression i \<Rightarrow> True | _ \<Rightarrow> False)"

text \<open>The two operands of a range or a mask; an operand that is no integer constant is a null pointer.\<close>

definition set_operands :: "cf_state \<Rightarrow> expr \<Rightarrow> expr \<Rightarrow> (int \<Rightarrow> int \<Rightarrow> bool) \<Rightarrow> Result res" where
  "set_operands C l r f =
     bind_res (getConstant C l) (\<lambda>left.
       if left = None then report (Err ''expression must evaluate to a constant'') DontKnow
       else bind_res (getConstant C r) (\<lambda>right.
         if right = None then report (Err ''expression must evaluate to a constant'') DontKnow
         else
           case (to_Constant (the left), to_Constant (the right)) of
             (Some (lt, lv, lb), Some (rt, rv, rb)) \<Rightarrow> ok (to_BoolResult (f lv rv))
           | _ \<Rightarrow> Inl UndefinedBehaviour))"

text \<open>\<open>setContains\<close> for a selector that is no list.\<close>

definition contains_atom :: "cf_state \<Rightarrow> expr \<Rightarrow> expr \<Rightarrow> Result res" where
  "contains_atom C keySet sel =
     (case to_BoolLiteral sel of
        Some b \<Rightarrow>
          bind_res (getConstant C keySet) (\<lambda>key.
            case key of
              None \<Rightarrow> Inl UndefinedBehaviour
            | Some k \<Rightarrow> (case to_BoolLiteral k of None \<Rightarrow> Inl BugCheck | Some b' \<Rightarrow> ok (to_BoolResult (b = b'))))
      | None \<Rightarrow>
          (case to_Constant sel of
             None \<Rightarrow> Inl BugCheck
           | Some (ct, cst, cb) \<Rightarrow>
               (case to_Constant keySet of
                  Some (kt, kv, kb) \<Rightarrow> ok (to_BoolResult (kv = cst))
                | None \<Rightarrow>
                    (case to_Range keySet of
                       Some (l, r) \<Rightarrow> set_operands C l r (\<lambda>lv rv. lv \<le> cst \<and> rv \<ge> cst)
                     | None \<Rightarrow>
                         (case to_Mask keySet of
                            Some (l, r) \<Rightarrow> set_operands C l r (\<lambda>lv rv. (lv AND rv) = (rv AND cst))
                          | None \<Rightarrow> report (Err ''unexpected expression'') DontKnow)))))"

function setContains :: "cf_state \<Rightarrow> expr \<Rightarrow> expr \<Rightarrow> Result res"
  and setContains_list :: "cf_state \<Rightarrow> expr list \<Rightarrow> expr list \<Rightarrow> Result res" where
  "setContains C keySet sel =
     (if is_Default keySet then ok Yes
      else
        case to_List sel of
          Some es \<Rightarrow>
            (case to_List keySet of
               Some ks \<Rightarrow> if length es = length ks then setContains_list C ks es else Inl BugCheck
             | None \<Rightarrow>
                 (case es of [e] \<Rightarrow> setContains C keySet e | _ \<Rightarrow> Inl BugCheck))
        | None \<Rightarrow> contains_atom C keySet sel)"
| "setContains_list C (k # ks) (e # es) =
     bind_res (setContains C k e) (\<lambda>r. if r = Yes then setContains_list C ks es else ok r)"
| "setContains_list C [] es = ok Yes"
| "setContains_list C (k # ks) [] = ok Yes"
  by pat_completeness auto
termination
  by (relation "measure (\<lambda>x. case x of Inl (C, k, e) \<Rightarrow> 2 * size e | Inr (C, ks, es) \<Rightarrow> 2 * size_list size es + 1)") auto

declare setContains.simps [simp del]

text \<open>The loop over the cases of a select expression.\<close>

record select_state =
  sel_cases :: "(expr \<times> string) list"
  someUnknown :: bool
  changes :: bool
  finished :: bool
  sel_result :: "string option"

definition select_step :: "cf_state \<Rightarrow> expr \<Rightarrow> expr \<times> string \<Rightarrow> select_state \<Rightarrow> select_state res" where
  "select_step C sel c s =
     (if finished s then Inr (if warnings C then [Warn ''unreachable case''] else [], s)
      else
        bind_res (setContains C (fst c) sel) (\<lambda>inside.
          case inside of
            No \<Rightarrow> ok (s\<lparr>changes := True\<rparr>)
          | DontKnow \<Rightarrow> ok (s\<lparr>someUnknown := True, sel_cases := sel_cases s @ [c]\<rparr>)
          | Yes \<Rightarrow>
              ok (if someUnknown s
                  then s\<lparr>changes := True, finished := True, sel_cases := sel_cases s @ [(DefaultExpression 0, snd c)]\<rparr>
                  else s\<lparr>changes := True, finished := True, sel_result := Some (snd c)\<rparr>)))"

fun select_loop :: "cf_state \<Rightarrow> expr \<Rightarrow> (expr \<times> string) list \<Rightarrow> select_state \<Rightarrow> select_state res" where
  "select_loop C sel [] s = ok s"
| "select_loop C sel (c # cs) s = bind_res (select_step C sel c s) (select_loop C sel cs)"

datatype select = Select_state string | Select_cases expr "(expr \<times> string) list"

definition cf_SelectExpression :: "cf_state \<Rightarrow> expr \<Rightarrow> (expr \<times> string) list \<Rightarrow> select res" where
  "cf_SelectExpression C sel cases =
     (if \<not> typesKnown C then ok (Select_cases sel cases)
      else
        bind_res (getConstant C sel) (\<lambda>c.
          case c of
            None \<Rightarrow> ok (Select_cases sel cases)
          | Some k \<Rightarrow>
              bind_res (select_loop C k cases \<lparr>sel_cases = [], someUnknown = False, changes = False, finished = False, sel_result = None\<rparr>) (\<lambda>s.
              bind_res (Inr (if changes s \<and> sel_cases s = [] \<and> sel_result s = None \<and> warnings C then [Warn ''no case matches''] else [], ())) (\<lambda>_.
                ok (case sel_result s of
                      Some st \<Rightarrow> Select_state st
                    | None \<Rightarrow> Select_cases sel (if changes s then sel_cases s else cases))))))"

section \<open>Statements\<close>

datatype stmt =
    EmptyStatement
  | AssignmentStatement string expr
  | IfStatement expr stmt "stmt option"
  | BlockStatement "stmt list"



section \<open>The meaning of a select expression\<close>

definition ints_of :: "env \<Rightarrow> expr \<Rightarrow> expr \<Rightarrow> val \<Rightarrow> (int \<times> int \<times> int) option" where
  "ints_of E l r v =
     Option.bind (Option.bind (eval E l) int_of_val) (\<lambda>a. Option.bind (Option.bind (eval E r) int_of_val) (\<lambda>b.
       map_option (\<lambda>x. (a, b, x)) (int_of_val v)))"

definition match_atom :: "env \<Rightarrow> expr \<Rightarrow> val \<Rightarrow> bool option" where
  "match_atom E k v =
     (case to_Range k of
        Some (l, r) \<Rightarrow> map_option (\<lambda>(a, b, x). a \<le> x \<and> x \<le> b) (ints_of E l r v)
      | None \<Rightarrow>
          (case to_Mask k of
             Some (l, r) \<Rightarrow> map_option (\<lambda>(a, b, x). (a AND b) = (x AND b)) (ints_of E l r v)
           | None \<Rightarrow>
               Option.bind (eval E k) (\<lambda>u.
                 case (int_of_val u, int_of_val v) of (Some a, Some x) \<Rightarrow> Some (a = x) | _ \<Rightarrow> Some (u = v))))"

definition list_of :: "val \<Rightarrow> val list option" where
  "list_of v = (case v of VList vs \<Rightarrow> Some vs | _ \<Rightarrow> None)"

lemma list_of_Some [simp]: "list_of v = Some vs \<longleftrightarrow> v = VList vs"
  by (cases v) (auto simp: list_of_def)

text \<open>A key set matches a value; components are matched from left to right.\<close>

function key_matches :: "env \<Rightarrow> expr \<Rightarrow> val \<Rightarrow> bool option"
  and keys_match :: "env \<Rightarrow> expr list \<Rightarrow> val list \<Rightarrow> bool option" where
  "key_matches E k v =
     (if is_Default k then Some True
      else
        case list_of v of
          Some vs \<Rightarrow>
            (case to_List k of
               Some ks \<Rightarrow> if length vs = length ks then keys_match E ks vs else None
             | None \<Rightarrow> (case vs of [x] \<Rightarrow> key_matches E k x | _ \<Rightarrow> None))
        | None \<Rightarrow> match_atom E k v)"
| "keys_match E (k # ks) (v # vs) =
     (case key_matches E k v of None \<Rightarrow> None | Some b \<Rightarrow> if b then keys_match E ks vs else Some False)"
| "keys_match E [] vs = Some True"
| "keys_match E (k # ks) [] = Some True"
  by pat_completeness auto
termination
  by (relation "measure (\<lambda>x. case x of Inl (E, k, v) \<Rightarrow> 2 * size v | Inr (E, ks, vs) \<Rightarrow> 2 * size_list size vs + 1)") auto

declare key_matches.simps [simp del]

lemma default_matches [simp]: "key_matches E (DefaultExpression i) v = Some True"
  by (simp add: key_matches.simps is_Default_def)

text \<open>The state of the first case that matches.\<close>

fun select_val :: "env \<Rightarrow> val \<Rightarrow> (expr \<times> string) list \<Rightarrow> string option" where
  "select_val E v [] = None"
| "select_val E v (c # cs) =
     (case key_matches E (fst c) v of None \<Rightarrow> None | Some b \<Rightarrow> if b then Some (snd c) else select_val E v cs)"

definition select_meaning :: "env \<Rightarrow> select \<Rightarrow> string option" where
  "select_meaning E r =
     (case r of Select_state s \<Rightarrow> Some s | Select_cases e cs \<Rightarrow> Option.bind (eval E e) (\<lambda>v. select_val E v cs))"

lemma set_operands_eq:
  assumes "set_operands C l r f = Inr (ds, x)" and "x \<noteq> DontKnow"
  shows "\<exists>i t a b j u c d. l = Constant i t a b \<and> r = Constant j u c d \<and> x = to_BoolResult (f a c)"
  using assms
  by (auto simp: set_operands_def elim!: bind_resE dest!: getConstant_atom split: option.splits if_splits)

lemma const_int: "eval E (Constant i t v b) = Some u \<Longrightarrow> int_of_val u = Some v"
  by (auto simp: const_val_Some)

lemma to_BoolResult_iff [simp]:
  "to_BoolResult b = Yes \<longleftrightarrow> b" "to_BoolResult b = No \<longleftrightarrow> \<not> b" "to_BoolResult b \<noteq> DontKnow"
  by (simp_all add: to_BoolResult_def)

lemma to_set [simp]:
  "to_Range e = Some (l, r) \<longleftrightarrow> (\<exists>i t. e = Binary i t Range l r)" "to_Mask e = Some (l, r) \<longleftrightarrow> (\<exists>i t. e = Binary i t Mask l r)"
  "to_Range (Constant i t v b) = None" "to_Mask (Constant i t v b) = None" "to_Range (BoolLiteral i x) = None" "to_Mask (BoolLiteral i x) = None"
  by (cases e; auto simp: to_Range_def to_Mask_def)+

lemma contains_atom_sound:
  assumes "contains_atom C k e = Inr (ds, r)" and "eval E e = Some v" and "match_atom E k v = Some m" and "r \<noteq> DontKnow"
  shows "r = to_BoolResult m"
proof -
  consider (bool) i b j b' where "e = BoolLiteral i b" "k = BoolLiteral j b'" "r = to_BoolResult (b = b')"
    | (const) i t x d j u y d' where "e = Constant i t x d" "k = Constant j u y d'" "r = to_BoolResult (y = x)"
    | (range) i t x d l h j u ds' where "e = Constant i t x d" "k = Binary j u Range l h" "set_operands C l h (\<lambda>a b. a \<le> x \<and> b \<ge> x) = Inr (ds', r)"
    | (mask) i t x d l h j u ds' where "e = Constant i t x d" "k = Binary j u Mask l h" "set_operands C l h (\<lambda>a b. (a AND b) = (b AND x)) = Inr (ds', r)"
    using assms(1,4) by (auto simp: contains_atom_def elim!: bind_resE dest!: getConstant_atom split: option.splits)
  then show ?thesis
  proof cases
    case range
    then obtain p q a b p' q' c d where "l = Constant p q a b" "h = Constant p' q' c d" "r = to_BoolResult (a \<le> x \<and> c \<ge> x)"
      using set_operands_eq [OF range(3) assms(4)] by blast
    then show ?thesis using range assms(2,3) const_int
      by (auto simp: match_atom_def to_Range_def ints_of_def bind_eq_Some_conv simp del: eval.simps dest!: const_int)
  next
    case mask
    then obtain p q a b p' q' c d where "l = Constant p q a b" "h = Constant p' q' c d" "r = to_BoolResult ((a AND c) = (c AND x))"
      using set_operands_eq [OF mask(3) assms(4)] by blast
    then show ?thesis using mask assms(2,3)
      by (auto simp: match_atom_def to_Range_def to_Mask_def ints_of_def bind_eq_Some_conv and.commute simp del: eval.simps dest!: const_int)
  qed (use assms(2,3) in \<open>auto simp: match_atom_def bind_eq_Some_conv const_val_Some\<close>)
qed

lemma setContains_sound:
  "setContains C k e = Inr (ds, r) \<Longrightarrow> eval E e = Some v \<Longrightarrow> key_matches E k v = Some m \<Longrightarrow> r \<noteq> DontKnow \<Longrightarrow> r = to_BoolResult m"
  "setContains_list C ks es = Inr (ds, r) \<Longrightarrow> evals E es = Some vs \<Longrightarrow> keys_match E ks vs = Some m \<Longrightarrow> r \<noteq> DontKnow \<Longrightarrow>
     r = to_BoolResult m"
proof (induction C k e and C ks es arbitrary: ds r v m and ds r vs m rule: setContains_setContains_list.induct)
  case (1 C k e)
  show ?case
  proof (cases "is_Default k")
    case True
    then show ?thesis using "1.prems" by (simp add: setContains.simps key_matches.simps to_BoolResult_def)
  next
    case False
    note s = "1.prems"(1) [unfolded setContains.simps [of C k e]] and m = "1.prems"(3) [unfolded key_matches.simps [of E k v]]
    show ?thesis
    proof (cases "to_List e")
      case None
      then have "list_of v = None \<or> (\<exists>ds. contains_atom C k e = Inl ds)"
        using "1.prems"(2) by (cases e) (auto simp: contains_atom_def to_BoolLiteral_def to_Constant_def list_of_def const_val_Some)
      then show ?thesis
        using None False s m contains_atom_sound [OF _ "1.prems"(2) _ "1.prems"(4)] by auto
    next
      case (Some es)
      then obtain i t where e: "e = ListExpression i t es" by auto
      then obtain vs where vs: "v = VList vs" "evals E es = Some vs" using "1.prems"(2) by (auto simp: bind_eq_Some_conv)
      then have len: "length vs = length es" using evals_length by blast
      show ?thesis
      proof (cases "to_List k")
        case (Some ks)
        then obtain j u where k: "k = ListExpression j u ks" by auto
        have "setContains_list C ks es = Inr (ds, r)" "length es = length ks" "keys_match E ks vs = Some m"
          using s m False e vs(1) len k by (auto simp: list_of_def split: if_splits)
        then show ?thesis
          using "1.IH"(2) [OF False \<open>to_List e = Some es\<close> Some _ _ vs(2) _ "1.prems"(4)] by blast
      next
        case None
        then obtain x where x: "es = [x]" using s False e by (auto split: list.splits)
        then obtain y where y: "vs = [y]" "eval E x = Some y" using vs(2) by (auto simp: bind_eq_Some_conv)
        have "setContains C k x = Inr (ds, r)" "key_matches E k y = Some m"
          using s m False e None x y(1) vs(1) by (auto simp: list_of_def)
        then show ?thesis
          using "1.IH"(1) [OF False \<open>to_List e = Some es\<close> None x refl _ y(2) _ "1.prems"(4)] by blast
      qed
    qed
  qed
next
  case (2 C k ks e es)
  obtain v ws where v: "vs = v # ws" "eval E e = Some v" "evals E es = Some ws" using "2.prems"(2) by (auto simp: bind_eq_Some_conv)
  obtain b where b: "key_matches E k v = Some b" using "2.prems"(3) v(1) by (auto split: option.splits)
  obtain d1 q d2 where q: "setContains C k e = Inr (d1, q)" "(if q = Yes then setContains_list C ks es else ok q) = Inr (d2, r)"
    using "2.prems"(1) by (auto elim!: bind_resE)
  then have "q \<noteq> DontKnow" using "2.prems"(4) by (auto simp: ok_def)
  then have qb: "q = to_BoolResult b" using "2.IH"(1) [OF q(1) v(2) b] by blast
  show ?case
  proof (cases b)
    case True
    then have "q = Yes" "keys_match E ks ws = Some m" using qb b v(1) "2.prems"(3) by simp_all
    then show ?thesis using "2.IH"(2) [of q] q(2) v(3) "2.prems"(4) by simp
  next
    case False
    then show ?thesis using qb q(2) b v(1) "2.prems"(3) by (simp add: ok_def)
  qed
qed (simp_all add: to_BoolResult_def)

lemma select_drop:
  assumes "\<And>m. key_matches E (fst c) v = Some m \<Longrightarrow> \<not> m" and "select_val E v (pre @ c # cs) = Some st"
  shows "select_val E v (pre @ cs) = Some st"
  using assms(2) by (induction pre) (use assms(1) in \<open>auto split: option.splits if_splits\<close>)

lemma select_default:
  assumes "\<And>m. key_matches E (fst c) v = Some m \<Longrightarrow> m" and "select_val E v (pre @ c # cs) = Some st"
  shows "select_val E v (pre @ [(DefaultExpression i, snd c)]) = Some st"
  using assms(2)
  by (induction pre) (use assms(1) in \<open>auto split: option.splits if_splits\<close>)

text \<open>What the loop has decided, with the cases that remain.\<close>

definition selected :: "env \<Rightarrow> val \<Rightarrow> select_state \<Rightarrow> (expr \<times> string) list \<Rightarrow> string option" where
  "selected E v s cs =
     (case sel_result s of Some st \<Rightarrow> Some st | None \<Rightarrow> select_val E v (sel_cases s @ (if finished s then [] else cs)))"

definition select_inv :: "select_state \<Rightarrow> bool" where
  "select_inv s \<longleftrightarrow> (\<not> someUnknown s \<longrightarrow> sel_cases s = []) \<and> (sel_result s \<noteq> None \<longrightarrow> finished s) \<and> (finished s \<longrightarrow> changes s)"

lemma select_step_inv:
  assumes "select_step C k c s = Inr (ds, s')" and "select_inv s"
  shows "select_inv s'"
  using assms by (auto simp: select_step_def select_inv_def ok_def elim!: bind_resE split: if_splits Result.splits)

lemma select_step_selected:
  assumes "select_step C k c s = Inr (ds, s')" and "select_inv s" and "eval E k = Some v" and "selected E v s (c # cs) = Some st"
  shows "selected E v s' cs = Some st"
proof (cases "finished s")
  case True
  then show ?thesis using assms(1,4) by (auto simp: select_step_def selected_def split: option.splits)
next
  case False
  then have r: "sel_result s = None" using assms(2) by (auto simp: select_inv_def)
  then have v: "select_val E v (sel_cases s @ c # cs) = Some st" using assms(4) False by (simp add: selected_def)
  obtain d q where q: "setContains C (fst c) k = Inr (d, q)"
    using assms(1) False by (auto simp: select_step_def elim!: bind_resE)
  have m: "q = to_BoolResult m" if "q \<noteq> DontKnow" "key_matches E (fst c) v = Some m" for m
    using setContains_sound(1) [OF q assms(3) that(2,1)] .
  show ?thesis
  proof (cases q)
    case Yes
    have "x" if "key_matches E (fst c) v = Some x" for x using m [OF _ that] Yes by (simp add: eq_commute [of Yes])
    then have d: "select_val E v (sel_cases s @ [(DefaultExpression 0, snd c)]) = Some st" by (rule select_default [OF _ v])
    have s': "s' = (if someUnknown s
        then s\<lparr>changes := True, finished := True, sel_cases := sel_cases s @ [(DefaultExpression 0, snd c)]\<rparr>
        else s\<lparr>changes := True, finished := True, sel_result := Some (snd c)\<rparr>)"
      using assms(1) False q Yes by (simp add: select_step_def bind_res_def ok_def split: if_splits)
    show ?thesis using d r assms(2) by (cases "someUnknown s") (simp_all add: s' selected_def select_inv_def)
  next
    case No
    have "\<not> x" if "key_matches E (fst c) v = Some x" for x using m [OF _ that] No by (simp add: eq_commute [of No])
    then have d: "select_val E v (sel_cases s @ cs) = Some st" by (rule select_drop [OF _ v])
    have "s' = s\<lparr>changes := True\<rparr>" using assms(1) False q No by (simp add: select_step_def bind_res_def ok_def)
    then show ?thesis using d r False by (simp add: selected_def)
  next
    case DontKnow
    then have "s' = s\<lparr>someUnknown := True, sel_cases := sel_cases s @ [c]\<rparr>"
      using assms(1) False q by (simp add: select_step_def bind_res_def ok_def)
    then show ?thesis using v r False by (simp add: selected_def)
  qed
qed

lemma select_loop_selected:
  assumes "select_loop C k cs s = Inr (ds, s')" and "select_inv s" and "eval E k = Some v" and "selected E v s cs = Some st"
  shows "selected E v s' [] = Some st"
  using assms
proof (induction cs arbitrary: s ds)
  case (Cons c cs)
  obtain d1 x d2 where x: "select_step C k c s = Inr (d1, x)" "select_loop C k cs x = Inr (d2, s')"
    using Cons.prems(1) by (auto elim!: bind_resE)
  show ?case
    using Cons.IH [OF x(2) select_step_inv [OF x(1) Cons.prems(2)] Cons.prems(3)
        select_step_selected [OF x(1) Cons.prems(2,3,4)]] .
qed (auto simp: selected_def ok_def)

section \<open>The meaning of statements\<close>



text \<open>The expressions of a statement are typed, and no constant is assigned.\<close>

definition no_constant :: "cf_state \<Rightarrow> string \<Rightarrow> bool" where
  "no_constant C x \<longleftrightarrow> (case refMap C of None \<Rightarrow> True | Some m \<Rightarrow> (case m x of Some (Const_decl d) \<Rightarrow> False | _ \<Rightarrow> True))"

fun stmt_ok :: "cf_state \<Rightarrow> stmt \<Rightarrow> bool"
  and else_ok :: "cf_state \<Rightarrow> stmt option \<Rightarrow> bool"
  and stmts_ok :: "cf_state \<Rightarrow> stmt list \<Rightarrow> bool" where
  "stmt_ok C EmptyStatement \<longleftrightarrow> True"
| "stmt_ok C (AssignmentStatement x e) \<longleftrightarrow> no_constant C x \<and> annotated e \<and> mapped C e"
| "stmt_ok C (IfStatement e s r) \<longleftrightarrow> annotated e \<and> mapped C e \<and> stmt_ok C s \<and> else_ok C r"
| "stmt_ok C (BlockStatement ss) \<longleftrightarrow> stmts_ok C ss"
| "else_ok C None \<longleftrightarrow> True"
| "else_ok C (Some s) \<longleftrightarrow> stmt_ok C s"
| "stmts_ok C [] \<longleftrightarrow> True"
| "stmts_ok C (s # ss) \<longleftrightarrow> stmt_ok C s \<and> stmts_ok C ss"







section \<open>Declared constants\<close>

text \<open>A declaration converts an integer of unknown width to the declared type.\<close>

definition convert_val :: "ptype \<Rightarrow> val \<Rightarrow> val option" where
  "convert_val t u = (if has_type u t then Some u else case u of VInt a \<Rightarrow> cast_val t u | _ \<Rightarrow> None)"

text \<open>
  The variables that refer to a declaration have the converted value of its initializer; type checking
  leaves no conversion to do.
\<close>

definition declared :: "cf_state \<Rightarrow> env \<Rightarrow> decl_const \<Rightarrow> bool" where
  "declared C E d \<longleftrightarrow>
     (\<forall>m x v. refMap C = Some m \<and> m x = Some (Const_decl (dc_name d)) \<and> var E x = Some v \<longrightarrow>
        (\<exists>u. eval E (dc_init d) = Some u \<and> convert_val (dc_type d) u = Some v \<and> (typesKnown C \<longrightarrow> v = u)))"


lemma constants_irrelevant [simp]:
  "typesKnown (C\<lparr>constants := k\<rparr>) = typesKnown C" "getType (C\<lparr>constants := k\<rparr>) = getType C"
  "fresh (C\<lparr>constants := k\<rparr>) = fresh C" "node_ok (C\<lparr>constants := k\<rparr>) = node_ok C" "in_map (C\<lparr>constants := k\<rparr>) = in_map C"
  "enum_resolve (C\<lparr>constants := k\<rparr>) = enum_resolve C" "declared (C\<lparr>constants := k\<rparr>) = declared C"
  by (simp_all add: fun_eq_iff typesKnown_def getType_def fresh_def node_ok_def in_map_def enum_resolve_def getType_nonnull_def declared_def
      cong: expr.case_cong)

lemma getConstant_irrelevant [simp]:
  "getConstant (C\<lparr>constants := k\<rparr>) e = getConstant C e"
  "all_constant (C\<lparr>constants := k\<rparr>) es = all_constant C es"
  "all_constant_fields (C\<lparr>constants := k\<rparr>) fs = all_constant_fields C fs"
  by (induction e and es and fs rule: clone_constants_clone_list_clone_fields.induct) (simp_all cong: if_cong)


lemma constants_only [simp]: "\<exists>k. C = C\<lparr>constants := k\<rparr>" "\<exists>k. emplace_constant C d c = C\<lparr>constants := k\<rparr>"
proof -
  show "\<exists>k. C = C\<lparr>constants := k\<rparr>" by (metis cf_state.surjective cf_state.update_convs(5))
  then show "\<exists>k. emplace_constant C d c = C\<lparr>constants := k\<rparr>" unfolding emplace_constant_def by (cases "constants C d") auto
qed







lemma stmt_ok_irrelevant [simp]:
  "stmt_ok (C\<lparr>constants := k\<rparr>) s = stmt_ok C s" "else_ok (C\<lparr>constants := k\<rparr>) r = else_ok C r"
  "stmts_ok (C\<lparr>constants := k\<rparr>) ss = stmts_ok C ss"
  by (induction C s and C r and C ss rule: stmt_ok_else_ok_stmts_ok.induct) (simp_all add: no_constant_def)

section \<open>Properties\<close>


definition prog_state :: cf_state where
  "prog_state = \<lparr>cf_gmp = gmp64, typeMap = None, refMap = Some (\<lambda>x. if x = ''N'' then Some (Const_decl ''N'') else None),
     warnings = True, constants = Map.empty\<rparr>"

definition prog_env :: env where
  "prog_env = \<lparr>var = (\<lambda>x. if x = ''N'' then Some (VBits 8 False 44) else None), call = (\<lambda>_ _. None)\<rparr>"






text \<open>
  C11: A select expression whose selector is a constant keeps its meaning: whenever the original cases send
  the parser to a state, the folded expression (a state, or fewer cases) sends it to the same state.
\<close>

theorem select_folding_correct:
  assumes "cf_SelectExpression C sel cs = Inr (ds, r)" and "eval E sel = Some v" and "select_val E v cs = Some st"
  shows "select_meaning E r = Some st"
proof (cases "r = Select_cases sel cs")
  case True
  then show ?thesis using assms(2,3) by (simp add: select_meaning_def)
next
  case False
  let ?s = "\<lparr>sel_cases = [], someUnknown = False, changes = False, finished = False, sel_result = None\<rparr>"
  obtain d1 k d2 s where k: "getConstant C sel = Inr (d1, Some k)" "select_loop C k cs ?s = Inr (d2, s)"
      "r = (case sel_result s of Some st \<Rightarrow> Select_state st | None \<Rightarrow> Select_cases sel (if changes s then sel_cases s else cs))"
    using assms(1) False by (auto simp: cf_SelectExpression_def elim!: bind_resE split: if_splits option.splits)
  have "selected E v s [] = Some st"
    using select_loop_selected [OF k(2) _ getConstant_eval [OF k(1) assms(2)]] assms(3) by (simp add: selected_def select_inv_def)
  then show ?thesis
    using k(3) assms(2,3) by (auto simp: selected_def select_meaning_def split: option.splits)
qed

definition select_state0 :: cf_state where
  "select_state0 = prog_state\<lparr>typeMap := Some (\<lambda>i. None)\<rparr>"

definition select_cases0 :: "(expr \<times> string) list" where
  "select_cases0 =
     [(Constant 2 (Type_Bits 8 False) 3 10, ''a''),
      (Binary 3 (Type_Set (Type_Bits 8 False)) Mask (Constant 4 (Type_Bits 8 False) 16 10) (Constant 5 (Type_Bits 8 False) 240 10), ''b''),
      (DefaultExpression 6, ''c'')]"

theorem select_folding_correct_witness:
  "cf_SelectExpression select_state0 (Constant 1 (Type_Bits 8 False) 23 10) select_cases0 = Inr ([Warn ''unreachable case''], Select_state ''b'') \<and>
   select_meaning prog_env (Select_state ''b'') = Some ''b''"
proof -
  have c: "cf_SelectExpression select_state0 (Constant 1 (Type_Bits 8 False) 23 10) select_cases0 = Inr ([Warn ''unreachable case''], Select_state ''b'')"
    by code_simp
  have v: "eval prog_env (Constant 1 (Type_Bits 8 False) 23 10) = Some (VBits 8 False 23)" by code_simp
  have "select_val prog_env (VBits 8 False 23) select_cases0 = Some ''b''" by code_simp
  from select_folding_correct [OF c v this] show ?thesis using c by blast
qed

text \<open>
  C36: The size of a type given as an expression. When no error is reported, the size is the constant,
  which is positive and at least two for a signed type, and the expression is gone; after an error the size
  of a \<open>bit\<close> type is still positive.
\<close>

theorem type_size_folded:
  assumes "gmp_ok G" and "type_expression t = Some (Constant i ct v b)" and "cf_Type_Bits G t = Inr (ds, t')"
  shows "0 < type_size t' \<and> type_expression t' = None \<and> type_isSigned t' = type_isSigned t \<and>
    (quiet ds \<longrightarrow> type_size t' = v \<and> (type_isSigned t \<longrightarrow> 2 \<le> v))"
proof -
  obtain d k where k: "asInt G v = (d, k)" by (cases "asInt G v")
  have "k = v" if "quiet d" using asInt_quiet [OF assms(1) k that] .
  then show ?thesis using assms(2,3) k
    by (auto simp: cf_Type_Bits_def report_def ok_def quiet_def bind_res_def split: if_splits)
qed

theorem type_size_folded_witness:
  "cf_Type_Bits gmp64 \<lparr>type_size = 0, type_isSigned = False, type_expression = Some (Constant 1 Type_InfInt (-3) 10)\<rparr> =
     Inr ([Err ''Invalid type size''], \<lparr>type_size = 64, type_isSigned = False, type_expression = None\<rparr>) \<and>
   0 < type_size \<lparr>type_size = 64, type_isSigned = False, type_expression = None\<rparr>"
proof -
  have c: "cf_Type_Bits gmp64 \<lparr>type_size = 0, type_isSigned = False, type_expression = Some (Constant 1 Type_InfInt (-3) 10)\<rparr> =
     Inr ([Err ''Invalid type size''], \<lparr>type_size = 64, type_isSigned = False, type_expression = None\<rparr>)"
    by code_simp
  then show ?thesis using type_size_folded [OF gmp64_ok _ c] by simp
qed

end
