(* ===== verification/Symbolic_Value.thy ===== *)
theory Symbolic_Value
  imports P4_Int "HOL-Library.List_Lexorder" "HOL-Library.Char_ord"
begin

text \<open>
  The symbolic values of the P4 interpreter (\<open>midend/interpreter\<close>): the classes of values, their
  creation from types, and the operations \<open>merge\<close>, \<open>assign\<close>, \<open>equals\<close>, \<open>setAllUnknown\<close> and
  \<open>hasUninitializedParts\<close> of each class.

  An operation changes its object in place; here it returns the new value of the object. The values
  that \<open>create\<close> and \<open>clone\<close> build are trees without sharing, so the two agree on them.
\<close>

section \<open>Results\<close>

definition bind_sum :: "'e + 'a \<Rightarrow> ('a \<Rightarrow> 'e + 'b) \<Rightarrow> 'e + 'b" where
  "bind_sum m f = (case m of Inl e \<Rightarrow> Inl e | Inr x \<Rightarrow> f x)"

lemma bind_sum_simps [simp]: "bind_sum (Inl e) f = Inl e" "bind_sum (Inr x) f = f x"
  by (simp_all add: bind_sum_def)

lemma bind_sum_Inr: "bind_sum m f = Inr y \<longleftrightarrow> (\<exists>x. m = Inr x \<and> f x = Inr y)"
  by (cases m) simp_all

lemma bind_sum_cong [fundef_cong]: "m = m' \<Longrightarrow> (\<And>x. m' = Inr x \<Longrightarrow> f x = g x) \<Longrightarrow> bind_sum m f = bind_sum m' g"
  by (cases m') simp_all

section \<open>Values\<close>

datatype ValueState = Uninitialized | NotConstant | Known

text \<open>
  The integer of a \<open>SymbolicInteger\<close> is a pointer to a constant of the IR (its identity, type, value and
  base), which is set for known values only.
  \<open>SNull\<close> is the null pointer that the factory returns for types without values; the minimum offset of a
  packet is an \<open>unsigned\<close>.
\<close>

datatype iconst = IConst nat ptype int nat

fun ivalue :: "iconst \<Rightarrow> int" where
  "ivalue (IConst i t v b) = v"

datatype sval =
    SBool ValueState bool
  | SInteger ptype ValueState "iconst option"
  | SVarbit ptype ValueState
  | SEnum ptype ValueState string
  | SStruct ptype "(string \<times> sval) list"
  | SHeader ptype "(string \<times> sval) list" ValueState bool
  | SArray ptype "sval list"
  | STuple ptype "sval list"
  | SExtern ptype
  | SPacketIn ptype nat bool
  | SVoid
  | SException string
  | SStaticError string
  | SNull

definition init_state :: "bool \<Rightarrow> ValueState" where
  "init_state uninit = (if uninit then Uninitialized else NotConstant)"

definition mergeState :: "ValueState \<Rightarrow> ValueState \<Rightarrow> ValueState" where
  "mergeState s s' =
     (if s = Uninitialized \<and> s' = Uninitialized then Uninitialized
      else if s = Known \<and> s' = Known then Known else NotConstant)"

fun isScalar :: "sval \<Rightarrow> bool" where
  "isScalar (SBool s v) = True" | "isScalar (SInteger t s c) = True" | "isScalar (SVarbit t s) = True"
| "isScalar (SEnum t s v) = True" | "isScalar (SException e) = True" | "isScalar (SStaticError m) = True"
| "isScalar v = False"

definition isError :: "sval \<Rightarrow> bool" where
  "isError v = (case v of SException e \<Rightarrow> True | SStaticError m \<Rightarrow> True | _ \<Rightarrow> False)"

text \<open>The failure of \<open>to<T>()\<close> or of a check on the class of a value.\<close>

definition bad_class :: "sval \<Rightarrow> cxx_error" where
  "bad_class v = (if v = SNull then UndefinedBehaviour else BugCheck)"

text \<open>An object that is a field of a struct is replaced by its new value.\<close>

fun field_put :: "string \<Rightarrow> 'a \<Rightarrow> (string \<times> 'a) list \<Rightarrow> (string \<times> 'a) list" where
  "field_put f v [] = [(f, v)]"
| "field_put f v ((g, w) # fs) = (if f = g then (g, v) # fs else (g, w) # field_put f v fs)"

section \<open>The factory\<close>

definition is_newtype :: "ptype \<Rightarrow> bool" where
  "is_newtype t = (case t of Type_Newtype n u \<Rightarrow> True | _ \<Rightarrow> False)"

text \<open>Types whose values are ignored, and the name of the packet type.\<close>

definition ignored_type :: "string \<Rightarrow> bool" where
  "ignored_type n \<longleftrightarrow> n \<in> {''parser'', ''control'', ''table'', ''action'', ''meter'', ''counter''}"

definition packet_in :: string where
  "packet_in = ''packet_in''"

fun create :: "ptype \<Rightarrow> bool \<Rightarrow> cxx_error + sval"
  and create_fields :: "(string \<times> ptype) list \<Rightarrow> bool \<Rightarrow> cxx_error + (string, sval) std_map"
  and create_list :: "ptype list \<Rightarrow> bool \<Rightarrow> cxx_error + sval list" where
  "create (Type_Newtype n t) u = (if is_newtype t then Inl BugCheck else create t u)"
| "create (Type_Bits w s) u = Inr (SInteger (Type_Bits w s) (init_state u) None)"
| "create Type_Boolean u = Inr (SBool (init_state u) False)"
| "create (Type_Struct n fs) u = bind_sum (create_fields fs u) (\<lambda>vs. Inr (SStruct (Type_Struct n fs) vs))"
| "create (Type_Header n fs) u = bind_sum (create_fields fs u) (\<lambda>vs. Inr (SHeader (Type_Header n fs) vs Known False))"
| "create (Type_Varbits w) u = Inr (SVarbit (Type_Varbits w) Uninitialized)"
| "create (Type_Stack et n) u =
     (if n = 0 then Inr (SArray (Type_Stack et n) [])
      else case et of
        Type_Header h fs \<Rightarrow> bind_sum (create et u) (\<lambda>e. Inr (SArray (Type_Stack et n) (replicate n e)))
      | _ \<Rightarrow> Inl UndefinedBehaviour)"
| "create (Type_Tuple ts) u = bind_sum (create_list ts u) (\<lambda>vs. Inr (STuple (Type_Tuple ts) vs))"
| "create (Type_Extern n) u = Inr (if n = packet_in then SPacketIn (Type_Extern n) 0 False else SExtern (Type_Extern n))"
| "create (Type_Enum n ms) u = Inr (SEnum (Type_Enum n ms) (init_state u) [])"
| "create Type_Error u = Inr (SEnum Type_Error (init_state u) [])"
| "create (Type_Other n) u =
     (if n = ''match_kind'' then Inr (SEnum (Type_Other n) (init_state u) [])
      else if ignored_type n then Inr SNull else Inl BugCheck)"
| "create _ u = Inl BugCheck"
| "create_fields [] u = Inr []"
| "create_fields ((f, t) # fs) u =
     bind_sum (create t u) (\<lambda>v. bind_sum (create_fields fs u) (\<lambda>vs. Inr (if f \<in> fst ` set fs then vs else map_put f v vs)))"
| "create_list [] u = Inr []"
| "create_list (t # ts) u = bind_sum (create t u) (\<lambda>v. bind_sum (create_list ts u) (\<lambda>vs. Inr (v # vs)))"

text \<open>
  \<open>isFixedWidth\<close> looks a type up in the type map. \<open>wrapped\<close> says that the map has a \<open>Type_Type\<close> for the nodes that
  are types, which \<open>create\<close> insists on; unlike \<open>create\<close> and \<open>getWidth\<close>, this method does not unwrap it.
\<close>

fun isFixedWidth :: "bool \<Rightarrow> ptype \<Rightarrow> bool" where
  "isFixedWidth wrapped t =
     (if wrapped then True
      else case t of
        Type_Varbits w \<Rightarrow> False
      | Type_Extern n \<Rightarrow> False
      | Type_Stack et n \<Rightarrow> isFixedWidth wrapped et
      | Type_Struct n fs \<Rightarrow> list_all (\<lambda>(f, u). isFixedWidth wrapped u) fs
      | Type_Header n fs \<Rightarrow> list_all (\<lambda>(f, u). isFixedWidth wrapped u) fs
      | Type_HeaderUnion n fs \<Rightarrow> list_all (\<lambda>(f, u). isFixedWidth wrapped u) fs
      | Type_Tuple ts \<Rightarrow> list_all (isFixedWidth wrapped) ts
      | _ \<Rightarrow> True)"

declare isFixedWidth.simps [simp del]

text \<open>Widths are computed with \<open>unsigned\<close>.\<close>

definition uint :: "nat \<Rightarrow> nat" where
  "uint n = n mod 2 ^ 32"

fun getWidth :: "ptype \<Rightarrow> nat" where
  "getWidth (Type_Bits w s) = uint w"
| "getWidth Type_Boolean = 1"
| "getWidth (Type_HeaderUnion n fs) = foldl max 0 (map (\<lambda>(f, t). getWidth t) fs)"
| "getWidth (Type_Struct n fs) = foldl (\<lambda>a b. uint (a + b)) 0 (map (\<lambda>(f, t). getWidth t) fs)"
| "getWidth (Type_Header n fs) = foldl (\<lambda>a b. uint (a + b)) 0 (map (\<lambda>(f, t). getWidth t) fs)"
| "getWidth (Type_Stack et n) = uint (getWidth et * n)"
| "getWidth (Type_Tuple ts) = foldl (\<lambda>a b. uint (a + b)) 0 (map getWidth ts)"
| "getWidth t = 0"

section \<open>Operators of symbolic Booleans\<close>

text \<open>The operands are the state and the value; the other operand is never null here.\<close>

definition sbool_not :: "ValueState \<times> bool \<Rightarrow> ValueState \<times> bool" where
  "sbool_not x =
     (if fst x = Uninitialized then x else if fst x = Known then (Known, \<not> snd x) else (NotConstant, False))"

definition sbool_or :: "ValueState \<times> bool \<Rightarrow> ValueState \<times> bool \<Rightarrow> ValueState \<times> bool" where
  "sbool_or x y =
     (if fst y = Known \<and> snd y then y
      else if fst y = Known \<and> \<not> snd y then x
      else if fst x = Known \<and> \<not> snd x then y
      else if fst x = Known \<and> snd x then x
      else (NotConstant, False))"

definition sbool_and :: "ValueState \<times> bool \<Rightarrow> ValueState \<times> bool \<Rightarrow> ValueState \<times> bool" where
  "sbool_and x y =
     (if fst y = Known \<and> snd y then x
      else if fst y = Known \<and> \<not> snd y then y
      else if fst x = Known \<and> \<not> snd x then x
      else if fst x = Known \<and> snd x then y
      else (NotConstant, False))"

section \<open>Merging\<close>

text \<open>Each method returns the new value and whether it changed.\<close>

definition merge_bool :: "ValueState \<Rightarrow> bool \<Rightarrow> ValueState \<Rightarrow> bool \<Rightarrow> ValueState \<times> bool" where
  "merge_bool s v s' v' =
     (let m = mergeState s s'; m' = (if m = Known \<and> v \<noteq> v' then NotConstant else m) in (m', m' \<noteq> s))"

definition merge_int :: "ValueState \<Rightarrow> iconst option \<Rightarrow> ValueState \<Rightarrow> iconst option \<Rightarrow> cxx_error + ValueState \<times> iconst option" where
  "merge_int s c s' c' =
     (if mergeState s s' = Known then
        case (c, c') of
          (Some a, Some b) \<Rightarrow> Inr (if ivalue a = ivalue b then (Known, c) else (NotConstant, None))
        | _ \<Rightarrow> Inl UndefinedBehaviour
      else Inr (mergeState s s', c))"

definition merge_enum :: "ValueState \<Rightarrow> string \<Rightarrow> ValueState \<Rightarrow> string \<Rightarrow> ValueState \<times> bool" where
  "merge_enum s v s' v' =
     (let m = mergeState s s'; m' = (if m = Known \<and> v \<noteq> v' then NotConstant else m) in (m', m' \<noteq> s))"

definition merge_packet :: "nat \<Rightarrow> bool \<Rightarrow> nat \<Rightarrow> bool \<Rightarrow> (nat \<times> bool) \<times> bool" where
  "merge_packet off c off' c' =
     (if off > off' then ((off', c \<or> c'), True) else ((off, c), False))"

text \<open>
  A missing field is a bug for structs and a null pointer for headers; an element beyond the end of the
  other array is a static error, which no header can be merged with.
\<close>

fun merge :: "sval \<Rightarrow> sval \<Rightarrow> cxx_error + sval \<times> bool"
  and merge_fields :: "cxx_error \<Rightarrow> (string \<times> sval) list \<Rightarrow> (string \<times> sval) list \<Rightarrow> cxx_error + (string \<times> sval) list \<times> bool"
  and merge_list :: "sval list \<Rightarrow> sval list \<Rightarrow> cxx_error + sval list \<times> bool" where
  "merge (SBool s v) w =
     (case w of SBool s' v' \<Rightarrow> (case merge_bool s v s' v' of (m, c) \<Rightarrow> Inr (SBool m v, c)) | _ \<Rightarrow> Inl (bad_class w))"
| "merge (SInteger t s c) w =
     (case w of
        SInteger t' s' c' \<Rightarrow> bind_sum (merge_int s c s' c') (\<lambda>(m, d). Inr (SInteger t m d, m \<noteq> s))
      | _ \<Rightarrow> Inl (bad_class w))"
| "merge (SVarbit t s) w =
     (case w of SVarbit t' s' \<Rightarrow> Inr (SVarbit t (mergeState s s'), mergeState s s' \<noteq> s) | _ \<Rightarrow> Inl (bad_class w))"
| "merge (SEnum t s v) w =
     (case w of SEnum t' s' v' \<Rightarrow> (case merge_enum s v s' v' of (m, c) \<Rightarrow> Inr (SEnum t m v, c)) | _ \<Rightarrow> Inl (bad_class w))"
| "merge (SStruct t fs) w =
     (case w of
        SStruct t' gs \<Rightarrow> bind_sum (merge_fields BugCheck fs gs) (\<lambda>(fs', c). Inr (SStruct t fs', c))
      | SHeader t' gs s' v' \<Rightarrow> bind_sum (merge_fields BugCheck fs gs) (\<lambda>(fs', c). Inr (SStruct t fs', c))
      | _ \<Rightarrow> Inl (bad_class w))"
| "merge (SHeader t fs s v) w =
     (case w of
        SHeader t' gs s' v' \<Rightarrow>
          bind_sum (merge_fields UndefinedBehaviour fs gs) (\<lambda>(fs', c).
            case merge_bool s v s' v' of (m, d) \<Rightarrow> Inr (SHeader t fs' m v, c \<or> d))
      | _ \<Rightarrow> Inl (bad_class w))"
| "merge (SArray t es) w =
     (case w of
        SArray t' es' \<Rightarrow> bind_sum (merge_list es es') (\<lambda>(vs, c). Inr (SArray t vs, c))
      | _ \<Rightarrow> Inl (bad_class w))"
| "merge (STuple t es) w =
     (case w of
        STuple t' es' \<Rightarrow>
          if length es = length es' then bind_sum (merge_list es es') (\<lambda>(vs, c). Inr (STuple t vs, c)) else Inl BugCheck
      | _ \<Rightarrow> Inl (bad_class w))"
| "merge (SExtern t) w = Inr (SExtern t, False)"
| "merge (SPacketIn t off c) w =
     (case w of
        SPacketIn t' off' c' \<Rightarrow> (case merge_packet off c off' c' of ((n, d), ch) \<Rightarrow> Inr (SPacketIn t n d, ch))
      | _ \<Rightarrow> Inl (bad_class w))"
| "merge SVoid w = (if w = SVoid then Inr (SVoid, False) else Inl (bad_class w))"
| "merge (SException e) w = Inl BugCheck"
| "merge (SStaticError m) w = Inl BugCheck"
| "merge SNull w = Inl UndefinedBehaviour"
| "merge_fields err fs [] = Inr (fs, False)"
| "merge_fields err fs ((f, w) # gs) =
     (case map_of fs f of
        None \<Rightarrow> Inl err
      | Some v \<Rightarrow> bind_sum (merge v w) (\<lambda>(v', c). bind_sum (merge_fields err (field_put f v' fs) gs) (\<lambda>(fs', d). Inr (fs', c \<or> d))))"
| "merge_list [] ws = Inr ([], False)"
| "merge_list (v # vs) ws =
     (case ws of
        [] \<Rightarrow> Inl BugCheck
      | w # ws' \<Rightarrow> bind_sum (merge v w) (\<lambda>(v', c). bind_sum (merge_list vs ws') (\<lambda>(vs', d). Inr (v' # vs', c \<or> d))))"

section \<open>Comparison\<close>

text \<open>A value of another class is different; only a null pointer cannot be asked for its class.\<close>

definition other_class :: "sval \<Rightarrow> cxx_error + bool" where
  "other_class w = (if w = SNull then Inl UndefinedBehaviour else Inr False)"

fun equals :: "sval \<Rightarrow> sval \<Rightarrow> cxx_error + bool"
  and equals_fields :: "(string \<times> sval) list \<Rightarrow> (string \<times> sval) list \<Rightarrow> cxx_error + bool"
  and equals_list :: "cxx_error + bool \<Rightarrow> sval list \<Rightarrow> sval list \<Rightarrow> cxx_error + bool" where
  "equals (SBool s v) w = (case w of SBool s' v' \<Rightarrow> Inr (s = s' \<and> (s = Known \<longrightarrow> v = v')) | _ \<Rightarrow> other_class w)"
| "equals (SInteger t s c) w =
     (case w of
        SInteger t' s' c' \<Rightarrow>
          if s \<noteq> s' then Inr False
          else if s = Known then (case (c, c') of (Some a, Some b) \<Rightarrow> Inr (ivalue a = ivalue b) | _ \<Rightarrow> Inl UndefinedBehaviour) else Inr True
      | _ \<Rightarrow> other_class w)"
| "equals (SVarbit t s) w = (case w of SVarbit t' s' \<Rightarrow> Inr (s = s') | _ \<Rightarrow> other_class w)"
| "equals (SEnum t s v) w = (case w of SEnum t' s' v' \<Rightarrow> Inr (s = s' \<and> (s = Known \<longrightarrow> v = v')) | _ \<Rightarrow> other_class w)"
| "equals (SStruct t fs) w =
     (case w of SStruct t' gs \<Rightarrow> equals_fields fs gs | SHeader t' gs s' v' \<Rightarrow> equals_fields fs gs | _ \<Rightarrow> other_class w)"
| "equals (SHeader t fs s v) w =
     (case w of
        SHeader t' gs s' v' \<Rightarrow>
          if \<not> (s = s' \<and> (s = Known \<longrightarrow> v = v')) then Inr False
          else if s = Known \<and> \<not> v then Inr True else equals_fields fs gs
      | _ \<Rightarrow> other_class w)"
| "equals (SArray t es) w = (case w of SArray t' es' \<Rightarrow> equals_list (Inr False) es es' | _ \<Rightarrow> other_class w)"
| "equals (STuple t es) w = (case w of STuple t' es' \<Rightarrow> equals_list (Inl OutOfRange) es es' | _ \<Rightarrow> other_class w)"
| "equals (SExtern t) w = (case w of SExtern t' \<Rightarrow> Inr True | SPacketIn t' off c \<Rightarrow> Inr True | _ \<Rightarrow> other_class w)"
| "equals (SPacketIn t off c) w = (case w of SPacketIn t' off' c' \<Rightarrow> Inr (off = off') | _ \<Rightarrow> other_class w)"
| "equals SVoid w = Inr (w = SVoid)"
| "equals (SException e) w = (case w of SException e' \<Rightarrow> Inr (e = e') | _ \<Rightarrow> other_class w)"
| "equals (SStaticError m) w = (case w of SStaticError m' \<Rightarrow> Inr (m = m') | _ \<Rightarrow> other_class w)"
| "equals SNull w = Inl UndefinedBehaviour"
| "equals_fields fs [] = Inr True"
| "equals_fields fs ((f, w) # gs) =
     (case map_of fs f of
        None \<Rightarrow> Inl BugCheck
      | Some v \<Rightarrow> bind_sum (equals v w) (\<lambda>b. if b then equals_fields fs gs else Inr False))"
| "equals_list short [] ws = Inr True"
| "equals_list short (v # vs) ws =
     (case ws of
        [] \<Rightarrow> short
      | w # ws' \<Rightarrow> bind_sum (equals v w) (\<lambda>b. if b then equals_list short vs ws' else Inr False))"

section \<open>Assignment\<close>

text \<open>Assigning an error leaves a value as it is, but not a Boolean or an enum; tuples and externs are read-only.\<close>

definition keep_on_error :: "sval \<Rightarrow> sval \<Rightarrow> cxx_error + sval" where
  "keep_on_error v w = (if isError w then Inr v else Inl (bad_class w))"

fun assign :: "sval \<Rightarrow> sval \<Rightarrow> cxx_error + sval"
  and assign_fields :: "(string \<times> sval) list \<Rightarrow> (string \<times> sval) list \<Rightarrow> cxx_error + (string \<times> sval) list"
  and assign_list :: "sval list \<Rightarrow> sval list \<Rightarrow> cxx_error + sval list" where
  "assign (SBool s v) w = (case w of SBool s' v' \<Rightarrow> Inr (SBool s' v') | _ \<Rightarrow> Inl (bad_class w))"
| "assign (SInteger t s c) w = (case w of SInteger t' s' c' \<Rightarrow> Inr (SInteger t s' c') | _ \<Rightarrow> keep_on_error (SInteger t s c) w)"
| "assign (SVarbit t s) w = (case w of SVarbit t' s' \<Rightarrow> Inr (SVarbit t s') | _ \<Rightarrow> keep_on_error (SVarbit t s) w)"
| "assign (SEnum t s v) w = (case w of SEnum t' s' v' \<Rightarrow> Inr (SEnum t s' v') | _ \<Rightarrow> Inl (bad_class w))"
| "assign (SStruct t fs) w =
     (case w of
        SStruct t' gs \<Rightarrow> bind_sum (assign_fields fs gs) (\<lambda>fs'. Inr (SStruct t fs'))
      | SHeader t' gs s' v' \<Rightarrow> bind_sum (assign_fields fs gs) (\<lambda>fs'. Inr (SStruct t fs'))
      | _ \<Rightarrow> keep_on_error (SStruct t fs) w)"
| "assign (SHeader t fs s v) w =
     (case w of
        SHeader t' gs s' v' \<Rightarrow> bind_sum (assign_fields fs gs) (\<lambda>fs'. Inr (SHeader t fs' s' v'))
      | _ \<Rightarrow> keep_on_error (SHeader t fs s v) w)"
| "assign (SArray t es) w =
     (case w of SArray t' es' \<Rightarrow> bind_sum (assign_list es es') (\<lambda>vs. Inr (SArray t vs)) | _ \<Rightarrow> keep_on_error (SArray t es) w)"
| "assign (STuple t es) w = Inl BugCheck"
| "assign (SExtern t) w = Inl BugCheck"
| "assign (SPacketIn t off c) w = Inl BugCheck"
| "assign SVoid w = Inl BugCheck"
| "assign (SException e) w = Inr (SException e)"
| "assign (SStaticError m) w = Inr (SStaticError m)"
| "assign SNull w = Inl UndefinedBehaviour"
| "assign_fields fs [] = Inr fs"
| "assign_fields fs ((f, w) # gs) =
     (case map_of fs f of
        None \<Rightarrow> Inl UndefinedBehaviour
      | Some v \<Rightarrow> bind_sum (assign v w) (\<lambda>v'. assign_fields (field_put f v' fs) gs))"
| "assign_list [] ws = Inr []"
| "assign_list (v # vs) ws =
     (case ws of
        [] \<Rightarrow> Inr (v # vs)
      | w # ws' \<Rightarrow> bind_sum (assign v w) (\<lambda>v'. bind_sum (assign_list vs ws') (\<lambda>vs'. Inr (v' # vs'))))"

section \<open>Forgetting and initialization\<close>

text \<open>The fields of a struct are visited by the names in its type.\<close>

definition type_names :: "ptype \<Rightarrow> string list" where
  "type_names t = (case struct_fields t of None \<Rightarrow> [] | Some fs \<Rightarrow> map fst fs)"

fun setAllUnknown :: "sval \<Rightarrow> cxx_error + sval"
  and unknown_fields :: "string list \<Rightarrow> (string \<times> sval) list \<Rightarrow> cxx_error + (string \<times> sval) list"
  and unknown_list :: "sval list \<Rightarrow> cxx_error + sval list" where
  "setAllUnknown (SBool s v) = Inr (SBool NotConstant v)"
| "setAllUnknown (SInteger t s c) = Inr (SInteger t NotConstant c)"
| "setAllUnknown (SVarbit t s) = Inr (SVarbit t NotConstant)"
| "setAllUnknown (SEnum t s v) = Inr (SEnum t NotConstant v)"
| "setAllUnknown (SStruct t fs) =
     (if set (type_names t) \<subseteq> fst ` set fs then bind_sum (unknown_fields (type_names t) fs) (\<lambda>fs'. Inr (SStruct t fs'))
      else Inl UndefinedBehaviour)"
| "setAllUnknown (SHeader t fs s v) =
     (if set (type_names t) \<subseteq> fst ` set fs
      then bind_sum (unknown_fields (type_names t) fs) (\<lambda>fs'. Inr (SHeader t fs' NotConstant v))
      else Inl UndefinedBehaviour)"
| "setAllUnknown (SArray t es) = bind_sum (unknown_list es) (\<lambda>es'. Inr (SArray t es'))"
| "setAllUnknown (STuple t es) = bind_sum (unknown_list es) (\<lambda>es'. Inr (STuple t es'))"
| "setAllUnknown (SExtern t) = Inl BugCheck"
| "setAllUnknown (SPacketIn t off c) = Inl BugCheck"
| "setAllUnknown SVoid = Inr SVoid"
| "setAllUnknown (SException e) = Inr (SException e)"
| "setAllUnknown (SStaticError m) = Inr (SStaticError m)"
| "setAllUnknown SNull = Inl UndefinedBehaviour"
| "unknown_fields ns [] = Inr []"
| "unknown_fields ns ((f, v) # fs) =
     bind_sum (if f \<in> set ns then setAllUnknown v else Inr v) (\<lambda>v'. bind_sum (unknown_fields ns fs) (\<lambda>fs'. Inr ((f, v') # fs')))"
| "unknown_list [] = Inr []"
| "unknown_list (v # vs) = bind_sum (setAllUnknown v) (\<lambda>v'. bind_sum (unknown_list vs) (\<lambda>vs'. Inr (v' # vs')))"

text \<open>\<open>SymbolicHeader::setValid\<close>.\<close>

definition setValid :: "sval \<Rightarrow> bool \<Rightarrow> cxx_error + sval" where
  "setValid h b =
     (case h of
        SHeader t fs s v \<Rightarrow>
          bind_sum (if b then Inr h else setAllUnknown h) (\<lambda>h'.
            case h' of SHeader t' fs' s' v' \<Rightarrow> Inr (SHeader t' fs' Known b) | _ \<Rightarrow> Inl BugCheck)
      | _ \<Rightarrow> Inl (bad_class h))"

fun hasUninitializedParts :: "sval \<Rightarrow> bool" where
  "hasUninitializedParts (SBool s v) = (s = Uninitialized)"
| "hasUninitializedParts (SInteger t s c) = (s = Uninitialized)"
| "hasUninitializedParts (SVarbit t s) = (s = Uninitialized)"
| "hasUninitializedParts (SEnum t s v) = (s = Uninitialized)"
| "hasUninitializedParts (SStruct t fs) = list_ex (\<lambda>(f, v). hasUninitializedParts v) fs"
| "hasUninitializedParts (SHeader t fs s v) = list_ex (\<lambda>(f, v). hasUninitializedParts v) fs"
| "hasUninitializedParts (SArray t es) = list_ex hasUninitializedParts es"
| "hasUninitializedParts (STuple t es) = list_ex hasUninitializedParts es"
| "hasUninitializedParts v = False"

section \<open>Stacks\<close>

text \<open>
  \<open>next\<close> and \<open>last\<close> of a stack return an element, any element when the validity of one before it is not
  known, or the out of bounds exception.
\<close>

datatype stack_ref = Element nat | AnyElement | StackOutOfBounds

definition header_valid :: "sval \<Rightarrow> ValueState \<times> bool" where
  "header_valid h = (case h of SHeader t fs s v \<Rightarrow> (s, v) | _ \<Rightarrow> (NotConstant, False))"

fun stack_next :: "nat \<Rightarrow> sval list \<Rightarrow> stack_ref" where
  "stack_next i [] = StackOutOfBounds"
| "stack_next i (h # hs) =
     (case header_valid h of (s, v) \<Rightarrow> if s \<noteq> Known then AnyElement else if \<not> v then Element i else stack_next (Suc i) hs)"

text \<open>The elements are passed from the end.\<close>

fun stack_last :: "sval list \<Rightarrow> stack_ref" where
  "stack_last [] = StackOutOfBounds"
| "stack_last (h # hs) =
     (case header_valid h of (s, v) \<Rightarrow> if s \<noteq> Known then AnyElement else if v then Element (length hs) else stack_last hs)"

definition sarray_next :: "sval list \<Rightarrow> stack_ref" where
  "sarray_next es = stack_next 0 es"

definition sarray_last :: "sval list \<Rightarrow> stack_ref" where
  "sarray_last es = stack_last (rev es)"

definition sarray_get :: "sval list \<Rightarrow> int \<Rightarrow> sval" where
  "sarray_get es i = (if 0 \<le> i \<and> nat i < length es then es ! nat i else SStaticError ''Out of bounds'')"

text \<open>Any element of a stack, as one value that covers all of them.\<close>

fun merge_into :: "sval \<Rightarrow> sval list \<Rightarrow> cxx_error + sval" where
  "merge_into v [] = Inr v"
| "merge_into v (w # ws) = bind_sum (merge v w) (\<lambda>(v', c). merge_into v' ws)"

definition collapse :: "sval list \<Rightarrow> cxx_error + sval" where
  "collapse es = (case es of [] \<Rightarrow> Inr (SStaticError ''Out of bounds'') | v # vs \<Rightarrow> merge_into v vs)"

section \<open>Maps of values\<close>

type_synonym value_map = "(string, sval) std_map"

definition vmap_set :: "value_map \<Rightarrow> string \<Rightarrow> sval \<Rightarrow> cxx_error + value_map" where
  "vmap_set m x v = (if v = SNull then Inl BugCheck else Inr (map_put x v m))"

definition vmap_get :: "value_map \<Rightarrow> string \<Rightarrow> sval" where
  "vmap_get m x = (case map_of m x of None \<Rightarrow> SNull | Some v \<Rightarrow> v)"

definition vmap_filter :: "(string \<Rightarrow> sval \<Rightarrow> bool) \<Rightarrow> value_map \<Rightarrow> value_map" where
  "vmap_filter p m = filter (\<lambda>(x, v). p x v) m"

fun vmap_merge_loop :: "value_map \<Rightarrow> value_map \<Rightarrow> cxx_error + value_map \<times> bool" where
  "vmap_merge_loop [] n = Inr ([], False)"
| "vmap_merge_loop ((x, v) # m) n =
     (if vmap_get n x = SNull then Inl BugCheck
      else bind_sum (merge v (vmap_get n x)) (\<lambda>(v', b). bind_sum (vmap_merge_loop m n) (\<lambda>(m', c). Inr ((x, v') # m', b \<or> c))))"

definition vmap_merge :: "value_map \<Rightarrow> value_map \<Rightarrow> cxx_error + value_map \<times> bool" where
  "vmap_merge m n = (if length m \<noteq> length n then Inl BugCheck else vmap_merge_loop m n)"

fun vmap_equals_loop :: "value_map \<Rightarrow> value_map \<Rightarrow> cxx_error + bool" where
  "vmap_equals_loop [] n = Inr True"
| "vmap_equals_loop ((x, v) # m) n =
     (if vmap_get n x = SNull then Inl BugCheck
      else bind_sum (equals v (vmap_get n x)) (\<lambda>b. if b then vmap_equals_loop m n else Inr False))"

definition vmap_equals :: "value_map \<Rightarrow> value_map \<Rightarrow> cxx_error + bool" where
  "vmap_equals m n = (if length m \<noteq> length n then Inl BugCheck else vmap_equals_loop m n)"

end
