(* ===== verification/Symbolic_Lattice.thy ===== *)
theory Symbolic_Lattice
  imports Symbolic_Value
begin

text \<open>
  The order on symbolic values that merging computes the least upper bound of, and what follows for the
  analyses that merge until nothing changes: every change lowers a rank.
\<close>

section \<open>Shapes, well-formed values and the order\<close>

text \<open>Two values have the same shape when they differ in their scalars and packet offsets only.\<close>

fun shape :: "sval \<Rightarrow> sval"
  and shape_fields :: "(string \<times> sval) list \<Rightarrow> (string \<times> sval) list"
  and shape_list :: "sval list \<Rightarrow> sval list" where
  "shape (SBool s v) = SBool Uninitialized False"
| "shape (SInteger t s c) = SInteger t Uninitialized None"
| "shape (SVarbit t s) = SVarbit t Uninitialized"
| "shape (SEnum t s v) = SEnum t Uninitialized []"
| "shape (SStruct t fs) = SStruct t (shape_fields fs)"
| "shape (SHeader t fs s v) = SHeader t (shape_fields fs) Uninitialized False"
| "shape (SArray t es) = SArray t (shape_list es)"
| "shape (STuple t es) = STuple t (shape_list es)"
| "shape (SPacketIn t off c) = SPacketIn t 0 False"
| "shape v = v"
| "shape_fields [] = []"
| "shape_fields ((f, v) # fs) = (f, shape v) # shape_fields fs"
| "shape_list [] = []"
| "shape_list (v # vs) = shape v # shape_list vs"

fun sv_ok :: "sval \<Rightarrow> bool"
  and sv_ok_fields :: "(string \<times> sval) list \<Rightarrow> bool"
  and sv_ok_list :: "sval list \<Rightarrow> bool" where
  "sv_ok (SBool s v) \<longleftrightarrow> True"
| "sv_ok (SInteger t s c) \<longleftrightarrow> (s = Known \<longrightarrow> c \<noteq> None)"
| "sv_ok (SVarbit t s) \<longleftrightarrow> True"
| "sv_ok (SEnum t s v) \<longleftrightarrow> True"
| "sv_ok (SStruct t fs) \<longleftrightarrow> distinct (map fst fs) \<and> sv_ok_fields fs"
| "sv_ok (SHeader t fs s v) \<longleftrightarrow> distinct (map fst fs) \<and> sv_ok_fields fs"
| "sv_ok (SArray t es) \<longleftrightarrow> sv_ok_list es"
| "sv_ok (STuple t es) \<longleftrightarrow> sv_ok_list es"
| "sv_ok (SExtern t) \<longleftrightarrow> True"
| "sv_ok (SPacketIn t off c) \<longleftrightarrow> True"
| "sv_ok SVoid \<longleftrightarrow> True"
| "sv_ok v \<longleftrightarrow> False"
| "sv_ok_fields [] \<longleftrightarrow> True"
| "sv_ok_fields ((f, v) # fs) \<longleftrightarrow> sv_ok v \<and> sv_ok_fields fs"
| "sv_ok_list [] \<longleftrightarrow> True"
| "sv_ok_list (v # vs) \<longleftrightarrow> sv_ok v \<and> sv_ok_list vs"

definition st_le :: "ValueState \<Rightarrow> 'a \<Rightarrow> ValueState \<Rightarrow> 'a \<Rightarrow> bool" where
  "st_le s v s' v' \<longleftrightarrow> s' = NotConstant \<or> s = s' \<and> (s = Known \<longrightarrow> v = v')"

fun sv_le :: "sval \<Rightarrow> sval \<Rightarrow> bool"
  and sv_le_fields :: "(string \<times> sval) list \<Rightarrow> (string \<times> sval) list \<Rightarrow> bool"
  and sv_le_list :: "sval list \<Rightarrow> sval list \<Rightarrow> bool" where
  "sv_le (SBool s v) w = (case w of SBool s' v' \<Rightarrow> st_le s v s' v' | _ \<Rightarrow> False)"
| "sv_le (SInteger t s c) w = (case w of SInteger t' s' c' \<Rightarrow> t = t' \<and> st_le s (map_option ivalue c) s' (map_option ivalue c') | _ \<Rightarrow> False)"
| "sv_le (SVarbit t s) w = (case w of SVarbit t' s' \<Rightarrow> t = t' \<and> st_le s () s' () | _ \<Rightarrow> False)"
| "sv_le (SEnum t s v) w = (case w of SEnum t' s' v' \<Rightarrow> t = t' \<and> st_le s v s' v' | _ \<Rightarrow> False)"
| "sv_le (SStruct t fs) w = (case w of SStruct t' gs \<Rightarrow> t = t' \<and> sv_le_fields fs gs | _ \<Rightarrow> False)"
| "sv_le (SHeader t fs s v) w =
     (case w of SHeader t' gs s' v' \<Rightarrow> t = t' \<and> sv_le_fields fs gs \<and> st_le s v s' v' | _ \<Rightarrow> False)"
| "sv_le (SArray t es) w = (case w of SArray t' es' \<Rightarrow> t = t' \<and> sv_le_list es es' | _ \<Rightarrow> False)"
| "sv_le (STuple t es) w = (case w of STuple t' es' \<Rightarrow> t = t' \<and> sv_le_list es es' | _ \<Rightarrow> False)"
| "sv_le (SPacketIn t off c) w = (case w of SPacketIn t' off' c' \<Rightarrow> t = t' \<and> off' \<le> off | _ \<Rightarrow> False)"
| "sv_le v w \<longleftrightarrow> w = v"
| "sv_le_fields [] gs \<longleftrightarrow> gs = []"
| "sv_le_fields ((f, v) # fs) gs = (case gs of [] \<Rightarrow> False | (g, w) # gs' \<Rightarrow> f = g \<and> sv_le v w \<and> sv_le_fields fs gs')"
| "sv_le_list [] ws \<longleftrightarrow> ws = []"
| "sv_le_list (v # vs) ws = (case ws of [] \<Rightarrow> False | w # ws' \<Rightarrow> sv_le v w \<and> sv_le_list vs ws')"

text \<open>How often a value can still change.\<close>

definition st_rank :: "ValueState \<Rightarrow> nat" where
  "st_rank s = (if s = NotConstant then 0 else 1)"

fun sv_rank :: "sval \<Rightarrow> nat"
  and sv_rank_fields :: "(string \<times> sval) list \<Rightarrow> nat"
  and sv_rank_list :: "sval list \<Rightarrow> nat" where
  "sv_rank (SBool s v) = st_rank s"
| "sv_rank (SInteger t s c) = st_rank s"
| "sv_rank (SVarbit t s) = st_rank s"
| "sv_rank (SEnum t s v) = st_rank s"
| "sv_rank (SStruct t fs) = sv_rank_fields fs"
| "sv_rank (SHeader t fs s v) = sv_rank_fields fs + st_rank s"
| "sv_rank (SArray t es) = sv_rank_list es"
| "sv_rank (STuple t es) = sv_rank_list es"
| "sv_rank (SPacketIn t off c) = off"
| "sv_rank v = 0"
| "sv_rank_fields [] = 0"
| "sv_rank_fields ((f, v) # fs) = sv_rank v + sv_rank_fields fs"
| "sv_rank_list [] = 0"
| "sv_rank_list (v # vs) = sv_rank v + sv_rank_list vs"

section \<open>Merging field by field\<close>

fun merge_zip :: "(string \<times> sval) list \<Rightarrow> (string \<times> sval) list \<Rightarrow> cxx_error + (string \<times> sval) list \<times> bool" where
  "merge_zip ((f, v) # fs) ((g, w) # gs) =
     bind_sum (merge v w) (\<lambda>(v', c). bind_sum (merge_zip fs gs) (\<lambda>(fs', d). Inr ((f, v') # fs', c \<or> d)))"
| "merge_zip fs gs = Inr ([], False)"

lemma field_put_append: "f \<notin> fst ` set pre \<Longrightarrow> field_put f v (pre @ (f, w) # fs) = pre @ (f, v) # fs"
  by (induction pre) auto

lemma map_of_middle: "f \<notin> fst ` set pre \<Longrightarrow> map_of (pre @ (f, w) # fs) f = Some w"
  by (induction pre) auto

lemma merge_fields_zip:
  "map fst fs = map fst gs \<Longrightarrow> distinct (map fst (pre @ fs)) \<Longrightarrow>
     merge_fields err (pre @ fs) gs = bind_sum (merge_zip fs gs) (\<lambda>(fs', c). Inr (pre @ fs', c))"
proof (induction fs arbitrary: gs pre)
  case (Cons x fs)
  obtain f v where x: "x = (f, v)" by (cases x)
  obtain w gs' where gs: "gs = (f, w) # gs'" "map fst fs = map fst gs'" using Cons.prems(1) x by (cases gs) auto
  have f: "f \<notin> fst ` set pre" using Cons.prems(2) x by auto
  have "merge_fields err (pre @ (f, v') # fs) gs' = bind_sum (merge_zip fs gs') (\<lambda>(fs', c). Inr (pre @ (f, v') # fs', c))" for v'
    using Cons.IH [OF gs(2), of "pre @ [(f, v')]"] Cons.prems(2) x by simp
  then show ?case
    using f by (auto simp: x gs(1) map_of_middle field_put_append bind_sum_def simp del: map_of_append split: sum.splits)
qed simp

section \<open>Merging is the least upper bound\<close>

text \<open>The merge of two values, whether it changed the first, and its place in the order.\<close>

definition joins :: "sval \<Rightarrow> sval \<Rightarrow> sval \<Rightarrow> bool \<Rightarrow> bool" where
  "joins a b c ch \<longleftrightarrow> sv_ok c \<and> shape c = shape a \<and> sv_le a c \<and> sv_le b c \<and> (\<forall>d. sv_le a d \<longrightarrow> sv_le b d \<longrightarrow> sv_le c d) \<and>
     (ch \<longleftrightarrow> \<not> sv_le c a) \<and> sv_rank c + of_bool ch \<le> sv_rank a"

definition joins_fields :: "(string \<times> sval) list \<Rightarrow> (string \<times> sval) list \<Rightarrow> (string \<times> sval) list \<Rightarrow> bool \<Rightarrow> bool" where
  "joins_fields a b c ch \<longleftrightarrow> sv_ok_fields c \<and> shape_fields c = shape_fields a \<and> sv_le_fields a c \<and> sv_le_fields b c \<and>
     (\<forall>d. sv_le_fields a d \<longrightarrow> sv_le_fields b d \<longrightarrow> sv_le_fields c d) \<and>
     (ch \<longleftrightarrow> \<not> sv_le_fields c a) \<and> sv_rank_fields c + of_bool ch \<le> sv_rank_fields a"

definition joins_list :: "sval list \<Rightarrow> sval list \<Rightarrow> sval list \<Rightarrow> bool \<Rightarrow> bool" where
  "joins_list a b c ch \<longleftrightarrow> sv_ok_list c \<and> shape_list c = shape_list a \<and> sv_le_list a c \<and> sv_le_list b c \<and>
     (\<forall>d. sv_le_list a d \<longrightarrow> sv_le_list b d \<longrightarrow> sv_le_list c d) \<and>
     (ch \<longleftrightarrow> \<not> sv_le_list c a) \<and> sv_rank_list c + of_bool ch \<le> sv_rank_list a"

lemma names_shape: "map fst (shape_fields fs) = map fst fs" "length (shape_list vs) = length vs"
  by (induction fs) (auto, induction vs, auto)

lemma shape_names: "shape_fields fs = shape_fields gs \<Longrightarrow> map fst fs = map fst gs"
  using names_shape(1) by metis

lemma shape_length: "shape_list vs = shape_list ws \<Longrightarrow> length vs = length ws"
  using names_shape(2) by metis

lemma sv_le_Cons: "sv_le_fields ((f, v) # fs) d \<longleftrightarrow> (\<exists>w gs. d = (f, w) # gs \<and> sv_le v w \<and> sv_le_fields fs gs)"
  "sv_le_list (v # vs) ws \<longleftrightarrow> (\<exists>w ws'. ws = w # ws' \<and> sv_le v w \<and> sv_le_list vs ws')"
  by (auto split: list.splits)

lemma joins_Cons:
  assumes "joins v w x b"
  shows "joins_fields fs gs hs c \<Longrightarrow> joins_fields ((f, v) # fs) ((f, w) # gs) ((f, x) # hs) (b \<or> c)"
    and "joins_list vs ws xs c \<Longrightarrow> joins_list (v # vs) (w # ws) (x # xs) (b \<or> c)"
proof -
  assume fields: "joins_fields fs gs hs c"
  have "\<forall>d. sv_le_fields ((f, v) # fs) d \<longrightarrow> sv_le_fields ((f, w) # gs) d \<longrightarrow> sv_le_fields ((f, x) # hs) d"
    using assms fields unfolding joins_def joins_fields_def sv_le_Cons by blast
  then show "joins_fields ((f, v) # fs) ((f, w) # gs) ((f, x) # hs) (b \<or> c)"
    using assms fields unfolding joins_def joins_fields_def by (cases b; cases c) simp_all
next
  assume list: "joins_list vs ws xs c"
  have "\<forall>d. sv_le_list (v # vs) d \<longrightarrow> sv_le_list (w # ws) d \<longrightarrow> sv_le_list (x # xs) d"
    using assms list unfolding joins_def joins_list_def sv_le_Cons by blast
  then show "joins_list (v # vs) (w # ws) (x # xs) (b \<or> c)"
    using assms list unfolding joins_def joins_list_def by (cases b; cases c) simp_all
qed

text \<open>The scalars.\<close>

definition st_joins :: "ValueState \<Rightarrow> 'a \<Rightarrow> ValueState \<Rightarrow> 'a \<Rightarrow> ValueState \<Rightarrow> 'a \<Rightarrow> bool" where
  "st_joins s v s' v' m u \<longleftrightarrow> st_le s v m u \<and> st_le s' v' m u \<and> (\<forall>t x. st_le s v t x \<longrightarrow> st_le s' v' t x \<longrightarrow> st_le m u t x) \<and>
    (m \<noteq> s \<longleftrightarrow> \<not> st_le m u s v) \<and> st_rank m + of_bool (m \<noteq> s) \<le> st_rank s"

definition st_merge :: "ValueState \<Rightarrow> 'a \<Rightarrow> ValueState \<Rightarrow> 'a \<Rightarrow> ValueState" where
  "st_merge s v s' v' = (if mergeState s s' = Known \<and> v \<noteq> v' then NotConstant else mergeState s s')"

lemma st_merge_joins: "(st_merge s v s' v' = Known \<Longrightarrow> u = v) \<Longrightarrow> st_joins s v s' v' (st_merge s v s' v') u"
  by (cases s; cases s') (auto simp: st_joins_def st_merge_def mergeState_def st_le_def st_rank_def)

lemma le_scalar [simp]:
  "sv_le (SBool s v) d \<longleftrightarrow> (\<exists>s' v'. d = SBool s' v' \<and> st_le s v s' v')"
  "sv_le (SInteger t s c) d \<longleftrightarrow> (\<exists>s' c'. d = SInteger t s' c' \<and> st_le s (map_option ivalue c) s' (map_option ivalue c'))"
  "sv_le (SVarbit t s) d \<longleftrightarrow> (\<exists>s'. d = SVarbit t s' \<and> st_le s () s' ())"
  "sv_le (SEnum t s x) d \<longleftrightarrow> (\<exists>s' x'. d = SEnum t s' x' \<and> st_le s x s' x')"
  "sv_le (SPacketIn t n p) d \<longleftrightarrow> (\<exists>n' p'. d = SPacketIn t n' p' \<and> n' \<le> n)"
  "sv_le (SStruct t fs) d \<longleftrightarrow> (\<exists>gs. d = SStruct t gs \<and> sv_le_fields fs gs)"
  "sv_le (SHeader t fs s v) d \<longleftrightarrow> (\<exists>gs s' v'. d = SHeader t gs s' v' \<and> sv_le_fields fs gs \<and> st_le s v s' v')"
  "sv_le (SArray t es) d \<longleftrightarrow> (\<exists>es'. d = SArray t es' \<and> sv_le_list es es')"
  "sv_le (STuple t es) d \<longleftrightarrow> (\<exists>es'. d = STuple t es' \<and> sv_le_list es es')"
  by (cases d; auto)+

declare sv_le.simps(1-9) [simp del]

lemma joins_scalar:
  "st_joins s v s' v' m u \<Longrightarrow> joins (SBool s v) (SBool s' v') (SBool m u) (m \<noteq> s)"
  "st_joins s (map_option ivalue c) s' (map_option ivalue c') m (map_option ivalue d) \<Longrightarrow> (m = Known \<Longrightarrow> d \<noteq> None) \<Longrightarrow>
     joins (SInteger t s c) (SInteger t s' c') (SInteger t m d) (m \<noteq> s)"
  "st_joins s () s' () m () \<Longrightarrow> joins (SVarbit t s) (SVarbit t s') (SVarbit t m) (m \<noteq> s)"
  "st_joins s x s' x' m y \<Longrightarrow> joins (SEnum t s x) (SEnum t s' x') (SEnum t m y) (m \<noteq> s)"
  by (auto simp: st_joins_def joins_def)+

lemma joins_composite:
  "joins_fields fs gs hs c \<Longrightarrow> distinct (map fst fs) \<Longrightarrow> joins (SStruct t fs) (SStruct t gs) (SStruct t hs) c"
  "joins_fields fs gs hs c \<Longrightarrow> distinct (map fst fs) \<Longrightarrow> st_joins s v s' v' m u \<Longrightarrow>
     joins (SHeader t fs s v) (SHeader t gs s' v') (SHeader t hs m u) (c \<or> m \<noteq> s)"
  "joins_list es es' vs c \<Longrightarrow> joins (SArray t es) (SArray t es') (SArray t vs) c"
  "joins_list es es' vs c \<Longrightarrow> joins (STuple t es) (STuple t es') (STuple t vs) c"
proof -
  assume f: "joins_fields fs gs hs c" and d: "distinct (map fst fs)"
  then have n: "map fst hs = map fst fs" using shape_names [of hs fs] by (simp add: joins_fields_def)
  show "joins (SStruct t fs) (SStruct t gs) (SStruct t hs) c"
    using f d n by (auto simp: joins_fields_def joins_def)
  assume s: "st_joins s v s' v' m u"
  have "\<forall>d. sv_le (SHeader t fs s v) d \<longrightarrow> sv_le (SHeader t gs s' v') d \<longrightarrow> sv_le (SHeader t hs m u) d"
    using f s unfolding joins_fields_def st_joins_def le_scalar by blast
  moreover have "sv_rank_fields hs + st_rank m + of_bool (c \<or> m \<noteq> s) \<le> sv_rank_fields fs + st_rank s"
    using f s unfolding joins_fields_def st_joins_def by (cases c; cases "m \<noteq> s") simp_all
  ultimately show "joins (SHeader t fs s v) (SHeader t gs s' v') (SHeader t hs m u) (c \<or> m \<noteq> s)"
    using f s d n unfolding joins_fields_def joins_def st_joins_def le_scalar by simp
next
  assume l: "joins_list es es' vs c"
  show "joins (SArray t es) (SArray t es') (SArray t vs) c" "joins (STuple t es) (STuple t es') (STuple t vs) c"
    using l by (auto simp: joins_list_def joins_def)
qed

lemma shape_inv:
  "shape (SBool s v) = shape w \<Longrightarrow> \<exists>s' v'. w = SBool s' v'"
  "shape (SInteger t s c) = shape w \<Longrightarrow> \<exists>s' c'. w = SInteger t s' c'"
  "shape (SVarbit t s) = shape w \<Longrightarrow> \<exists>s'. w = SVarbit t s'"
  "shape (SEnum t s x) = shape w \<Longrightarrow> \<exists>s' x'. w = SEnum t s' x'"
  "shape (SStruct t fs) = shape w \<Longrightarrow> \<exists>gs. w = SStruct t gs \<and> shape_fields fs = shape_fields gs"
  "shape (SHeader t fs s v) = shape w \<Longrightarrow> \<exists>gs s' v'. w = SHeader t gs s' v' \<and> shape_fields fs = shape_fields gs"
  "shape (SArray t es) = shape w \<Longrightarrow> \<exists>es'. w = SArray t es' \<and> shape_list es = shape_list es'"
  "shape (STuple t es) = shape w \<Longrightarrow> \<exists>es'. w = STuple t es' \<and> shape_list es = shape_list es'"
  "shape (SPacketIn t n p) = shape w \<Longrightarrow> \<exists>n' p'. w = SPacketIn t n' p'"
  "shape (SExtern t) = shape w \<Longrightarrow> w = SExtern t" "shape SVoid = shape w \<Longrightarrow> w = SVoid"
  by (cases w; simp)+

lemma merge_int_joins:
  assumes "sv_ok (SInteger t s i)" and "sv_ok (SInteger t s' i')"
  shows "\<exists>c ch. merge (SInteger t s i) (SInteger t s' i') = Inr (c, ch) \<and> joins (SInteger t s i) (SInteger t s' i') c ch"
proof -
  let ?v = "map_option ivalue"
  define m where "m = st_merge s (?v i) s' (?v i')"
  define d where "d = (if mergeState s s' = Known \<and> ?v i \<noteq> ?v i' then None else i)"
  have k: "s = Known \<and> s' = Known" "\<exists>a b. i = Some a \<and> i' = Some b" if "mergeState s s' = Known"
    using that assms by (auto simp: mergeState_def split: if_splits)
  have d: "merge_int s i s' i' = Inr (m, d)"
  proof (cases "mergeState s s' = Known")
    case True
    then obtain a b where "i = Some a" "i' = Some b" using k(2) by blast
    then show ?thesis using True by (cases "ivalue a = ivalue b") (simp_all add: d_def m_def st_merge_def merge_int_def)
  qed (simp add: d_def m_def st_merge_def merge_int_def)
  have d': "d = i \<and> d \<noteq> None" if "m = Known"
    using that k(2) by (cases "mergeState s s' = Known") (auto simp: d_def m_def st_merge_def split: if_splits)
  have "st_joins s (?v i) s' (?v i') m (?v d)" using st_merge_joins [of s "?v i" s' "?v i'" "?v d"] d' by (simp add: m_def)
  then have "joins (SInteger t s i) (SInteger t s' i') (SInteger t m d) (m \<noteq> s)" using joins_scalar(2) d' by blast
  then show ?thesis using d by simp
qed

lemma merge_constant:
  "shape (SExtern t) = shape b \<Longrightarrow> \<exists>c ch. merge (SExtern t) b = Inr (c, ch) \<and> joins (SExtern t) b c ch"
  "shape SVoid = shape b \<Longrightarrow> \<exists>c ch. merge SVoid b = Inr (c, ch) \<and> joins SVoid b c ch"
proof -
  assume "shape (SExtern t) = shape b"
  from shape_inv(10) [OF this] show "\<exists>c ch. merge (SExtern t) b = Inr (c, ch) \<and> joins (SExtern t) b c ch" by (simp add: joins_def)
next
  assume "shape SVoid = shape b"
  from shape_inv(11) [OF this] show "\<exists>c ch. merge SVoid b = Inr (c, ch) \<and> joins SVoid b c ch" by (simp add: joins_def)
qed

lemma merge_joins:
  "sv_ok a \<Longrightarrow> sv_ok b \<Longrightarrow> shape a = shape b \<Longrightarrow> \<exists>c ch. merge a b = Inr (c, ch) \<and> joins a b c ch"
  "sv_ok_fields fs \<Longrightarrow> sv_ok_fields gs \<Longrightarrow> shape_fields fs = shape_fields gs \<Longrightarrow>
     \<exists>c ch. merge_zip fs gs = Inr (c, ch) \<and> joins_fields fs gs c ch"
  "sv_ok_list es \<Longrightarrow> sv_ok_list es' \<Longrightarrow> shape_list es = shape_list es' \<Longrightarrow>
     \<exists>c ch. merge_list es es' = Inr (c, ch) \<and> joins_list es es' c ch"
proof (induction a and fs and es arbitrary: b and gs and es' rule: shape_shape_fields_shape_list.induct)
  case (1 s v)
  then obtain s' v' where "b = SBool s' v'" using shape_inv(1) by blast
  then show ?case using joins_scalar(1) [OF st_merge_joins [of s v s' v' v]] by (simp add: merge_bool_def Let_def st_merge_def)
next
  case (2 t s i)
  then obtain s' i' where "b = SInteger t s' i'" using shape_inv(2) by blast
  then show ?case using merge_int_joins "2.prems" by blast
next
  case (3 t s)
  then obtain s' where "b = SVarbit t s'" using shape_inv(3) by blast
  then show ?case using joins_scalar(3) [OF st_merge_joins [of s "()" s' "()" "()"]] by (simp add: st_merge_def)
next
  case (4 t s x)
  then obtain s' x' where "b = SEnum t s' x'" using shape_inv(4) by blast
  then show ?case using joins_scalar(4) [OF st_merge_joins [of s x s' x' x]] by (simp add: merge_enum_def Let_def st_merge_def)
next
  case (5 t fs)
  obtain gs where b: "b = SStruct t gs" "shape_fields fs = shape_fields gs" using shape_inv(5) "5.prems"(3) by blast
  obtain c ch where c: "merge_zip fs gs = Inr (c, ch)" "joins_fields fs gs c ch" using "5.IH" [OF _ _ b(2)] "5.prems"(1,2) b(1) by auto
  have "merge_fields BugCheck fs gs = Inr (c, ch)"
    using merge_fields_zip [OF shape_names [OF b(2)], of "[]"] "5.prems"(1) c(1) by simp
  then show ?case using joins_composite(1) [OF c(2)] b(1) "5.prems"(1) by simp
next
  case (6 t fs s v)
  obtain gs s' v' where b: "b = SHeader t gs s' v'" "shape_fields fs = shape_fields gs" using shape_inv(6) "6.prems"(3) by blast
  obtain c ch where c: "merge_zip fs gs = Inr (c, ch)" "joins_fields fs gs c ch" using "6.IH" [OF _ _ b(2)] "6.prems"(1,2) b(1) by auto
  have "merge_fields UndefinedBehaviour fs gs = Inr (c, ch)"
    using merge_fields_zip [OF shape_names [OF b(2)], of "[]"] "6.prems"(1) c(1) by simp
  then show ?case
    using joins_composite(2) [OF c(2) _ st_merge_joins [of s v s' v' v]] b(1) "6.prems"(1)
    by (simp add: merge_bool_def Let_def st_merge_def)
next
  case (7 t es)
  obtain es' where b: "b = SArray t es'" "shape_list es = shape_list es'" using shape_inv(7) "7.prems"(3) by blast
  obtain c ch where c: "merge_list es es' = Inr (c, ch)" "joins_list es es' c ch" using "7.IH" [OF _ _ b(2)] "7.prems"(1,2) b(1) by auto
  then show ?case using joins_composite(3) [OF c(2)] b(1) by simp
next
  case (8 t es)
  obtain es' where b: "b = STuple t es'" "shape_list es = shape_list es'" using shape_inv(8) "8.prems"(3) by blast
  obtain c ch where c: "merge_list es es' = Inr (c, ch)" "joins_list es es' c ch" using "8.IH" [OF _ _ b(2)] "8.prems"(1,2) b(1) by auto
  then show ?case using joins_composite(4) [OF c(2)] b(1) shape_length [OF b(2)] by simp
next
  case (9 t n p)
  then obtain n' p' where "b = SPacketIn t n' p'" using shape_inv(9) by blast
  then show ?case by (auto simp: joins_def merge_packet_def)
next
  case "10_1"
  then show ?case using merge_constant(1) by blast
next
  case "10_2"
  then show ?case using merge_constant(2) by blast
next
  case (12 f v fs)
  obtain w hs where g: "gs = (f, w) # hs" "shape v = shape w" "shape_fields fs = shape_fields hs"
    using "12.prems"(3) by (cases gs) auto
  obtain x b where x: "merge v w = Inr (x, b)" "joins v w x b" using "12.IH"(1) [OF _ _ g(2)] "12.prems"(1,2) g(1) by auto
  obtain xs c where xs: "merge_zip fs hs = Inr (xs, c)" "joins_fields fs hs xs c" using "12.IH"(2) [OF _ _ g(3)] "12.prems"(1,2) g(1) by auto
  show ?case using joins_Cons(1) [OF x(2) xs(2)] x(1) xs(1) g(1) by simp
next
  case (14 v vs)
  obtain w ws where g: "es' = w # ws" "shape v = shape w" "shape_list vs = shape_list ws" using "14.prems"(3) by (cases es') auto
  obtain x b where x: "merge v w = Inr (x, b)" "joins v w x b" using "14.IH"(1) [OF _ _ g(2)] "14.prems"(1,2) g(1) by auto
  obtain xs c where xs: "merge_list vs ws = Inr (xs, c)" "joins_list vs ws xs c" using "14.IH"(2) [OF _ _ g(3)] "14.prems"(1,2) g(1) by auto
  show ?case using joins_Cons(2) [OF x(2) xs(2)] x(1) xs(1) g(1) by simp
next
  case 11
  then show ?case using shape_names [of "[]" gs] by (auto simp: joins_fields_def)
next
  case 13
  then show ?case using shape_length [of "[]" es'] by (auto simp: joins_list_def)
qed simp_all


lemma sv_le_refl [simp]: "sv_le a a" "sv_le_fields fs fs" "sv_le_list vs vs"
  by (induction a and fs and vs rule: shape_shape_fields_shape_list.induct) (auto simp: st_le_def)

section \<open>Concrete values\<close>

text \<open>The values a symbolic value stands for; \<open>CUndef\<close> is a value that was never written.\<close>

datatype cval = CUndef | CBool bool | CInt int | CBitstring "bool list" | CEnum string
  | CStruct "(string \<times> cval) list" | CHeader "(string \<times> cval) list" cval | CList "cval list" | CExtern | CPacket nat | CVoid

definition st_conc :: "ValueState \<Rightarrow> cval \<Rightarrow> cval \<Rightarrow> bool" where
  "st_conc s v c \<longleftrightarrow> (case s of Uninitialized \<Rightarrow> c = CUndef | NotConstant \<Rightarrow> True | Known \<Rightarrow> c = v)"

fun conc :: "sval \<Rightarrow> cval \<Rightarrow> bool"
  and conc_fields :: "(string \<times> sval) list \<Rightarrow> (string \<times> cval) list \<Rightarrow> bool"
  and conc_list :: "sval list \<Rightarrow> cval list \<Rightarrow> bool" where
  "conc (SBool s v) c = st_conc s (CBool v) c"
| "conc (SInteger t s i) c = st_conc s (case i of None \<Rightarrow> CUndef | Some a \<Rightarrow> CInt (ivalue a)) c"
| "conc (SVarbit t s) c = (s \<noteq> Uninitialized \<or> c = CUndef)"
| "conc (SEnum t s v) c = st_conc s (CEnum v) c"
| "conc (SStruct t fs) c = (case c of CStruct cs \<Rightarrow> conc_fields fs cs | _ \<Rightarrow> False)"
| "conc (SHeader t fs s v) c = (case c of CHeader cs b \<Rightarrow> conc_fields fs cs \<and> st_conc s (CBool v) b | _ \<Rightarrow> False)"
| "conc (SArray t es) c = (case c of CList cs \<Rightarrow> conc_list es cs | _ \<Rightarrow> False)"
| "conc (STuple t es) c = (case c of CList cs \<Rightarrow> conc_list es cs | _ \<Rightarrow> False)"
| "conc (SExtern t) c = (c = CExtern)"
| "conc (SPacketIn t off k) c = (case c of CPacket n \<Rightarrow> off \<le> n | _ \<Rightarrow> False)"
| "conc SVoid c = (c = CVoid)"
| "conc v c = False"
| "conc_fields [] cs = (cs = [])"
| "conc_fields ((f, v) # fs) cs = (case cs of [] \<Rightarrow> False | (g, c) # cs' \<Rightarrow> f = g \<and> conc v c \<and> conc_fields fs cs')"
| "conc_list [] cs = (cs = [])"
| "conc_list (v # vs) cs = (case cs of [] \<Rightarrow> False | c # cs' \<Rightarrow> conc v c \<and> conc_list vs cs')"

lemma st_conc_mono: "st_le s v s' v' \<Longrightarrow> st_conc s (f v) c \<Longrightarrow> st_conc s' (f v') c"
  by (auto simp: st_le_def st_conc_def split: ValueState.splits)

lemma conc_mono:
  "sv_le a b \<Longrightarrow> conc a c \<Longrightarrow> conc b c"
  "sv_le_fields fs gs \<Longrightarrow> conc_fields fs cs \<Longrightarrow> conc_fields gs cs"
  "sv_le_list vs ws \<Longrightarrow> conc_list vs ds \<Longrightarrow> conc_list ws ds"
proof (induction a and fs and vs arbitrary: b c and gs cs and ws ds rule: shape_shape_fields_shape_list.induct)
  case (2 t s i)
  then show ?case by (auto simp: st_le_def st_conc_def split: ValueState.splits option.splits)
next
  case (12 f v fs)
  then show ?case by (auto simp: sv_le_Cons simp del: sv_le_fields.simps split: list.splits)
next
  case (14 v vs)
  then show ?case by (auto simp: sv_le_Cons simp del: sv_le_list.simps split: list.splits)
qed (auto simp: st_le_def st_conc_def split: cval.splits ValueState.splits)

section \<open>Maps of values\<close>







section \<open>Creation\<close>

lemma sv_ok_map_put: "sv_ok v \<Longrightarrow> sv_ok_fields fs \<Longrightarrow> sv_ok_fields (map_put f v fs)"
  by (induction f v fs rule: map_put.induct) auto

lemma shape_map_put: "shape_fields (map_put f v fs) = map_put f (shape v) (shape_fields fs)"
  by (induction f v fs rule: map_put.induct) auto

lemma list_replicate: "shape_list (replicate n v) = replicate n (shape v)" "sv_ok v \<Longrightarrow> sv_ok_list (replicate n v)"
  by (induction n) auto

text \<open>Types of data: no part of them is a parser, a control or another type without values.\<close>

fun data_type :: "ptype \<Rightarrow> bool"
  and data_fields :: "(string \<times> ptype) list \<Rightarrow> bool"
  and data_list :: "ptype list \<Rightarrow> bool" where
  "data_type (Type_Struct n fs) = data_fields fs"
| "data_type (Type_Header n fs) = data_fields fs"
| "data_type (Type_Tuple ts) = data_list ts"
| "data_type (Type_Stack et n) = data_type et"
| "data_type (Type_Newtype n t) = data_type t"
| "data_type (Type_Other n) = (n = ''match_kind'')"
| "data_type t = True"
| "data_fields [] = True"
| "data_fields ((f, t) # fs) = (data_type t \<and> data_fields fs)"
| "data_list [] = True"
| "data_list (t # ts) = (data_type t \<and> data_list ts)"

lemma create_ok:
  "data_type t \<Longrightarrow> create t u = Inr v \<Longrightarrow> sv_ok v \<and> (\<exists>w. create t u' = Inr w \<and> shape w = shape v)"
  "data_fields fs \<Longrightarrow> create_fields fs u = Inr vs \<Longrightarrow>
     map_ok vs \<and> sv_ok_fields vs \<and> (\<exists>ws. create_fields fs u' = Inr ws \<and> shape_fields ws = shape_fields vs)"
  "data_list ts \<Longrightarrow> create_list ts u = Inr xs \<Longrightarrow>
     sv_ok_list xs \<and> (\<exists>ys. create_list ts u' = Inr ys \<and> shape_list ys = shape_list xs)"
proof (induction t u and fs u and ts u arbitrary: v and vs and xs rule: create_create_fields_create_list.induct)
  case (4 n fs u)
  obtain vs where vs: "create_fields fs u = Inr vs" "v = SStruct (Type_Struct n fs) vs" using "4.prems"(2) by (auto simp: bind_sum_Inr)
  then show ?case using "4.IH" [OF _ vs(1)] "4.prems"(1) map_ok_distinct [of vs] by auto
next
  case (5 n fs u)
  obtain vs where vs: "create_fields fs u = Inr vs" "v = SHeader (Type_Header n fs) vs Known False" using "5.prems"(2) by (auto simp: bind_sum_Inr)
  then show ?case using "5.IH" [OF _ vs(1)] "5.prems"(1) map_ok_distinct [of vs] by auto
next
  case (7 et n u)
  show ?case
  proof (cases "n = 0")
    case False
    obtain h gs where et: "et = Type_Header h gs" using "7.prems"(2) False by (cases et) simp_all
    obtain e where e: "create et u = Inr e" "v = SArray (Type_Stack et n) (replicate n e)"
      using "7.prems"(2) False et by (auto simp: bind_sum_Inr simp del: create.simps(5))
    have "data_type et" using "7.prems"(1) by simp
    then obtain w where "sv_ok e" "create et u' = Inr w" "shape w = shape e" using "7.IH" [OF False et] e(1) et by blast
    then show ?thesis using False et e(2) by (simp add: list_replicate del: create.simps(5))
  qed (use "7.prems" in auto)
next
  case (8 ts u)
  obtain vs where vs: "create_list ts u = Inr vs" "v = STuple (Type_Tuple ts) vs" using "8.prems"(2) by (auto simp: bind_sum_Inr)
  then show ?case using "8.IH" [OF _ vs(1)] "8.prems"(1) by auto
next
  case (15 f t fs u)
  obtain x y where x: "create t u = Inr x" "create_fields fs u = Inr y" "vs = (if f \<in> fst ` set fs then y else map_put f x y)"
    using "15.prems"(2) by (auto simp: bind_sum_Inr)
  have d: "data_type t" "data_fields fs" using "15.prems"(1) by simp_all
  show ?case using "15.IH"(1) [OF d(1) x(1)] "15.IH"(2) [OF x(1) d(2) x(2)] x(3) by (auto simp: shape_map_put sv_ok_map_put)
next
  case (17 t ts u)
  obtain x y where x: "create t u = Inr x" "create_list ts u = Inr y" "xs = x # y"
    using "17.prems"(2) by (auto simp: bind_sum_Inr)
  have d: "data_type t" "data_list ts" using "17.prems"(1) by simp_all
  show ?case using "17.IH"(1) [OF d(1) x(1)] "17.IH"(2) [OF x(1) d(2) x(2)] x(3) by auto
qed (auto simp: init_state_def map_ok_def split: if_splits)

section \<open>Properties\<close>

text \<open>
  C5: The values form a lattice, as the base class asks for: merging two well-formed values of the same
  shape never fails, returns their least upper bound, which stands for every concrete value that either of
  them stands for, and reports a change exactly when the bound is above the first value.
\<close>

theorem symbolic_merge_join:
  assumes "sv_ok a" and "sv_ok b" and "shape a = shape b"
  shows "\<exists>c ch. merge a b = Inr (c, ch) \<and> sv_ok c \<and> shape c = shape a \<and> sv_le a c \<and> sv_le b c \<and>
    (\<forall>d. sv_le a d \<longrightarrow> sv_le b d \<longrightarrow> sv_le c d) \<and> (ch \<longleftrightarrow> \<not> sv_le c a) \<and> (\<forall>v. conc a v \<or> conc b v \<longrightarrow> conc c v)"
  using merge_joins(1) [OF assms] conc_mono(1) unfolding joins_def by blast

definition hdr1 :: sval where
  "hdr1 = SHeader (Type_Header ''h'' [(''f'', Type_Bits 8 False), (''g'', Type_Boolean)])
     [(''f'', SInteger (Type_Bits 8 False) Known (Some (IConst 3 (Type_Bits 8 False) 3 10))), (''g'', SBool Known True)] Known True"

definition hdr2 :: sval where
  "hdr2 = SHeader (Type_Header ''h'' [(''f'', Type_Bits 8 False), (''g'', Type_Boolean)])
     [(''f'', SInteger (Type_Bits 8 False) Known (Some (IConst 4 (Type_Bits 8 False) 4 10))), (''g'', SBool Known True)] Uninitialized False"

definition hdr12 :: sval where
  "hdr12 = SHeader (Type_Header ''h'' [(''f'', Type_Bits 8 False), (''g'', Type_Boolean)])
     [(''f'', SInteger (Type_Bits 8 False) NotConstant None), (''g'', SBool Known True)] NotConstant True"

theorem symbolic_merge_join_witness: "merge hdr1 hdr2 = Inr (hdr12, True) \<and> sv_le hdr1 hdr12 \<and> sv_le hdr2 hdr12"
proof -
  have m: "merge hdr1 hdr2 = Inr (hdr12, True)" by code_simp
  have "sv_ok hdr1" "sv_ok hdr2" "shape hdr1 = shape hdr2" by code_simp+
  from symbolic_merge_join [OF this] show ?thesis using m by auto
qed



text \<open>
  C17: The factory creates well-formed values whose shape is given by the type alone, so that an
  uninitialized and an unknown value of a type can always be merged, and the merge is well formed and of
  that shape again.
\<close>

theorem create_typed:
  assumes "data_type t" and "create t True = Inr v" and "create t False = Inr w"
  shows "sv_ok v \<and> sv_ok w \<and> shape v = shape w \<and> (\<exists>c ch. merge v w = Inr (c, ch) \<and> sv_ok c \<and> shape c = shape w)"
proof -
  have "sv_ok v" "sv_ok w" "shape v = shape w"
    using create_ok(1) [OF assms(1,2), of False] create_ok(1) [OF assms(1,3), of True] assms(3) by auto
  then show ?thesis using merge_joins(1) [of v w] unfolding joins_def by metis
qed

theorem create_typed_witness:
  "create (Type_Struct ''s'' [(''b'', Type_Bits 8 False), (''a'', Type_Stack (Type_Header ''h'' [(''v'', Type_Varbits 16)]) 2)]) True =
     Inr (SStruct (Type_Struct ''s'' [(''b'', Type_Bits 8 False), (''a'', Type_Stack (Type_Header ''h'' [(''v'', Type_Varbits 16)]) 2)])
       [(''a'', SArray (Type_Stack (Type_Header ''h'' [(''v'', Type_Varbits 16)]) 2)
          (replicate 2 (SHeader (Type_Header ''h'' [(''v'', Type_Varbits 16)]) [(''v'', SVarbit (Type_Varbits 16) Uninitialized)] Known False))),
        (''b'', SInteger (Type_Bits 8 False) Uninitialized None)]) \<and>
   sv_ok (SStruct (Type_Struct ''s'' [(''b'', Type_Bits 8 False), (''a'', Type_Stack (Type_Header ''h'' [(''v'', Type_Varbits 16)]) 2)])
       [(''a'', SArray (Type_Stack (Type_Header ''h'' [(''v'', Type_Varbits 16)]) 2)
          (replicate 2 (SHeader (Type_Header ''h'' [(''v'', Type_Varbits 16)]) [(''v'', SVarbit (Type_Varbits 16) Uninitialized)] Known False))),
        (''b'', SInteger (Type_Bits 8 False) Uninitialized None)])"
  (is "create ?t True = Inr ?v \<and> sv_ok ?v")
proof -
  let ?w = "SStruct ?t
       [(''a'', SArray (Type_Stack (Type_Header ''h'' [(''v'', Type_Varbits 16)]) 2)
          (replicate 2 (SHeader (Type_Header ''h'' [(''v'', Type_Varbits 16)]) [(''v'', SVarbit (Type_Varbits 16) Uninitialized)] Known False))),
        (''b'', SInteger (Type_Bits 8 False) NotConstant None)]"
  have "create ?t True = Inr ?v" "create ?t False = Inr ?w" "data_type ?t" by code_simp+
  from create_typed [OF this(3,1,2)] show ?thesis using \<open>create ?t True = Inr ?v\<close> by blast
qed

end
