(* ===== verification/Symbolic_Stack.thy ===== *)
theory Symbolic_Stack
  imports Symbolic_Lattice
begin

text \<open>
  \<open>SymbolicArray::shift\<close>, which \<open>push_front\<close> and \<open>pop_front\<close> call. The array holds pointers to its
  headers and the loops copy pointers, so this operation is modelled on a store of headers.
\<close>

section \<open>Shifting pointers\<close>

text \<open>The loops that copy; the positions are visited in the order of the source.\<close>

fun copy_down :: "nat \<Rightarrow> nat \<Rightarrow> nat \<Rightarrow> nat list \<Rightarrow> nat list" where
  "copy_down k i 0 vs = vs"
| "copy_down k i (Suc m) vs = copy_down k (Suc i) m (vs[i := vs ! (i + k)])"

fun copy_up :: "nat \<Rightarrow> nat \<Rightarrow> nat \<Rightarrow> nat list \<Rightarrow> nat list" where
  "copy_up k i 0 vs = vs"
| "copy_up k i (Suc m) vs = copy_up k (Suc i) m (vs[length vs - i - 1 := vs ! (length vs - i - k - 1)])"

text \<open>\<open>setValid(false)\<close> of the headers at some addresses.\<close>

fun invalidate :: "(nat \<Rightarrow> sval) \<Rightarrow> nat list \<Rightarrow> cxx_error + (nat \<Rightarrow> sval)" where
  "invalidate h [] = Inr h"
| "invalidate h (a # as) = bind_sum (setValid (h a) False) (\<lambda>v. invalidate (h(a := v)) as)"

text \<open>
  A shift by more than the size makes the unsigned loop bound wrap around, and the loop leaves the
  vector.
\<close>

definition sarray_shift :: "(nat \<Rightarrow> sval) \<Rightarrow> nat list \<Rightarrow> int \<Rightarrow> cxx_error + (nat \<Rightarrow> sval) \<times> nat list" where
  "sarray_shift h vs amount =
     (if \<bar>amount\<bar> > int (length vs) then Inl UndefinedBehaviour
      else if amount < 0 then
        let k = nat (- amount); vs' = copy_down k 0 (length vs - k) vs in
        bind_sum (invalidate h (drop (length vs - k) vs')) (\<lambda>h'. Inr (h', vs'))
      else if amount > 0 then
        let k = nat amount; vs' = copy_up k 0 (length vs - k) vs in
        bind_sum (invalidate h (take k vs')) (\<lambda>h'. Inr (h', vs'))
      else Inr (h, vs))"

lemma copy_down_eq:
  "i + m + k = length vs \<Longrightarrow> copy_down k i m vs = take i vs @ take m (drop (i + k) vs) @ drop (i + m) vs"
proof (induction m arbitrary: i vs)
  case (Suc m)
  let ?vs = "vs[i := vs ! (i + k)]"
  have i: "i < length vs" "i + k < length vs" using Suc.prems by simp_all
  have "copy_down k (Suc i) m ?vs = take (Suc i) ?vs @ take m (drop (Suc i + k) ?vs) @ drop (Suc i + m) ?vs"
    using Suc.IH [of "Suc i" ?vs] Suc.prems by simp
  moreover have "take (Suc i) ?vs = take i vs @ [vs ! (i + k)]" using i by (simp add: take_Suc_conv_app_nth)
  moreover have "vs ! (i + k) # take m (drop (Suc (i + k)) vs) = take (Suc m) (drop (i + k) vs)"
    using i(2) by (simp add: Cons_nth_drop_Suc [symmetric])
  moreover have "drop (Suc i + k) ?vs = drop (Suc (i + k)) vs" "drop (Suc i + m) ?vs = drop (i + Suc m) vs" by simp_all
  ultimately show ?case by simp
qed (simp add: append_take_drop_id)

lemma copy_up_eq:
  "i + m + k = length vs \<Longrightarrow>
   copy_up k i m vs = take (length vs - i - m) vs @ drop (length vs - i - m - k) (take (length vs - i - k) vs) @ drop (length vs - i) vs"
proof (induction m arbitrary: i vs)
  case (Suc m)
  let ?n = "length vs" let ?j = "length vs - i - 1"
  let ?vs = "vs[?j := vs ! (?j - k)]"
  have j: "?j < ?n" "?j - k < ?n" "Suc ?j = ?n - i" "?j - k = m" "?j = m + k" using Suc.prems by simp_all
  have "copy_up k i (Suc m) vs = copy_up k (Suc i) m ?vs" by (simp add: diff_commute)
  also have "\<dots> = take (?n - Suc i - m) ?vs @ drop (?n - Suc i - m - k) (take (?n - Suc i - k) ?vs) @ drop (?n - Suc i) ?vs"
    using Suc.IH [of "Suc i" ?vs] Suc.prems by simp
  also have "\<dots> = take k vs @ take m vs @ drop (m + k) ?vs" using Suc.prems j by simp
  also have "drop (m + k) ?vs = vs ! m # drop (?n - i) vs"
    using j by (simp add: drop_update_swap upd_conv_take_nth_drop [of _ "drop _ vs"] flip: Cons_nth_drop_Suc)
  also have "take m vs @ vs ! m # drop (?n - i) vs = take (Suc m) vs @ drop (?n - i) vs"
    using j by (simp add: take_Suc_conv_app_nth)
  finally have e: "copy_up k i (Suc m) vs = take k vs @ take (Suc m) vs @ drop (?n - i) vs" .
  have "?n - i - Suc m = k" "?n - i - k = Suc m" using Suc.prems by simp_all
  then show ?case unfolding e by simp
qed (simp add: append_take_drop_id)

lemma shifted_down: "k \<le> length vs \<Longrightarrow> copy_down k 0 (length vs - k) vs = drop k vs @ drop (length vs - k) vs"
  using copy_down_eq [of 0 "length vs - k" k vs] by simp

lemma shifted_up: "k \<le> length vs \<Longrightarrow> copy_up k 0 (length vs - k) vs = take k vs @ take (length vs - k) vs"
  using copy_up_eq [of 0 "length vs - k" k vs] by simp

section \<open>Invalidated elements\<close>

lemma setValid_False: "setValid h False = Inr v \<Longrightarrow> header_valid v = (Known, False)"
  by (cases h) (auto simp: setValid_def header_valid_def bind_sum_Inr split: if_splits)

lemma invalidate_spec:
  assumes "distinct as" and "list_all (\<lambda>a. \<exists>v. setValid (h a) False = Inr v) as"
  shows "\<exists>h'. invalidate h as = Inr h' \<and> (\<forall>a. if a \<in> set as then header_valid (h' a) = (Known, False) else h' a = h a)"
  using assms
proof (induction "as" arbitrary: h)
  case (Cons a as)
  then obtain v where v: "setValid (h a) False = Inr v" by auto
  have "list_all (\<lambda>b. \<exists>w. setValid ((h(a := v)) b) False = Inr w) as" using Cons.prems by (auto simp: list_all_iff)
  then obtain h' where
    h': "invalidate (h(a := v)) as = Inr h'" "\<forall>b. if b \<in> set as then header_valid (h' b) = (Known, False) else h' b = (h(a := v)) b"
    using Cons.IH [of "h(a := v)"] Cons.prems(1) unfolding distinct.simps by blast
  have "if b \<in> set (a # as) then header_valid (h' b) = (Known, False) else h' b = h b" for b
    using h'(2) [rule_format, of b] setValid_False [OF v] Cons.prems(1) by (auto split: if_splits)
  then show ?case using v h'(1) by simp
qed simp

lemma in_drop: "distinct vs \<Longrightarrow> i < length vs \<Longrightarrow> vs ! i \<in> set (drop k vs) \<longleftrightarrow> k \<le> i"
  by (auto simp: in_set_conv_nth nth_eq_iff_index_eq) (metis add_diff_inverse_nat diff_less_mono nat_le_iff_add not_less)

lemma in_take: "distinct vs \<Longrightarrow> i < length vs \<Longrightarrow> vs ! i \<in> set (take k vs) \<longleftrightarrow> i < k"
  by (auto simp: in_set_conv_nth nth_eq_iff_index_eq)

text \<open>
  A shift to the right by \<open>k\<close> (\<open>push_front\<close>) never fails and moves the elements by \<open>k\<close> positions, but the
  first \<open>k\<close> pointers are also the \<open>k\<close> pointers after them, so that not only the \<open>k\<close> new positions but also
  the \<open>k\<close> first elements that were moved are invalid.
\<close>

lemma push_front_shift:
  assumes "distinct vs" and "list_all (\<lambda>a. \<exists>v. setValid (h a) False = Inr v) vs" and "0 < k" and "k \<le> length vs"
  shows "\<exists>h' vs'. sarray_shift h vs (int k) = Inr (h', vs') \<and> length vs' = length vs \<and>
    (\<forall>i < length vs. if 2 * k \<le> i then h' (vs' ! i) = h (vs ! (i - k)) else header_valid (h' (vs' ! i)) = (Known, False))"
proof -
  let ?n = "length vs" let ?vs = "take k vs @ take (length vs - k) vs"
  have "list_all (\<lambda>a. \<exists>v. setValid (h a) False = Inr v) (take k vs)"
    using assms(2) by (auto simp: list_all_iff dest: in_set_takeD)
  with invalidate_spec [of "take k vs" h] assms(1) obtain h' where
    h': "invalidate h (take k vs) = Inr h'"
      "\<And>a. if a \<in> set (take k vs) then header_valid (h' a) = (Known, False) else h' a = h a" by auto
  have "sarray_shift h vs (int k) = Inr (h', ?vs)"
    using assms(3,4) h'(1) by (simp add: sarray_shift_def Let_def shifted_up)
  moreover have "if 2 * k \<le> i then h' (?vs ! i) = h (vs ! (i - k)) else header_valid (h' (?vs ! i)) = (Known, False)" if "i < ?n" for i
  proof -
    obtain j where j: "?vs ! i = vs ! j" "j < ?n" "2 * k \<le> i \<Longrightarrow> j = i - k" "j < k \<longleftrightarrow> \<not> 2 * k \<le> i"
    proof (cases "i < k")
      case True
      then show ?thesis using that [of i] \<open>i < ?n\<close> by (auto simp: nth_append)
    next
      case False
      then have "?vs ! i = vs ! (i - k)" using \<open>i < ?n\<close> assms(4) by (simp add: nth_append)
      moreover have "i - k < ?n" "i - k < k \<longleftrightarrow> \<not> 2 * k \<le> i" using False \<open>i < ?n\<close> by linarith+
      ultimately show ?thesis using that by blast
    qed
    show ?thesis using h'(2) [of "vs ! j"] in_take [OF assms(1) j(2), of k] j by (auto split: if_splits)
  qed
  ultimately show ?thesis using assms(4) by (intro exI [of _ h'] exI [of _ ?vs]) simp
qed

section \<open>Properties\<close>

text \<open>
  C21: A shift to the left by \<open>k\<close> (\<open>pop_front\<close>) never fails and moves the elements by \<open>k\<close> positions, but the
  last \<open>k\<close> pointers are also the \<open>k\<close> pointers before them, so that invalidating the freed positions also
  invalidates the \<open>k\<close> elements that were moved from there: \<open>2 * k\<close> positions are invalid, not \<open>k\<close>.
\<close>

theorem pop_front_shift:
  assumes "distinct vs" and "list_all (\<lambda>a. \<exists>v. setValid (h a) False = Inr v) vs" and "0 < k" and "k \<le> length vs"
  shows "\<exists>h' vs'. sarray_shift h vs (- int k) = Inr (h', vs') \<and> length vs' = length vs \<and>
    (\<forall>i < length vs. if i + 2 * k < length vs then h' (vs' ! i) = h (vs ! (i + k)) else header_valid (h' (vs' ! i)) = (Known, False))"
proof -
  let ?n = "length vs" let ?vs = "drop k vs @ drop (length vs - k) vs"
  have "list_all (\<lambda>a. \<exists>v. setValid (h a) False = Inr v) (drop (?n - k) vs)"
    using assms(2) by (auto simp: list_all_iff dest: in_set_dropD)
  with invalidate_spec [of "drop (?n - k) vs" h] assms(1) obtain h' where
    h': "invalidate h (drop (?n - k) vs) = Inr h'"
      "\<And>a. if a \<in> set (drop (?n - k) vs) then header_valid (h' a) = (Known, False) else h' a = h a" by auto
  have "sarray_shift h vs (- int k) = Inr (h', ?vs)"
    using assms(3,4) h'(1) by (simp add: sarray_shift_def Let_def shifted_down)
  moreover have "if i + 2 * k < ?n then h' (?vs ! i) = h (vs ! (i + k)) else header_valid (h' (?vs ! i)) = (Known, False)" if "i < ?n" for i
  proof -
    obtain j where j: "?vs ! i = vs ! j" "j < ?n" "i + 2 * k < ?n \<Longrightarrow> j = i + k" "?n - k \<le> j \<longleftrightarrow> \<not> i + 2 * k < ?n"
    proof (cases "i < ?n - k")
      case True
      then have "?vs ! i = vs ! (i + k)" using assms(4) by (simp add: nth_append add.commute)
      moreover have "i + k < ?n" "?n - k \<le> i + k \<longleftrightarrow> \<not> i + 2 * k < ?n" using True by linarith+
      ultimately show ?thesis using that by blast
    next
      case False
      then show ?thesis using that [of i] \<open>i < ?n\<close> assms(3,4) by (auto simp: nth_append)
    qed
    show ?thesis using h'(2) [of "vs ! j"] in_drop [OF assms(1) j(2), of "?n - k"] j by (auto split: if_splits)
  qed
  ultimately show ?thesis using assms(4) by (intro exI [of _ h'] exI [of _ ?vs]) simp
qed

definition stack3 :: "nat \<Rightarrow> sval" where
  "stack3 a = SHeader (Type_Header ''h'' [(''f'', Type_Bits 8 False)]) [(''f'', SInteger (Type_Bits 8 False) Known (Some (IConst a (Type_Bits 8 False) (int a) 10)))] Known True"

lemma stack3_valid: "list_all (\<lambda>a. \<exists>v. setValid (stack3 a) False = Inr v) vs"
  by (simp add: list_all_iff stack3_def setValid_def type_names_def struct_fields_def)

theorem pop_front_shift_witness:
  "\<exists>h' vs'. sarray_shift stack3 [5, 6, 7] (- 1) = Inr (h', vs') \<and> h' (vs' ! 0) = stack3 6 \<and>
     header_valid (h' (vs' ! 1)) = (Known, False) \<and> header_valid (h' (vs' ! 2)) = (Known, False)"
proof -
  obtain h' vs' where "sarray_shift stack3 [5, 6, 7] (- int 1) = Inr (h', vs')"
    and e: "\<And>i. i < 3 \<Longrightarrow> if i + 2 < 3 then h' (vs' ! i) = stack3 ([5, 6, 7] ! (i + 1)) else header_valid (h' (vs' ! i)) = (Known, False)"
    using pop_front_shift [of "[5, 6, 7]" stack3 1] stack3_valid by auto
  then show ?thesis using e [of 0] e [of 1] e [of 2] by auto
qed

end
