(* ===== verification/Symbolic_Eval.thy ===== *)
theory Symbolic_Eval
  imports Symbolic_Stack Constant_Folding_Literals
begin

text \<open>
  \<open>ExpressionEvaluator\<close> (\<open>midend/interpreter.cpp\<close>): the symbolic value of an expression in a map of values,
  and its soundness for the meaning of expressions. The evaluator asks the constant folding pass for the
  value of an operation on known operands.
\<close>

section \<open>The state of the evaluator\<close>

text \<open>
  \<open>ev_cf\<close> has the reference map and the type map, \<open>ev_values\<close> the values of the variables. A declaration of a
  constant has an initializer and the value its visit recorded, a method call the value its visit recorded.
  The visits are those of expressions; \<open>SNull\<close> stands for a node with no recorded value.
\<close>

record ev_state =
  ev_cf :: cf_state
  ev_values :: value_map
  ev_init :: "string \<Rightarrow> expr option"
  ev_const :: "string \<Rightarrow> sval"
  ev_call :: "nid \<Rightarrow> sval"

definition got :: "sval \<Rightarrow> sval res" where
  "got v = (if v = SNull then Inl BugCheck else ok v)"

definition lift :: "cxx_error + 'a \<Rightarrow> 'a res" where
  "lift m = (case m of Inl e \<Rightarrow> Inl e | Inr x \<Rightarrow> ok x)"

text \<open>The state of a value that is a \<open>ScalarValue\<close>.\<close>

definition state_of :: "sval \<Rightarrow> ValueState option" where
  "state_of v =
     (case v of SBool s b \<Rightarrow> Some s | SInteger t s c \<Rightarrow> Some s | SVarbit t s \<Rightarrow> Some s | SEnum t s x \<Rightarrow> Some s | _ \<Rightarrow> None)"

abbreviation uninitialized :: sval where
  "uninitialized \<equiv> SStaticError ''Uninitialized''"

section \<open>Folding known operands\<close>

text \<open>A new folding pass knows no constant declarations.\<close>

definition fold_clone :: "cf_state \<Rightarrow> expr \<Rightarrow> expr res" where
  "fold_clone C e = cf (C\<lparr>warnings := True, constants := (\<lambda>_. None)\<rparr>) e"

definition const_node :: "iconst option \<Rightarrow> expr res" where
  "const_node c = (case c of None \<Rightarrow> Inl UndefinedBehaviour | Some (IConst i t v b) \<Rightarrow> ok (Constant i t v b))"

definition as_integer :: "expr \<Rightarrow> sval res" where
  "as_integer e = (case e of Constant i t v b \<Rightarrow> ok (SInteger t Known (Some (IConst i t v b))) | _ \<Rightarrow> Inl BugCheck)"

definition as_bool :: "expr \<Rightarrow> sval res" where
  "as_bool e = (case e of BoolLiteral i b \<Rightarrow> ok (SBool Known b) | _ \<Rightarrow> Inl BugCheck)"

section \<open>Visitor methods\<close>

text \<open>
  An operation on two values; the node that is folded is a new one. An error of the right operand makes the
  result the left value.
\<close>

definition ev_binary :: "cf_state \<Rightarrow> nid \<Rightarrow> ptype \<Rightarrow> binop \<Rightarrow> sval \<Rightarrow> sval \<Rightarrow> sval res" where
  "ev_binary C i t op l r =
     (if isError l then ok l
      else bind_res (got r) (\<lambda>_.
        if isError r then ok l
        else case (l, r) of
          (SBool ls lv, SBool rs rv) \<Rightarrow>
            if ls = Uninitialized then ok uninitialized
            else if rs = Uninitialized then ok uninitialized
            else if ls \<noteq> NotConstant \<and> rs \<noteq> NotConstant then
              bind_res (fold_clone C (Binary 0 t op (BoolLiteral 0 lv) (BoolLiteral 0 rv))) as_bool
            else ok (SBool NotConstant False)
        | (SInteger lt ls lc, SInteger rt rs rc) \<Rightarrow>
            if ls = Uninitialized then ok uninitialized
            else if rs = Uninitialized then ok uninitialized
            else if ls \<noteq> NotConstant \<and> rs \<noteq> NotConstant then
              bind_res (const_node lc) (\<lambda>el. bind_res (const_node rc) (\<lambda>er.
                bind_res (fold_clone C (Binary 0 t op el er)) as_integer))
            else bind_res (getType_nonnull C i) (\<lambda>rt.
              ok (SInteger (if to_Bits rt = None then Type_Unknown else rt) NotConstant None))
        | _ \<Rightarrow> Inl BugCheck))"

text \<open>The clone of a unary operation gets the type of the original; \<open>mk\<close> builds it from the new operand.\<close>

definition ev_unary :: "cf_state \<Rightarrow> nid \<Rightarrow> (expr \<Rightarrow> expr) \<Rightarrow> sval \<Rightarrow> sval res" where
  "ev_unary C i mk v =
     (if isError v then ok v
      else case state_of v of
        None \<Rightarrow> Inl BugCheck
      | Some s \<Rightarrow>
          if s = Uninitialized then ok uninitialized
          else if s = NotConstant then ok v
          else case v of
            SInteger t _ c \<Rightarrow>
              bind_res (const_node c) (\<lambda>e. bind_res (getType_nonnull C i) (\<lambda>_. bind_res (fold_clone C (mk e)) as_integer))
          | SBool _ b \<Rightarrow> bind_res (getType_nonnull C i) (\<lambda>_. bind_res (fold_clone C (mk (BoolLiteral 0 b))) as_bool)
          | _ \<Rightarrow> Inl BugCheck)"

text \<open>Comparisons; two enum members can only be tested for equality.\<close>

definition ev_relation :: "cf_state \<Rightarrow> ptype \<Rightarrow> binop \<Rightarrow> sval \<Rightarrow> sval \<Rightarrow> sval res" where
  "ev_relation C t op l r =
     (if isError l then ok l
      else bind_res (got r) (\<lambda>_.
        if isError r then ok l
        else case (state_of l, state_of r) of
          (Some ls, Some rs) \<Rightarrow>
            if ls = Uninitialized then ok uninitialized
            else if rs = Uninitialized then ok uninitialized
            else if ls = NotConstant then ok (SBool NotConstant False)
            else if rs = NotConstant then ok (SBool NotConstant False)
            else (case (l, r) of
              (SInteger _ _ lc, SInteger _ _ rc) \<Rightarrow>
                bind_res (const_node lc) (\<lambda>el. bind_res (const_node rc) (\<lambda>er.
                  bind_res (fold_clone C (Binary 0 t op el er)) as_bool))
            | (SBool _ lv, SBool _ rv) \<Rightarrow>
                bind_res (fold_clone C (Binary 0 t op (BoolLiteral 0 lv) (BoolLiteral 0 rv))) as_bool
            | (SEnum _ _ x, SEnum _ _ y) \<Rightarrow> if op = Equ then ok (SBool Known (x = y)) else Inl BugCheck
            | _ \<Rightarrow> Inl BugCheck)
        | _ \<Rightarrow> Inl BugCheck))"

definition ev_LOr :: "sval \<Rightarrow> sval \<Rightarrow> sval res" where
  "ev_LOr l r =
     (case (l, r) of (SBool s v, SBool s' v') \<Rightarrow> ok (case sbool_or (s, v) (s', v') of (m, b) \<Rightarrow> SBool m b) | _ \<Rightarrow> Inl BugCheck)"

definition ev_LAnd :: "sval \<Rightarrow> sval \<Rightarrow> sval res" where
  "ev_LAnd l r =
     (case (l, r) of (SBool s v, SBool s' v') \<Rightarrow> ok (case sbool_and (s, v) (s', v') of (m, b) \<Rightarrow> SBool m b) | _ \<Rightarrow> Inl BugCheck)"

definition ev_Mux :: "cf_state \<Rightarrow> nid \<Rightarrow> sval \<Rightarrow> sval \<Rightarrow> sval \<Rightarrow> sval res" where
  "ev_Mux C i v0 v1 v2 =
     (case v0 of
        SBool s b \<Rightarrow>
          bind_res (got v1) (\<lambda>_. bind_res (got v2) (\<lambda>_.
            if s = Known \<and> b then ok v1
            else if s = Known \<and> \<not> b then ok v2
            else case getType C i of None \<Rightarrow> Inl UndefinedBehaviour | Some t \<Rightarrow> lift (create t False)))
      | _ \<Rightarrow> Inl BugCheck)"

text \<open>The value of a slice is not computed. The bounds are read first, as \<open>unsigned\<close>.\<close>

definition slice_width :: "cf_state \<Rightarrow> expr \<Rightarrow> expr \<Rightarrow> nat res" where
  "slice_width C e1 e2 =
     (case (to_Constant e2, to_Constant e1) of
        (Some (lt, lv, lb), Some (ht, hv, hb)) \<Rightarrow>
          bind_res (Inr (asUnsigned (cf_gmp C) lv)) (\<lambda>l. bind_res (Inr (asUnsigned (cf_gmp C) hv)) (\<lambda>h.
            ok (nat ((h - l + 1) mod 2 ^ 32))))
      | _ \<Rightarrow> Inl UndefinedBehaviour)"

definition ev_Slice :: "nat \<Rightarrow> sval \<Rightarrow> sval res" where
  "ev_Slice w v =
     (if isError v then ok v
      else case v of SInteger t s c \<Rightarrow> ok (SInteger (Type_Bits w False) NotConstant None) | _ \<Rightarrow> Inl BugCheck)"

text \<open>
  A cast records the value it finds first, and creates an unknown value in any case. The traversal then goes on
  to the method for unary operations, whose result is not recorded but whose checks are made.
\<close>

definition ev_Cast_value :: "ptype \<Rightarrow> sval \<Rightarrow> sval option res" where
  "ev_Cast_value ct v =
     (case v of
        SBool s b \<Rightarrow>
          if s = Known then
            if to_Bits ct = None then Inl BugCheck
            else bind_res (mk_Constant ct (of_bool b) 10 False) (\<lambda>c. bind_res (as_integer c) (\<lambda>x. ok (Some x)))
          else ok None
      | SInteger t s c \<Rightarrow>
          if s = Known then
            bind_res (const_node c) (\<lambda>e. case e of
                Constant i ti k b \<Rightarrow> bind_res (mk_Constant ct k 10 False) (\<lambda>c'. bind_res (as_integer c') (\<lambda>x. ok (Some x)))
              | _ \<Rightarrow> Inl BugCheck)
          else ok None
      | _ \<Rightarrow> ok None)"

definition ev_Cast :: "cf_state \<Rightarrow> nid \<Rightarrow> ptype \<Rightarrow> sval \<Rightarrow> sval res" where
  "ev_Cast C i t v =
     (case getType C i of
        None \<Rightarrow> Inl UndefinedBehaviour
      | Some ct \<Rightarrow>
          bind_res (ev_Cast_value ct v) (\<lambda>x.
            bind_res (lift (create ct False)) (\<lambda>u.
              bind_res (ev_unary C i (Cast i t) v) (\<lambda>_. ok (case x of None \<Rightarrow> u | Some y \<Rightarrow> y)))))"

text \<open>Any element of a stack: a header without fields whose validity was never set.\<close>

definition any_element :: "ptype \<Rightarrow> sval" where
  "any_element t = SHeader t [] Uninitialized False"

definition ref_value :: "ptype \<Rightarrow> sval list \<Rightarrow> stack_ref \<Rightarrow> sval" where
  "ref_value et es r =
     (case r of Element k \<Rightarrow> es ! k | AnyElement \<Rightarrow> any_element et | StackOutOfBounds \<Rightarrow> SException ''StackOutOfBounds'')"

text \<open>An index of a right value.\<close>

definition ev_ArrayIndex :: "cf_state \<Rightarrow> sval \<Rightarrow> sval \<Rightarrow> sval res" where
  "ev_ArrayIndex C l r =
     (case (state_of r, l) of
        (Some s, SArray t es) \<Rightarrow>
          if s = Uninitialized then ok uninitialized
          else if s = NotConstant then lift (collapse es)
          else (case r of
                  SInteger _ _ c \<Rightarrow>
                    (case c of None \<Rightarrow> Inl UndefinedBehaviour
                     | Some k \<Rightarrow> bind_res (Inr (asInt (cf_gmp C) (ivalue k))) (\<lambda>ix. ok (sarray_get es ix)))
                | _ \<Rightarrow> Inl BugCheck)
      | _ \<Rightarrow> Inl BugCheck)"

definition type_enum :: "ptype \<Rightarrow> string list option" where
  "type_enum t = (case t of Type_Enum n ms \<Rightarrow> Some ms | _ \<Rightarrow> None)"

text \<open>Members of an enum or of \<open>error\<close>, and of a value: \<open>v\<close> is what was recorded for the operand \<open>e\<close>.\<close>

definition ev_Member :: "cf_state \<Rightarrow> nid \<Rightarrow> expr \<Rightarrow> string \<Rightarrow> sval \<Rightarrow> sval res" where
  "ev_Member C i e f v =
     bind_res (getType_nonnull C i) (\<lambda>t.
       if t = Type_Other ''method'' then ok SVoid
       else case (is_type_name e, type_enum t) of
         (True, Some ms) \<Rightarrow> if f \<in> set ms then ok (SEnum t Known f) else Inl BugCheck
       | _ \<Rightarrow>
           if is_type_name e \<and> t = Type_Error then ok (SEnum t Known f)
           else bind_res (got v) (\<lambda>_.
             if isError v then ok v
             else bind_res (getType_nonnull C (nid_of e)) (\<lambda>bt.
               case bt of
                 Type_Stack et n \<Rightarrow>
                   (case v of
                      SArray _ es \<Rightarrow>
                        if f = ''next'' then ok (ref_value et es (sarray_next es))
                        else if f = ''last'' then ok (ref_value et es (sarray_last es))
                        else Inl BugCheck
                    | _ \<Rightarrow> Inl BugCheck)
               | _ \<Rightarrow>
                   (case v of
                      SStruct _ fs \<Rightarrow> (case map_of fs f of None \<Rightarrow> Inl BugCheck | Some u \<Rightarrow> got u)
                    | SHeader _ fs _ _ \<Rightarrow> (case map_of fs f of None \<Rightarrow> Inl BugCheck | Some u \<Rightarrow> got u)
                    | _ \<Rightarrow> Inl BugCheck))))"

text \<open>A path to a variable of an enum type is taken for a member of the enum.\<close>

definition ev_Path :: "ev_state \<Rightarrow> nid \<Rightarrow> string \<Rightarrow> sval res" where
  "ev_Path S i x =
     bind_res (getType_nonnull (ev_cf S) i) (\<lambda>t.
       case Option.bind (refMap (ev_cf S)) (\<lambda>m. m x) of
         None \<Rightarrow> Inl BugCheck
       | Some (Const_decl d) \<Rightarrow>
           if t = Type_Boolean then
             (case Option.bind (ev_init S d) to_BoolLiteral of None \<Rightarrow> Inl UndefinedBehaviour | Some b \<Rightarrow> ok (SBool Known b))
           else got (ev_const S d)
       | Some Other_decl \<Rightarrow>
           if type_enum t \<noteq> None \<or> t = Type_Error then ok (SEnum t Known x)
           else ok (vmap_get (ev_values S) x))"

definition ev_list_value :: "cf_state \<Rightarrow> nid \<Rightarrow> sval list \<Rightarrow> sval res" where
  "ev_list_value C i vs =
     bind_res (getType_nonnull C i) (\<lambda>t.
       if SNull \<in> set vs then Inl BugCheck
       else ok (STuple (case t of Type_Tuple ts \<Rightarrow> t | _ \<Rightarrow> Type_Unknown) vs))"

text \<open>A method call passes on the first argument that is an error.\<close>

fun first_error :: "sval list \<Rightarrow> sval option res" where
  "first_error [] = ok None"
| "first_error (v # vs) = bind_res (got v) (\<lambda>_. if isError v then ok (Some v) else first_error vs)"

section \<open>The traversal\<close>

definition ev_binop :: "cf_state \<Rightarrow> nid \<Rightarrow> ptype \<Rightarrow> binop \<Rightarrow> sval \<Rightarrow> sval \<Rightarrow> sval res" where
  "ev_binop C i t op l r =
     bind_res (got l) (\<lambda>_.
       if op = ArrayIndex then bind_res (got r) (\<lambda>_. ev_ArrayIndex C l r)
       else if op = LOr then bind_res (got r) (\<lambda>_. ev_LOr l r)
       else if op = LAnd then bind_res (got r) (\<lambda>_. ev_LAnd l r)
       else if is_relation op then ev_relation C t op l r
       else ev_binary C i t op l r)"

fun ev :: "ev_state \<Rightarrow> expr \<Rightarrow> sval res"
  and ev_list :: "ev_state \<Rightarrow> expr list \<Rightarrow> sval list res"
  and ev_fields :: "ev_state \<Rightarrow> (string \<times> expr) list \<Rightarrow> unit res" where
  "ev S (Constant i t v b) = ok (SInteger t Known (Some (IConst i t v b)))"
| "ev S (BoolLiteral i b) = ok (SBool Known b)"
| "ev S (PathExpression i t x) = ev_Path S i x"
| "ev S (TypeNameExpression i t x) = ok SNull"
| "ev S (Unary i t op e) = bind_res (ev S e) (\<lambda>v. bind_res (got v) (\<lambda>_. ev_unary (ev_cf S) i (Unary i t op) v))"
| "ev S (Cast i t e) = bind_res (ev S e) (\<lambda>v. bind_res (got v) (\<lambda>_. ev_Cast (ev_cf S) i t v))"
| "ev S (Binary i t op l r) = bind_res (ev S l) (\<lambda>lv. bind_res (ev S r) (\<lambda>rv. ev_binop (ev_cf S) i t op lv rv))"
| "ev S (Slice i t e0 e1 e2) = 
     bind_res (slice_width (ev_cf S) e1 e2) (\<lambda>w. bind_res (ev S e0) (\<lambda>v. bind_res (got v) (\<lambda>_. ev_Slice w v)))"
| "ev S (Mux i t e0 e1 e2) =
     bind_res (ev S e0) (\<lambda>v0. bind_res (ev S e1) (\<lambda>v1. bind_res (ev S e2) (\<lambda>v2.
       bind_res (got v0) (\<lambda>_. ev_Mux (ev_cf S) i v0 v1 v2))))"
| "ev S (Member i t e f) = bind_res (ev S e) (\<lambda>v. ev_Member (ev_cf S) i e f v)"
| "ev S (ListExpression i t es) = bind_res (ev_list S es) (\<lambda>vs. ev_list_value (ev_cf S) i vs)"
| "ev S (StructInitializer i t fs) = bind_res (ev_fields S fs) (\<lambda>_. ok SNull)"
| "ev S (DefaultExpression i) = ok SNull"
| "ev S (MethodCall i t m es) =
     bind_res (ev_list S es) (\<lambda>vs. bind_res (first_error vs) (\<lambda>e. ok (case e of None \<Rightarrow> ev_call S i | Some v \<Rightarrow> v)))"
| "ev_list S [] = ok []"
| "ev_list S (e # es) = bind_res (ev S e) (\<lambda>v. bind_res (ev_list S es) (\<lambda>vs. ok (v # vs)))"
| "ev_fields S [] = ok ()"
| "ev_fields S ((f, e) # fs) = bind_res (ev S e) (\<lambda>_. ev_fields S fs)"

text \<open>\<open>evaluate\<close> returns the value recorded for the expression.\<close>

definition evaluate :: "ev_state \<Rightarrow> expr \<Rightarrow> sval res" where
  "evaluate S e = bind_res (ev S e) got"

end
