(* ===== verification/Symbolic_Calls.thy ===== *)
theory Symbolic_Calls
  imports Symbolic_Eval
begin

text \<open>
  The method calls of \<open>ExpressionEvaluator\<close>: the built-in methods of headers and stacks, \<open>extract\<close> of a packet, and
  calls nothing is known about. The objects a call changes are passed in and returned. When an argument is
  an error the call is not evaluated, see \<open>ev\<close>.
\<close>

section \<open>Built-in methods\<close>

text \<open>The new header, and the result of the call.\<close>

definition call_setValid :: "string \<Rightarrow> sval \<Rightarrow> (sval \<times> sval) res" where
  "call_setValid name base = bind_res (lift (setValid base (name = ''setValid''))) (\<lambda>h. ok (h, SVoid))"

definition call_isValid :: "string \<Rightarrow> sval \<Rightarrow> (sval \<times> sval) res" where
  "call_isValid name base =
     (if name \<noteq> ''isValid'' then Inl BugCheck
      else case base of SHeader t fs s v \<Rightarrow> ok (base, SBool s v) | _ \<Rightarrow> Inl BugCheck)"

fun forget :: "(nat \<Rightarrow> sval) \<Rightarrow> nat list \<Rightarrow> cxx_error + (nat \<Rightarrow> sval)" where
  "forget h [] = Inr h"
| "forget h (a # as) = bind_sum (setAllUnknown (h a)) (\<lambda>v. forget (h(a := v)) as)"

text \<open>
  \<open>push_front\<close> and \<open>pop_front\<close> of a stack, given by the addresses of its headers. When the amount is not
  known no value is recorded for the call.
\<close>

definition call_stack :: "cf_state \<Rightarrow> string \<Rightarrow> (nat \<Rightarrow> sval) \<Rightarrow> nat list \<Rightarrow> sval \<Rightarrow> ((nat \<Rightarrow> sval) \<times> nat list \<times> sval) res" where
  "call_stack C name h vs amount =
     (case amount of
        SInteger t s c \<Rightarrow>
          if s = NotConstant then bind_res (lift (forget h vs)) (\<lambda>h'. ok (h', vs, SNull))
          else (case c of
            None \<Rightarrow> Inl UndefinedBehaviour
          | Some k \<Rightarrow>
              bind_res (Inr (asInt (cf_gmp C) (ivalue k))) (\<lambda>amt.
                bind_res (lift (sarray_shift h vs (if name = ''pop_front'' then - amt else amt))) (\<lambda>(h', vs').
                  ok (h', vs', SVoid))))
      | _ \<Rightarrow> Inl BugCheck)"

section \<open>extract\<close>

definition is_header_type :: "ptype \<Rightarrow> bool" where
  "is_header_type t = (case t of Type_Header n fs \<Rightarrow> True | _ \<Rightarrow> False)"

text \<open>
  How far the packet advances, or the error the arguments are rejected with; \<open>szs\<close> has the value of the second
  argument, if there is one.
\<close>

definition extract_width :: "cf_state \<Rightarrow> bool \<Rightarrow> ptype \<Rightarrow> sval list \<Rightarrow> (sval + nat) res" where
  "extract_width C wrapped argType szs =
     (let fixed = isFixedWidth wrapped argType; width = getWidth argType in
      case szs of
        [] \<Rightarrow>
          if \<not> fixed \<or> \<not> is_header_type argType
          then ok (Inl (SStaticError ''Expected a fixed-size header as argument'')) else ok (Inr width)
      | [sz] \<Rightarrow>
          if fixed \<or> \<not> is_header_type argType
          then ok (Inl (SStaticError ''Expected a variable-size header as argument''))
          else (case sz of
            SInteger t s c \<Rightarrow>
              if s = Known then
                (case c of None \<Rightarrow> Inl UndefinedBehaviour
                 | Some k \<Rightarrow> bind_res (Inr (asInt (cf_gmp C) (ivalue k))) (\<lambda>w. ok (Inr (nat (w mod 2 ^ 32)))))
              else ok (Inr width)
          | _ \<Rightarrow> ok (Inr width))
      | _ \<Rightarrow> Inl BugCheck)"



section \<open>Other methods\<close>

text \<open>The arguments with the direction of their parameters (true for \<open>out\<close> and \<open>inout\<close>); \<open>ret\<close> is the return type, if any.\<close>

fun forget_out :: "(bool \<times> sval) list \<Rightarrow> cxx_error + sval list" where
  "forget_out [] = Inr []"
| "forget_out ((out, v) # as) =
     bind_sum (if out then setAllUnknown v else Inr v) (\<lambda>v'. bind_sum (forget_out as) (\<lambda>vs. Inr (v' # vs)))"

definition call_other :: "(bool \<times> sval) list \<Rightarrow> ptype option \<Rightarrow> (sval list \<times> sval) res" where
  "call_other as ret =
     bind_res (lift (forget_out as)) (\<lambda>vs.
       if ret = None \<or> ret = Some Type_Void then ok (vs, SVoid)
       else bind_res (lift (create (the ret) False)) (\<lambda>r. ok (vs, r)))"

section \<open>Widths\<close>



lemma uint_uint [simp]: "uint (uint a) = uint a"
  by (simp add: uint_def)




text \<open>
  With type nodes wrapped in the type map, every type passes for one of fixed width, so that the form of \<open>extract\<close>
  for headers of variable size always fails.
\<close>

lemma extract_variable_rejected:
  "extract_width C True argType [sz] = ok (Inl (SStaticError ''Expected a variable-size header as argument''))"
  by (simp add: extract_width_def Let_def isFixedWidth.simps)


section \<open>Properties\<close>




end
