(* ===== verification/Symbolic_Sound.thy ===== *)
theory Symbolic_Sound
  imports Symbolic_Eval
begin

text \<open>
  The evaluator is sound: what it returns for an expression covers the value of the expression in every
  environment that the map of values covers.
\<close>

section \<open>Covered values\<close>








section \<open>Folding known operands\<close>

abbreviation clone_cf :: "cf_state \<Rightarrow> cf_state" where
  "clone_cf C \<equiv> C\<lparr>warnings := True, constants := (\<lambda>_. None)\<rparr>"

lemma clone_cf_node [simp]: "node_ok (clone_cf C) = node_ok C" "fresh (clone_cf C) = fresh C" "getType (clone_cf C) = getType C"
    "typesKnown (clone_cf C) = typesKnown C"
  by (auto simp: node_ok_def fresh_def getType_def typesKnown_def)








section \<open>Every method covers\<close>














lemma lift_Inr [simp]: "lift m = Inr (ds, x) \<longleftrightarrow> ds = [] \<and> m = Inr x"
  by (cases m) (auto simp: lift_def)







section \<open>Soundness\<close>

text \<open>
  The map of values and the constants cover the environment. A Boolean constant is read off its initializer,
  another one has the value recorded for it.
\<close>

definition decl_of :: "ev_state \<Rightarrow> string \<Rightarrow> decl_ref option" where
  "decl_of S x = Option.bind (refMap (ev_cf S)) (\<lambda>m. m x)"









lemma bind_res_Inl [simp]: "bind_res (Inl e) f = Inl e"
  by (simp add: bind_res_def)

text \<open>Two known Booleans are compared through new literals, whose type the folding pass does not find.\<close>

lemma bool_equality_null:
  assumes "typesKnown C" and "fresh C"
  shows "ev_relation C t Equ (SBool Known a) (SBool Known b) = Inl UndefinedBehaviour"
  using assms by (simp add: ev_relation_def isError_def got_def state_of_def fold_clone_def cf_binop_def cf_Equ_def fresh_def)

text \<open>A known Boolean is not cast: the folded cast is a constant, where the method for unary operations expects a Boolean.\<close>

lemma bool_cast_fails:
  assumes "getType C i = Some (Type_Bits 1 False)"
  shows "ev_Cast C i (Type_Bits 1 False) (SBool Known b) = Inl BugCheck"
proof -
  have k: "typesKnown C" using assms by (auto simp: getType_def typesKnown_def split: option.splits)
  have m: "mk_Constant (Type_Bits 1 False) (of_bool b) 10 False = ok (Constant 0 (Type_Bits 1 False) (of_bool b) 10)"
  proof -
    have "mk_Constant (Type_Bits 1 False) 1 10 False = ok (Constant 0 (Type_Bits 1 False) 1 10)"
      "mk_Constant (Type_Bits 1 False) 0 10 False = ok (Constant 0 (Type_Bits 1 False) 0 10)" by code_simp+
    then show ?thesis by (cases b) simp_all
  qed
  have "ev_unary C i (Cast i (Type_Bits 1 False)) (SBool Known b) = Inl BugCheck"
    using assms k m by (simp add: ev_unary_def isError_def state_of_def getType_nonnull_def fold_clone_def cf_Cast_def to_Bits_def as_bool_def)
  then show ?thesis
    using assms m by (simp add: ev_Cast_def ev_Cast_value_def to_Bits_def as_integer_def lift_def)
qed

section \<open>Properties\<close>


definition demo_types :: "nid \<Rightarrow> ptype option" where
  "demo_types i = (if i = 0 then None else if i < 10 then Some (Type_Bits 8 False) else if i < 20 then Some Type_Boolean
     else Some (Type_Enum ''color'' [''red'', ''blue'']))"

definition demo_state :: ev_state where
  "demo_state = \<lparr>ev_cf = \<lparr>cf_gmp = gmp64, typeMap = Some demo_types, refMap = Some (\<lambda>x. Some Other_decl), warnings = True, constants = (\<lambda>_. None)\<rparr>,
     ev_values = [(''x'', SInteger (Type_Bits 8 False) Known (Some (IConst 1 (Type_Bits 8 False) 250 10))),
                  (''y'', SInteger (Type_Bits 8 False) NotConstant None)],
     ev_init = (\<lambda>_. None), ev_const = (\<lambda>_. SNull), ev_call = (\<lambda>_. SNull)\<rparr>"





text \<open>
  C20: A variable of an enum type is evaluated to the known member that has the name of the variable. Comparing two
  such variables therefore gives a known false, also where the two have the same value.
\<close>

theorem enum_variables_compared_by_name:
  assumes "getType (ev_cf S) i = Some (Type_Enum n ms)" and "getType (ev_cf S) j = Some (Type_Enum n ms)"
    and "decl_of S x = Some Other_decl" and "decl_of S y = Some Other_decl" and "x \<noteq> y"
    and "var E x = Some (VEnum n c)" and "var E y = Some (VEnum n c)" and "c \<in> set ms"
  shows "evaluate S (Binary k Type_Boolean Equ (PathExpression i (Type_Enum n ms) x) (PathExpression j (Type_Enum n ms) y)) =
       Inr ([], SBool Known False) \<and>
     eval E (Binary k Type_Boolean Equ (PathExpression i (Type_Enum n ms) x) (PathExpression j (Type_Enum n ms) y)) = Some (VBool True)"
proof -
  have p: "ev_Path S i x = ok (SEnum (Type_Enum n ms) Known x)" "ev_Path S j y = ok (SEnum (Type_Enum n ms) Known y)"
    using assms(1-4) by (simp_all add: ev_Path_def getType_nonnull_def decl_of_def type_enum_def)
  have "ev_binop (ev_cf S) k Type_Boolean Equ (SEnum (Type_Enum n ms) Known x) (SEnum (Type_Enum n ms) Known y) = ok (SBool Known False)"
    using assms(5) by (simp add: ev_binop_def got_def ev_relation_def isError_def state_of_def is_relation_def)
  then show ?thesis
    using p assms(6-8)
    by (simp add: evaluate_def got_def ok_def typed_val_def enum_type_def binop_val_def eq_val_def)
qed

theorem enum_variables_compared_by_name_witness:
  "evaluate demo_state (Binary 10 Type_Boolean Equ (PathExpression 20 (Type_Enum ''color'' [''red'', ''blue'']) ''p'')
     (PathExpression 21 (Type_Enum ''color'' [''red'', ''blue'']) ''q'')) = Inr ([], SBool Known False) \<and>
   eval \<lparr>var = (\<lambda>_. Some (VEnum ''color'' ''red'')), call = (\<lambda>_ _. None)\<rparr>
     (Binary 10 Type_Boolean Equ (PathExpression 20 (Type_Enum ''color'' [''red'', ''blue'']) ''p'')
       (PathExpression 21 (Type_Enum ''color'' [''red'', ''blue'']) ''q'')) = Some (VBool True)"
  by (rule enum_variables_compared_by_name [where c = "''red''"]) (simp_all add: demo_state_def demo_types_def getType_def decl_of_def)

end
