(* ===== verification/Spec2Isabelle.thy ===== *)
theory Spec2Isabelle
  imports Cfg_Traverse Cfg_Topo Cfg_Rename Ordered_Containers Call_Graph_Loops Strength_Reduction Constant_Folding_Literals Constant_Folding_Program Symbolic_Calls Symbolic_Sound
begin

text \<open>
  \<^bold>\<open>A verification development for FlexPlan (the bf4 P4 verifier).\<close>

  FlexPlan checks and synthesises P4 programs. Its C++ part, \<open>bf4\<close>, is a fork of the P4
  compiler with an analysis back end (\<open>src/bf4/backends/analysis\<close>): P4 programs are
  instrumented, turned into control-flow graphs, unrolled, cut into basic blocks, analysed by
  work-list algorithms over lattices, and translated to formulas. This development is about the
  graph and analysis library all of these stages are built on.
\<close>

end
